(* ===== verification/Prelude.thy ===== *)
theory Prelude
  imports Main "HOL-Library.Char_ord"
begin

text \<open>
  Shared ground of the development: the C machine the servers run on (an LP64 Linux box).
  \<^item> \<open>long int\<close> and \<open>long long\<close> are 64-bit two's complement. A value is an \<open>int\<close>, and every
    arithmetic result the code stores goes through \<open>s64\<close>, which writes the wrap-around out.
    Signed overflow is undefined in C; \<open>s64\<close> is what the compiled add and multiply do, and a
    theorem that depends on the absence of overflow says so with \<open>fits64\<close>.
  \<^item> division is C's, truncating towards zero (\<open>cdiv\<close>, \<open>cmod\<close>).
  \<^item> \<open>char\<close> is signed: \<open>(long int) str[i]\<close> is \<open>c_int\<close>.
  \<^item> a C string is the \<open>char list\<close> before its NUL; a buffer is the list with its NULs in it,
    and \<open>cstr_at\<close> reads the C string that starts at an offset of a buffer.
  \<^item> \<open>sprintf\<close>'s \<open>%ld\<close>, \<open>strtol\<close> and \<open>atoi\<close>-like reading are \<open>show_long\<close> and \<open>strtol10\<close>.
\<close>

named_theorems c_simps "evaluation of C-level helpers"

type_synonym addr = nat

section \<open>Machine integers\<close>

definition s64 :: "int \<Rightarrow> int" where
  "s64 x = (x + 2 ^ 63) mod 2 ^ 64 - 2 ^ 63"

definition fits64 :: "int \<Rightarrow> bool" where
  "fits64 x \<longleftrightarrow> - (2 ^ 63) \<le> x \<and> x < 2 ^ 63"

lemma s64_id [simp]: "fits64 x \<Longrightarrow> s64 x = x"
  by (simp add: s64_def fits64_def)

lemma s64_fits [simp]: "fits64 (s64 x)"
proof -
  have "0 \<le> (x + 2 ^ 63) mod 2 ^ 64 \<and> (x + 2 ^ 63) mod 2 ^ 64 < (2 ^ 64 :: int)"
    by simp
  then show ?thesis by (simp add: s64_def fits64_def)
qed

lemma s64_in_range: "- (2 ^ 63) \<le> x \<Longrightarrow> x < 2 ^ 63 \<Longrightarrow> s64 x = x"
  by (simp add: fits64_def)

definition cdiv :: "int \<Rightarrow> int \<Rightarrow> int" where
  "cdiv a b = sgn a * sgn b * (\<bar>a\<bar> div \<bar>b\<bar>)"

definition cmod :: "int \<Rightarrow> int \<Rightarrow> int" where
  "cmod a b = a - cdiv a b * b"

lemma cdiv_nonneg [simp]: "0 \<le> a \<Longrightarrow> 0 < b \<Longrightarrow> cdiv a b = a div b"
  by (cases "a = 0") (auto simp: cdiv_def)

lemma cmod_nonneg [simp]: "0 \<le> a \<Longrightarrow> 0 < b \<Longrightarrow> cmod a b = a mod b"
  by (simp add: cmod_def minus_div_mult_eq_mod)

section \<open>Characters and C strings\<close>

definition c_int :: "char \<Rightarrow> int" where
  "c_int c = (let n = int (of_char c) in if n < 128 then n else n - 256)"

definition NUL :: char where "NUL = CHR 0x00"

definition cstr_at :: "string \<Rightarrow> nat \<Rightarrow> string" where
  "cstr_at buf k = takeWhile (\<lambda>c. c \<noteq> NUL) (drop k buf)"

definition is_cstr :: "string \<Rightarrow> bool" where
  "is_cstr s \<longleftrightarrow> NUL \<notin> set s"

lemma c_int_range: "- 128 \<le> c_int c \<and> c_int c < 128"
proof -
  define n :: nat where "n = of_char c"
  have "n < 256" unfolding n_def by (rule nat_of_char_less_256)
  then show ?thesis unfolding c_int_def Let_def n_def [symmetric] by simp
qed

lemma c_int_inj: "c_int a = c_int b \<Longrightarrow> a = b"
proof -
  assume eq: "c_int a = c_int b"
  define m n :: nat where "m = of_char a" and "n = of_char b"
  have "m < 256" "n < 256" unfolding m_def n_def by (rule nat_of_char_less_256)+
  moreover have "(let k = int m in if k < 128 then k else k - 256) =
      (let k = int n in if k < 128 then k else k - 256)"
    using eq unfolding c_int_def m_def n_def .
  ultimately have "m = n" by (auto simp: Let_def split: if_splits)
  then show "a = b" unfolding m_def n_def by simp
qed

definition digit_char :: "nat \<Rightarrow> char" where
  "digit_char d = char_of (48 + d)"

definition is_digit :: "char \<Rightarrow> bool" where
  "is_digit c \<longleftrightarrow> 48 \<le> c_int c \<and> c_int c \<le> 57"

lemma c_int_digit_char [simp]: "d < 10 \<Longrightarrow> c_int (digit_char d) = 48 + int d"
  by (simp add: c_int_def digit_char_def Let_def)

lemma digit_char_0: "digit_char 0 = CHR ''0''"
  by code_simp

lemma is_digit_digit_char [simp]: "d < 10 \<Longrightarrow> is_digit (digit_char d)"
  by (simp add: is_digit_def)

lemma c_int_dot [simp]: "c_int (CHR ''.'') = 46"
  by (simp add: c_int_def)

lemma c_int_NUL [simp]: "c_int NUL = 0"
  by (simp add: c_int_def NUL_def)

lemma digit_not_dot: "is_digit c \<Longrightarrow> c \<noteq> CHR ''.''"
  by (auto simp: is_digit_def)

section \<open>sprintf and strtol\<close>

fun show_nat :: "nat \<Rightarrow> string" where
  "show_nat n = (if n < 10 then [digit_char n] else show_nat (n div 10) @ [digit_char (n mod 10)])"

declare show_nat.simps [simp del]

definition show_long :: "int \<Rightarrow> string" where
  "show_long x = (if x < 0 then CHR ''-'' # show_nat (nat (- x)) else show_nat (nat x))"

fun read_digits :: "int \<Rightarrow> string \<Rightarrow> int" where
  "read_digits acc [] = acc"
| "read_digits acc (c # cs) =
     (if is_digit c then read_digits (10 * acc + (c_int c - 48)) cs else acc)"

definition clamp64 :: "int \<Rightarrow> int" where
  "clamp64 x = max (- (2 ^ 63)) (min (2 ^ 63 - 1) x)"

text \<open>\<open>strtol(str, NULL, 10)\<close> and \<open>strtoll\<close>: blanks, a sign, digits, saturating at the ends.\<close>

definition strtol10 :: "string \<Rightarrow> int" where
  "strtol10 s =
     (let s1 = dropWhile (\<lambda>c. c_int c = 32 \<or> 9 \<le> c_int c \<and> c_int c \<le> 13) s in
      clamp64 (case s1 of
        [] \<Rightarrow> 0
      | c # cs \<Rightarrow> if c = CHR ''-'' then - read_digits 0 cs
                  else if c = CHR ''+'' then read_digits 0 cs
                  else read_digits 0 (c # cs)))"

lemma show_nat_digits: "c \<in> set (show_nat n) \<Longrightarrow> is_digit c"
proof (induction n rule: show_nat.induct)
  case (1 n)
  show ?case
  proof (cases "n < 10")
    case True
    with "1.prems" show ?thesis by (simp add: show_nat.simps [of n])
  next
    case False
    then have "c \<in> set (show_nat (n div 10)) \<or> c = digit_char (n mod 10)"
      using "1.prems" by (auto simp: show_nat.simps [of n])
    with False "1.IH" show ?thesis by auto
  qed
qed

lemma show_nat_nonempty [simp]: "show_nat n \<noteq> []"
  by (subst show_nat.simps) simp

lemma read_digits_append:
  "\<forall>c \<in> set xs. is_digit c \<Longrightarrow> read_digits a (xs @ ys) = read_digits (read_digits a xs) ys"
  by (induction xs arbitrary: a) auto

lemma read_show_nat [simp]: "read_digits 0 (show_nat n) = int n"
proof (induction n rule: show_nat.induct)
  case (1 n)
  show ?case
  proof (cases "n < 10")
    case True
    then show ?thesis by (simp add: show_nat.simps [of n])
  next
    case False
    have "read_digits 0 (show_nat n)
        = read_digits (read_digits 0 (show_nat (n div 10))) [digit_char (n mod 10)]"
      using False show_nat_digits
      by (simp add: show_nat.simps [of n] read_digits_append)
    also have "\<dots> = 10 * int (n div 10) + int (n mod 10)"
      using False 1 by simp
    also have "\<dots> = int (10 * (n div 10) + n mod 10)"
      by (simp only: of_nat_add of_nat_mult of_nat_numeral)
    also have "\<dots> = int n" by (simp only: mult_div_mod_eq)
    finally show ?thesis .
  qed
qed

lemma length_show_nat: "n < 10 ^ k \<Longrightarrow> 0 < k \<Longrightarrow> length (show_nat n) \<le> k"
proof (induction k arbitrary: n)
  case 0
  then show ?case by simp
next
  case (Suc k)
  show ?case
  proof (cases "n < 10")
    case True
    then show ?thesis by (simp add: show_nat.simps [of n])
  next
    case False
    with Suc.prems have "n div 10 < 10 ^ k" and "0 < k"
      by (auto simp: div_less_iff_less_mult intro: gr0I)
    with Suc.IH have "length (show_nat (n div 10)) \<le> k" by blast
    with False show ?thesis by (simp add: show_nat.simps [of n])
  qed
qed

lemma length_show_nat_ge: "10 ^ k \<le> n \<Longrightarrow> k < length (show_nat n)"
proof (induction k arbitrary: n)
  case 0
  then show ?case by simp
next
  case (Suc k)
  then have "10 ^ k \<le> n div 10" by (simp add: less_eq_div_iff_mult_less_eq mult.commute)
  with Suc.IH have "k < length (show_nat (n div 10))" by blast
  moreover have "\<not> n < 10"
  proof -
    have "(10::nat) * 1 \<le> 10 * 10 ^ k" by simp
    also have "\<dots> \<le> n" using Suc.prems by simp
    finally show ?thesis by simp
  qed
  ultimately show ?case by (simp add: show_nat.simps [of n])
qed

lemma strtol10_show_nat [simp]: "int n < 2 ^ 63 \<Longrightarrow> strtol10 (show_nat n) = int n"
proof -
  assume n: "int n < 2 ^ 63"
  obtain c cs where s: "show_nat n = c # cs" by (cases "show_nat n") auto
  then have d: "is_digit c" by (metis list.set_intros(1) show_nat_digits)
  have m: "c \<noteq> CHR ''-''" "c \<noteq> CHR ''+''" using d by (auto simp: is_digit_def c_int_def)
  have "dropWhile (\<lambda>c. c_int c = 32 \<or> 9 \<le> c_int c \<and> c_int c \<le> 13) (show_nat n) = show_nat n"
    using d by (auto simp: s is_digit_def)
  moreover have "read_digits 0 (c # cs) = int n" using read_show_nat [of n] by (simp only: s)
  ultimately show ?thesis
    using n m by (simp add: strtol10_def clamp64_def s del: read_digits.simps)
qed

section \<open>Lists and options\<close>

text \<open>An array cell read through an option: \<open>None\<close> is a NULL or missing cell.\<close>

definition nth_opt :: "'a list \<Rightarrow> nat \<Rightarrow> 'a option" where
  "nth_opt xs k = (if k < length xs then Some (xs ! k) else None)"

lemma nth_opt_simps [simp]:
  "nth_opt [] k = None"
  "nth_opt (x # xs) 0 = Some x"
  "nth_opt (x # xs) (Suc k) = nth_opt xs k"
  by (auto simp: nth_opt_def)

lemma takeWhile_is_cstr [simp]: "is_cstr s \<Longrightarrow> takeWhile (\<lambda>c. c \<noteq> NUL) (s @ NUL # r) = s"
  by (induction s) (auto simp: is_cstr_def)

lemma cstr_at_simps [simp]:
  "is_cstr s \<Longrightarrow> cstr_at (p @ s @ NUL # r) (length p) = s"
  by (simp add: cstr_at_def)

lemma is_cstr_Cons [simp]: "is_cstr (c # s) \<longleftrightarrow> c \<noteq> NUL \<and> is_cstr s"
  by (auto simp: is_cstr_def)

lemma is_cstr_Nil [simp]: "is_cstr []"
  by (simp add: is_cstr_def)

lemma is_cstr_append [simp]: "is_cstr (s @ t) \<longleftrightarrow> is_cstr s \<and> is_cstr t"
  by (auto simp: is_cstr_def)

end
