(* ===== verification/C_Text.thy ===== *)
theory C_Text
  imports Prelude
begin

text \<open>
  The text routines of the servers (\<open>transServer.c\<close>, \<open>loadBalancer.c\<close>, \<open>Workload.c\<close>):
  prices in cents from and to decimal text, the in-place and copying token splitters, the
  validators of user and stock identifiers, and the hash that picks a user's database.
  The splitters are modelled on the character buffer they cut up: they return the buffer with
  its new NULs and the offsets they store in \<open>out\<close>; the lemmas relate the strings that start
  at these offsets to \<open>split_on\<close>, the plain splitting of a string.
\<close>

section \<open>Prices\<close>

definition price2str :: "int \<Rightarrow> string" where
  "price2str prc =
     (let dollars = cdiv prc 100;
          cents = s64 (prc - dollars * 100)
      in if cents < 10 then show_long dollars @ ''.0'' @ show_long cents
         else show_long dollars @ ''.'' @ show_long cents)"

text \<open>One digit loop of \<open>str2price\<close>, over the characters it scans; \<open>None\<close> is its \<open>return -1\<close>.\<close>

fun price_digits :: "int \<Rightarrow> string \<Rightarrow> int option" where
  "price_digits acc [] = Some acc"
| "price_digits acc (c # cs) =
     (if c_int c < 48 \<or> c_int c > 57 then None
      else price_digits (s64 (10 * acc + c_int c - 48)) cs)"

text \<open>The two loops after the position of the point is known: \<open>dec\<close> is 2 or 3.\<close>

definition price_loops :: "string \<Rightarrow> nat \<Rightarrow> int" where
  "price_loops str dec =
     (let prclen = length str in
      case price_digits 0 (take (prclen - dec) str) of
        None \<Rightarrow> - 1
      | Some dollars \<Rightarrow>
          (case price_digits 0 (drop (prclen - dec + 1) str) of
             None \<Rightarrow> - 1
           | Some cents \<Rightarrow> s64 (dollars * 100 + cents)))"

definition str2price :: "string option \<Rightarrow> int" where
  "str2price s =
     (case s of
        None \<Rightarrow> - 1
      | Some str \<Rightarrow>
          (let prclen = length str in
           if prclen = 3
              \<and> (c_int (str ! 0) > 48 \<or> c_int (str ! 0) < 57)
              \<and> (c_int (str ! 2) > 48 \<or> c_int (str ! 2) < 57)
              \<and> str ! 1 = CHR ''.''
           then s64 ((c_int (str ! 0) - 48) * 100 + (c_int (str ! 2) - 48))
           else if prclen < 4 then - 1
           else if str ! (prclen - 2) = CHR ''.'' then price_loops str 2
           else if str ! (prclen - 3) \<noteq> CHR ''.'' then - 1
           else price_loops str 3))"

text \<open>
  The load balancer's variant measures the price up to the first comma of a quote reply; it
  reads past the end of the reply when there is none (\<open>None\<close>).
\<close>

definition lb_str2price :: "string \<Rightarrow> int option" where
  "lb_str2price str =
     (if CHR '','' \<in> set str
      then Some (str2price (Some (takeWhile (\<lambda>c. c \<noteq> CHR '','') str)))
      else None)"

lemma read_digits_ge: "\<forall>c \<in> set xs. is_digit c \<Longrightarrow> 0 \<le> a \<Longrightarrow> a \<le> read_digits a xs"
proof (induction xs arbitrary: a)
  case (Cons x xs)
  then have "a \<le> 10 * a + (c_int x - 48)" by (auto simp: is_digit_def)
  moreover have "\<dots> \<le> read_digits (10 * a + (c_int x - 48)) xs"
    using Cons.prems by (intro Cons.IH) (auto simp: is_digit_def)
  ultimately show ?case using Cons.prems by auto
qed simp

lemma price_digits_read:
  "\<forall>c \<in> set xs. is_digit c \<Longrightarrow> 0 \<le> a \<Longrightarrow> fits64 (read_digits a xs) \<Longrightarrow>
   price_digits a xs = Some (read_digits a xs) \<and> a \<le> read_digits a xs"
proof (induction xs arbitrary: a)
  case Nil
  then show ?case by simp
next
  case (Cons c cs)
  let ?a = "10 * a + (c_int c - 48)"
  have d: "48 \<le> c_int c" "c_int c \<le> 57" using Cons.prems by (auto simp: is_digit_def)
  have "fits64 (read_digits ?a cs)" using Cons.prems d by (simp add: is_digit_def)
  moreover have "?a \<le> read_digits ?a cs" using read_digits_ge [of cs ?a] d Cons.prems by simp
  ultimately have "fits64 ?a" using d Cons.prems(2) by (auto simp: fits64_def)
  then have "price_digits a (c # cs) = price_digits ?a cs"
    using d by (simp add: algebra_simps)
  moreover have "price_digits ?a cs = Some (read_digits ?a cs) \<and> ?a \<le> read_digits ?a cs"
    using Cons.prems d by (intro Cons.IH) (auto simp: is_digit_def)
  ultimately show ?case using d Cons.prems by (auto simp: is_digit_def)
qed

text \<open>A price with two decimals is read as its digits without the point.\<close>

lemma str2price_decimal:
  assumes "ds \<noteq> []" "\<forall>c \<in> set ds. is_digit c" "is_digit x" "is_digit y" "fits64 (read_digits 0 (ds @ [x, y]))"
  shows "str2price (Some (ds @ CHR ''.'' # [x, y])) = read_digits 0 (ds @ [x, y])"
proof -
  let ?s = "ds @ CHR ''.'' # [x, y]"
  have r: "read_digits 0 (ds @ [x, y]) = read_digits 0 ds * 100 + (10 * (c_int x - 48) + (c_int y - 48))"
    using assms(2-4) by (simp add: read_digits_append)
  have d: "0 \<le> read_digits 0 ds" using read_digits_ge [OF assms(2), of 0] by simp
  have xy: "0 \<le> c_int x - 48" "0 \<le> c_int y - 48" "c_int x - 48 \<le> 9" "c_int y - 48 \<le> 9"
    using assms(3,4) by (simp_all add: is_digit_def)
  have "fits64 (read_digits 0 ds)" using assms(5) d xy unfolding r by (simp add: fits64_def)
  then have l1: "price_digits 0 (take (length ?s - 3) ?s) = Some (read_digits 0 ds)"
    using price_digits_read [OF assms(2)] by simp
  have "fits64 (read_digits 0 [x, y])" using assms(3,4) xy by (simp add: fits64_def)
  then have l2: "price_digits 0 (drop (length ?s - 3 + 1) ?s) = Some (10 * (c_int x - 48) + (c_int y - 48))"
    using price_digits_read [of "[x, y]" 0] assms(3,4) by simp
  have at2: "?s ! (length ?s - 2) \<noteq> CHR ''.''" "?s ! (length ?s - 3) = CHR ''.''"
    using digit_not_dot [OF assms(3)] by (simp_all add: nth_append)
  have len: "length ?s \<noteq> 3" "\<not> length ?s < 4" using assms(1) by (auto simp: Suc_le_eq)
  have "price_loops ?s 3 = read_digits 0 (ds @ [x, y])"
    using l1 l2 s64_id [OF assms(5)] by (simp add: price_loops_def Let_def r)
  with len at2 show ?thesis unfolding str2price_def Let_def option.case by (simp only: if_False simp_thms)
qed

lemma price2str_nonneg:
  assumes "0 \<le> p" "p < 2 ^ 63"
  shows "price2str p = show_nat (nat p div 100) @ CHR ''.'' #
           [digit_char (nat p mod 100 div 10), digit_char (nat p mod 10)]"
proof -
  define n where "n = nat p"
  have p: "p = int n" using assms by (simp add: n_def)
  have dd: "p div 100 = int (n div 100)" by (simp add: p)
  have ds: "show_long (cdiv p 100) = show_nat (n div 100)"
    using assms by (simp add: show_long_def dd)
  have c0: "p - cdiv p 100 * 100 = int (n mod 100)"
    using assms by (simp add: p minus_div_mult_eq_mod zmod_int)
  then have c: "s64 (p - cdiv p 100 * 100) = int (n mod 100)"
    using pos_mod_bound [of 100 "int n"] by (simp add: fits64_def)
  have m10: "n mod 10 = n mod 100 mod 10" by (simp add: mod_mod_cancel)
  show ?thesis
  proof (cases "n mod 100 < 10")
    case True
    then have one: "n mod 100 div 10 = 0" "n mod 10 = n mod 100" using m10 by simp_all
    have "show_nat (n mod 100) = [digit_char (n mod 100)]"
      using True by (simp add: show_nat.simps [of "n mod 100"])
    then have "show_long (int (n mod 100)) = [digit_char (n mod 10)]"
      by (simp add: show_long_def one(2) del: of_nat_mod)
    moreover have "CHR ''0'' = digit_char 0" by (simp only: digit_char_0)
    ultimately show ?thesis
      using True one(1) by (simp add: price2str_def Let_def ds c n_def [symmetric] del: of_nat_mod)
  next
    case False
    define m where "m = n mod 100"
    have m: "10 \<le> m" "m < 100" using False by (simp_all add: m_def)
    then have "show_nat m = [digit_char (m div 10), digit_char (m mod 10)]"
      using show_nat.simps [of m] show_nat.simps [of "m div 10"] by auto
    moreover have "m mod 10 = n mod 10" using m10 by (simp add: m_def)
    moreover have "show_long (int m) = show_nat m" by (simp add: show_long_def)
    ultimately show ?thesis
      using m by (simp add: price2str_def Let_def ds c n_def [symmetric]
          m_def [symmetric] del: of_nat_mod)
  qed
qed

lemma price2str_digits:
  assumes "0 \<le> p"
  shows "read_digits 0 (show_nat (nat p div 100) @ [digit_char (nat p mod 100 div 10), digit_char (nat p mod 10)]) = p"
proof -
  define n where "n = nat p"
  define a b where "a = n mod 100 div 10" and "b = n mod 10"
  have p: "p = int n" using assms by (simp add: n_def)
  have ab: "a < 10" "b < 10" by (auto simp: a_def b_def)
  have "10 * a + b = n mod 100"
    unfolding a_def b_def using mult_div_mod_eq [of 10 "n mod 100"] by (simp add: mod_mod_cancel)
  then have "n = (n div 100) * 100 + (10 * a + b)" using div_mult_mod_eq [of n 100] by linarith
  then have "int n = int ((n div 100) * 100 + (10 * a + b))" by (rule arg_cong)
  then have "read_digits 0 (show_nat (n div 100) @ [digit_char a, digit_char b]) = p"
    using ab show_nat_digits by (simp add: read_digits_append p)
  then show ?thesis by (simp only: a_def b_def n_def)
qed

lemma str2price_price2str:
  assumes "0 \<le> p" "p < 2 ^ 63"
  shows "str2price (Some (price2str p)) = p"
proof -
  have "fits64 p" using assms by (simp add: fits64_def)
  moreover have "is_digit (digit_char (nat p mod 100 div 10))" by (intro is_digit_digit_char) auto
  ultimately show ?thesis using price2str_digits [OF assms(1)]
      str2price_decimal [of "show_nat (nat p div 100)" "digit_char (nat p mod 100 div 10)" "digit_char (nat p mod 10)"]
      show_nat_digits unfolding price2str_nonneg [OF assms] by simp
qed

section \<open>Token splitters\<close>

text \<open>
  The loop shared by \<open>delimSepNoCpy\<close> and \<open>delimSepMaxDelim\<close>: \<open>i\<close> runs to the length measured
  before the loop, a delimiter is overwritten by NUL and the start of the finished token stored.
  \<open>stop\<close> is the token count at which the loop breaks (\<open>maxDelim\<close>; 2 in \<open>Workload.c\<close>).
\<close>

function delim_loop ::
  "char \<Rightarrow> nat option \<Rightarrow> nat \<Rightarrow> nat \<Rightarrow> nat \<Rightarrow> string \<Rightarrow> nat list \<Rightarrow> string \<times> nat list" where
  "delim_loop d stop len i start buf outs =
     (if i < len then
        (if buf ! i = d then
           (if stop = Some (Suc (length outs)) then (buf[i := NUL], outs @ [start, Suc i])
            else delim_loop d stop len (Suc i) (Suc i) (buf[i := NUL]) (outs @ [start]))
         else delim_loop d stop len (Suc i) start buf outs)
      else (buf, outs @ [start]))"
  by pat_completeness auto
termination
  by (relation "measure (\<lambda>(d, stop, len, i, start, buf, outs). len - i)") auto

declare delim_loop.simps [simp del]

text \<open>The argument is the C string in the buffer; NULL and the empty string give no token.\<close>

definition delimSepNoCpy :: "string option \<Rightarrow> char \<Rightarrow> string \<times> nat list" where
  "delimSepNoCpy inp delim =
     (case inp of
        None \<Rightarrow> ([], [])
      | Some s \<Rightarrow> if length s = 0 then (s @ [NUL], [])
                  else delim_loop delim None (length s) 0 0 (s @ [NUL]) [])"

definition delimSepMaxDelim :: "string option \<Rightarrow> char \<Rightarrow> nat \<Rightarrow> string \<times> nat list" where
  "delimSepMaxDelim inp delim maxDelim =
     (case inp of
        None \<Rightarrow> ([], [])
      | Some s \<Rightarrow> if length s = 0 then (s @ [NUL], [])
                  else delim_loop delim (Some maxDelim) (length s) 0 0 (s @ [NUL]) [])"

definition wl_delimSepNoCpy :: "string option \<Rightarrow> char \<Rightarrow> string \<times> nat list" where
  "wl_delimSepNoCpy inp delim =
     (case inp of
        None \<Rightarrow> ([], [])
      | Some s \<Rightarrow> if length s = 0 then (s @ [NUL], [])
                  else delim_loop delim (Some 2) (length s) 0 0 (s @ [NUL]) [])"

text \<open>The strings the stored pointers denote once the loop is over.\<close>

definition tokens :: "string \<times> nat list \<Rightarrow> string list" where
  "tokens r = map (cstr_at (fst r)) (snd r)"

text \<open>The load balancer's copying splitter: each token is copied to a fresh string.\<close>

function copy_loop :: "char \<Rightarrow> string \<Rightarrow> nat \<Rightarrow> nat \<Rightarrow> string list \<Rightarrow> string list" where
  "copy_loop d inp i start outs =
     (if i < length inp then
        (if inp ! i = d
         then copy_loop d inp (Suc i) (Suc i) (outs @ [take (i - start) (drop start inp)])
         else copy_loop d inp (Suc i) start outs)
      else outs @ [take (i - start) (drop start inp)])"
  by pat_completeness auto
termination
  by (relation "measure (\<lambda>(d, inp, i, start, outs). length inp - i)") auto

declare copy_loop.simps [simp del]

definition delimSep :: "string option \<Rightarrow> char \<Rightarrow> string list" where
  "delimSep inp delim =
     (case inp of None \<Rightarrow> [] | Some s \<Rightarrow> if length s = 0 then [] else copy_loop delim s 0 0 [])"

text \<open>The specification: split at every \<open>d\<close>, or at the first \<open>k\<close> of them.\<close>

fun split_on :: "char \<Rightarrow> nat option \<Rightarrow> string \<Rightarrow> string list" where
  "split_on d k [] = [[]]"
| "split_on d k (c # cs) =
     (if c = d then
        (if k = Some 1 then [[], cs] else [] # split_on d (map_option (\<lambda>n. n - 1) k) cs)
      else (case split_on d k cs of [] \<Rightarrow> [[c]] | w # ws \<Rightarrow> (c # w) # ws))"

lemma split_on_nonempty [simp]: "split_on d k s \<noteq> []"
  by (induction d k s rule: split_on.induct) (auto split: list.splits)

lemma split_on_no_delim: "d \<notin> set s \<Longrightarrow> split_on d k s = [s]"
  by (induction s) auto

lemma split_on_Cons_delim:
  "d \<notin> set s \<Longrightarrow> split_on d None (s @ d # r) = s # split_on d None r"
  by (induction s) auto

lemma split_on_first:
  "d \<notin> set s \<Longrightarrow> split_on d (Some 1) (s @ d # r) = [s, r]"
  by (induction s) auto

lemma split_on_second:
  "d \<notin> set s \<Longrightarrow> split_on d (Some 2) (s @ d # r) = s # split_on d (Some 1) r"
  by (induction s) auto

lemma split_on_tokens_clean: "w \<in> set (split_on d None s) \<Longrightarrow> d \<notin> set w"
  by (induction s arbitrary: w) (auto split: list.splits if_splits)

lemma split_on_chars: "w \<in> set (split_on d k s) \<Longrightarrow> set w \<subseteq> set s"
proof (induction d k s arbitrary: w rule: split_on.induct)
  case (2 d k c cs)
  show ?case
  proof (cases "c = d")
    case True
    with 2 show ?thesis by (cases "k = Some 1") fastforce+
  next
    case False
    then obtain v vs where v: "split_on d k cs = v # vs" by (cases "split_on d k cs") auto
    with False 2 have "set u \<subseteq> set cs" if "u \<in> set (v # vs)" for u using that by simp
    with False 2 v show ?thesis by fastforce
  qed
qed simp

lemma length_split_on: "length (split_on d None s) = Suc (count_list s d)"
  by (induction s) (auto split: list.splits)

lemma cstr_at_prefix:
  assumes "k < length p" "p \<noteq> []" "last p = NUL"
  shows "cstr_at (p @ x) k = cstr_at p k"
proof -
  have "drop k p \<noteq> []" using assms by simp
  then have "NUL \<in> set (drop k p)" using assms last_in_set [of "drop k p"] by (simp add: last_drop)
  then have "takeWhile (\<lambda>c. c \<noteq> NUL) (drop k p @ x) = takeWhile (\<lambda>c. c \<noteq> NUL) (drop k p)"
    by (intro takeWhile_append1 [of NUL]) auto
  then show ?thesis using assms by (simp add: cstr_at_def)
qed

lemma delim_loop_tokens:
  assumes "p = [] \<or> last p = NUL" "is_cstr seg" "is_cstr rest" "d \<notin> set seg" "d \<noteq> NUL"
    and "\<forall>k \<in> set outs. k < length p"
    and "\<forall>m. stop = Some m \<longrightarrow> length outs < m"
  shows "tokens (delim_loop d stop (length (p @ seg @ rest)) (length (p @ seg)) (length p)
             (p @ seg @ rest @ [NUL]) outs)
         = map (cstr_at p) outs @
           (case split_on d (map_option (\<lambda>m. m - length outs) stop) rest of
              [] \<Rightarrow> [seg] | w # ws \<Rightarrow> (seg @ w) # ws)"
  using assms
proof (induction rest arbitrary: p seg outs)
  case Nil
  have old: "map (cstr_at (p @ seg @ [NUL])) outs = map (cstr_at p) outs"
    using Nil.prems by (auto intro!: cstr_at_prefix)
  show ?case
    using Nil.prems old by (simp add: delim_loop.simps [of d stop] tokens_def)
next
  case (Cons c rest)
  let ?buf = "p @ seg @ (c # rest) @ [NUL]" and ?i = "length (p @ seg)"
  let ?len = "length (p @ seg @ c # rest)"
  have at: "?buf ! ?i = c" by (simp add: nth_append)
  have step: "tokens (delim_loop d stop ?len ?i (length p) ?buf outs) =
      (if c = d then
         (if stop = Some (Suc (length outs))
          then tokens (?buf[?i := NUL], outs @ [length p, Suc ?i])
          else tokens (delim_loop d stop ?len (Suc ?i) (Suc ?i) (?buf[?i := NUL]) (outs @ [length p])))
       else tokens (delim_loop d stop ?len (Suc ?i) (length p) ?buf outs))"
    using at by (subst delim_loop.simps) simp
  show ?case
  proof (cases "c = d")
    case False
    have "tokens (delim_loop d stop (length (p @ (seg @ [c]) @ rest)) (length (p @ (seg @ [c])))
            (length p) (p @ (seg @ [c]) @ rest @ [NUL]) outs)
        = map (cstr_at p) outs @
          (case split_on d (map_option (\<lambda>m. m - length outs) stop) rest of
             [] \<Rightarrow> [seg @ [c]] | w # ws \<Rightarrow> ((seg @ [c]) @ w) # ws)"
      using Cons.prems False by (intro Cons.IH) auto
    with False step show ?thesis
      by (auto split: list.splits)
  next
    case True
    let ?p = "p @ seg @ [NUL]"
    have upd: "?buf[?i := NUL] = ?p @ rest @ [NUL]"
      by (simp add: list_update_append)
    have old: "map (cstr_at (?p @ x)) outs = map (cstr_at p) outs" for x
      using Cons.prems by (auto intro!: cstr_at_prefix)
    have seg: "cstr_at (?p @ x) (length p) = seg" for x
      using Cons.prems by simp
    show ?thesis
    proof (cases "stop = Some (Suc (length outs))")
      case stop: True
      have "tokens (?buf[?i := NUL], outs @ [length p, Suc ?i])
          = map (cstr_at p) outs @ [seg, rest]"
        using Cons.prems old [of "rest @ [NUL]"] seg [of "rest @ [NUL]"]
          cstr_at_simps [of rest ?p "[]"]
        unfolding upd tokens_def by simp
      with True stop step show ?thesis by simp
    next
      case go: False
      have "tokens (delim_loop d stop (length (?p @ [] @ rest)) (length (?p @ [])) (length ?p)
              (?p @ [] @ rest @ [NUL]) (outs @ [length p]))
          = map (cstr_at ?p) (outs @ [length p]) @
            (case split_on d (map_option (\<lambda>m. m - length (outs @ [length p])) stop) rest of
               [] \<Rightarrow> [[]] | w # ws \<Rightarrow> ([] @ w) # ws)"
        using Cons.prems go
        by (intro Cons.IH) (auto simp: less_Suc_eq dest: less_imp_Suc_add)
      moreover have "split_on d (map_option (\<lambda>m. m - length outs) stop) (c # rest) =
          [] # split_on d (map_option (\<lambda>m. m - length (outs @ [length p])) stop) rest"
        using True go Cons.prems by (cases stop) auto
      moreover have "map (cstr_at ?p) (outs @ [length p]) = map (cstr_at p) outs @ [seg]"
        using old [of "[]"] seg [of "[]"] by simp
      moreover have "tokens (delim_loop d stop ?len ?i (length p) ?buf outs) =
          tokens (delim_loop d stop ?len (Suc ?i) (Suc ?i) (?p @ rest @ [NUL]) (outs @ [length p]))"
        using step unfolding upd by (simp only: True go if_True if_False simp_thms)
      ultimately show ?thesis
        by (auto split: list.splits)
    qed
  qed
qed

lemma delimSepNoCpy_tokens:
  "is_cstr s \<Longrightarrow> s \<noteq> [] \<Longrightarrow> d \<noteq> NUL \<Longrightarrow> tokens (delimSepNoCpy (Some s) d) = split_on d None s"
  using delim_loop_tokens [of "[]" "[]" s d "[]" None]
  by (simp add: delimSepNoCpy_def split: list.splits)

lemma delimSepMaxDelim_tokens:
  "is_cstr s \<Longrightarrow> s \<noteq> [] \<Longrightarrow> d \<noteq> NUL \<Longrightarrow> 0 < m \<Longrightarrow>
   tokens (delimSepMaxDelim (Some s) d m) = split_on d (Some m) s"
  using delim_loop_tokens [of "[]" "[]" s d "[]" "Some m"]
  by (simp add: delimSepMaxDelim_def split: list.splits)

lemma wl_delimSepNoCpy_tokens:
  "is_cstr s \<Longrightarrow> s \<noteq> [] \<Longrightarrow> d \<noteq> NUL \<Longrightarrow> tokens (wl_delimSepNoCpy (Some s) d) = split_on d (Some 2) s"
  using delim_loop_tokens [of "[]" "[]" s d "[]" "Some 2"]
  by (simp add: wl_delimSepNoCpy_def split: list.splits)

lemma delimSep_none [simp]:
  "tokens (delimSepNoCpy None d) = []" "tokens (delimSepNoCpy (Some []) d) = []"
  "tokens (delimSepMaxDelim None d m) = []" "tokens (delimSepMaxDelim (Some []) d m) = []"
  by (simp_all add: delimSepNoCpy_def delimSepMaxDelim_def tokens_def)

lemma copy_loop_split:
  "d \<notin> set seg \<Longrightarrow>
   copy_loop d (p @ seg @ rest) (length (p @ seg)) (length p) outs =
     outs @ (case split_on d None rest of [] \<Rightarrow> [seg] | w # ws \<Rightarrow> (seg @ w) # ws)"
proof (induction rest arbitrary: p seg outs)
  case Nil
  then show ?case by (simp add: copy_loop.simps)
next
  case (Cons c rest)
  have at: "(p @ seg @ c # rest) ! length (p @ seg) = c" by (simp add: nth_append)
  show ?case
  proof (cases "c = d")
    case True
    then show ?thesis
      using at Cons.IH [of "[]" "p @ seg @ [c]" "outs @ [seg]"]
      by (subst copy_loop.simps) (auto split: list.splits)
  next
    case False
    then show ?thesis
      using at Cons.prems Cons.IH [of "seg @ [c]" p outs]
      by (subst copy_loop.simps) (auto split: list.splits)
  qed
qed

lemma delimSep_split: "s \<noteq> [] \<Longrightarrow> delimSep (Some s) d = split_on d None s"
  using copy_loop_split [of d "[]" "[]" s "[]"] by (simp add: delimSep_def split: list.splits)

section \<open>Identifiers\<close>

text \<open>
  The validators return their argument or NULL; the callers only test the pointer, so the model
  is a truth value.
\<close>

definition valid_user_char :: "char \<Rightarrow> bool" where
  "valid_user_char ch =
     (let c = c_int ch in (c > 47 \<and> c < 58) \<or> (c > 96 \<and> c < 123) \<or> (c > 64 \<and> c < 91))"

definition validUserID :: "string option \<Rightarrow> bool" where
  "validUserID userID =
     (case userID of
        None \<Rightarrow> False
      | Some s \<Rightarrow> if length s \<noteq> 10 then False else list_all valid_user_char s)"

definition valid_stock_char :: "char \<Rightarrow> bool" where
  "valid_stock_char ch = (let c = c_int ch in c > 64 \<and> c < 91)"

definition validStockID :: "string option \<Rightarrow> bool" where
  "validStockID stockID =
     (case stockID of
        None \<Rightarrow> False
      | Some s \<Rightarrow> if length s \<noteq> 3 then False else list_all valid_stock_char s)"

text \<open>The summing loop of both \<open>userSort\<close> functions; \<open>None\<close> is the early \<open>return 0\<close>.\<close>

fun user_sum :: "int \<Rightarrow> string \<Rightarrow> int option" where
  "user_sum acc [] = Some acc"
| "user_sum acc (ch # cs) =
     (let c = c_int ch in
      if c > 47 \<and> c < 58 then user_sum (s64 (acc + (c - 48))) cs
      else if c > 96 \<and> c < 123 then user_sum (s64 (acc + (c - 87))) cs
      else if c > 64 \<and> c < 91 then user_sum (s64 (acc + (c - 29))) cs
      else None)"

definition NUM_DB :: int where "NUM_DB = 5"
definition NUM_THREADS :: int where "NUM_THREADS = 50"

definition userSort :: "string option \<Rightarrow> int" where
  "userSort userID =
     (case userID of
        None \<Rightarrow> - 1
      | Some s \<Rightarrow> (case user_sum 0 s of None \<Rightarrow> 0 | Some acc \<Rightarrow> cmod acc NUM_DB))"

definition wl_userSort :: "string option \<Rightarrow> int" where
  "wl_userSort userID =
     (case userID of
        None \<Rightarrow> - 1
      | Some s \<Rightarrow> (case user_sum 0 s of None \<Rightarrow> 0 | Some acc \<Rightarrow> cmod acc NUM_THREADS))"

lemma user_sum_range:
  "user_sum a s = Some r \<Longrightarrow> 0 \<le> a \<Longrightarrow> a + 61 * int (length s) < 2 ^ 63 \<Longrightarrow>
   a \<le> r \<and> r \<le> a + 61 * int (length s)"
proof (induction s arbitrary: a)
  case Nil
  then show ?case by simp
next
  case (Cons ch cs)
  obtain d where d: "0 \<le> d" "d \<le> 61" "user_sum (s64 (a + d)) cs = Some r"
  proof -
    consider "47 < c_int ch" "c_int ch < 58" "user_sum (s64 (a + (c_int ch - 48))) cs = Some r"
      | "96 < c_int ch" "c_int ch < 123" "user_sum (s64 (a + (c_int ch - 87))) cs = Some r"
      | "64 < c_int ch" "c_int ch < 91" "user_sum (s64 (a + (c_int ch - 29))) cs = Some r"
      using Cons.prems(1) by (auto simp: Let_def split: if_splits)
    then show thesis
      by cases (use that [of "c_int ch - 48"] that [of "c_int ch - 87"] that [of "c_int ch - 29"] in auto)
  qed
  have "s64 (a + d) = a + d" using d Cons.prems by (simp add: fits64_def)
  with d Cons.prems Cons.IH [of "a + d"] show ?case by simp
qed

lemma userSort_range:
  "length s < 2 ^ 50 \<Longrightarrow> 0 \<le> userSort (Some s) \<and> userSort (Some s) < NUM_DB"
  using user_sum_range [of 0 s]
  by (auto simp: userSort_def NUM_DB_def split: option.splits)

lemma wl_userSort_range:
  "length s < 2 ^ 50 \<Longrightarrow> 0 \<le> wl_userSort (Some s) \<and> wl_userSort (Some s) < NUM_THREADS"
  using user_sum_range [of 0 s]
  by (auto simp: wl_userSort_def NUM_THREADS_def split: option.splits)

lemma wl_userSort_mod:
  "length s < 2 ^ 50 \<Longrightarrow> wl_userSort (Some s) mod NUM_DB = userSort (Some s)"
  using user_sum_range [of 0 s]
  by (auto simp: wl_userSort_def userSort_def NUM_THREADS_def NUM_DB_def mod_mod_cancel
      split: option.splits)

lemma valid_user_char_cases:
  "valid_user_char c \<Longrightarrow> c \<noteq> CHR ''|'' \<and> c \<noteq> CHR '','' \<and> c \<noteq> NUL \<and> c \<noteq> CHR '' '' \<and> c \<noteq> CHR ''.'' \<and> c \<noteq> CHR ''/''"
  by (auto simp: valid_user_char_def c_int_def NUL_def)

lemma valid_stock_char_user: "valid_stock_char c \<Longrightarrow> valid_user_char c"
  by (auto simp: valid_stock_char_def valid_user_char_def Let_def)

lemma validUserID_iff:
  "validUserID (Some s) \<longleftrightarrow> length s = 10 \<and> (\<forall>c \<in> set s. valid_user_char c)"
  by (auto simp: validUserID_def list_all_iff)

lemma validStockID_iff:
  "validStockID (Some s) \<longleftrightarrow> length s = 3 \<and> (\<forall>c \<in> set s. valid_stock_char c)"
  by (auto simp: validStockID_def list_all_iff)

lemma validStockID_obtain:
  assumes "validStockID sid"
  obtains a b c where "sid = Some [a, b, c]" "valid_stock_char a" "valid_stock_char b" "valid_stock_char c"
proof -
  obtain s where s: "sid = Some s" using assms by (cases sid) (auto simp: validStockID_def)
  with assms have "length s = 3" "\<forall>c \<in> set s. valid_stock_char c" by (simp_all add: validStockID_iff)
  then obtain a b c where "s = [a, b, c]"
    by (auto simp: length_Suc_conv numeral_3_eq_3)
  with s that show ?thesis using \<open>\<forall>c \<in> set s. valid_stock_char c\<close> by simp
qed

end
