(* ===== verification/C_Queue.thy ===== *)
theory C_Queue
  imports C_Text
begin

text \<open>
  The linked FIFO queues the threads of every server exchange work through. All of them have
  one shape: \<open>start\<close> and \<open>end\<close> pointers into a chain of heap cells; \<open>end\<close> points to an empty
  cell (its payload pointer still NULL) that the next enqueue fills, after which it allocates a
  new empty cell. Dequeuing waits on a counting semaphore, tests the payload of \<open>start\<close> for
  NULL, and unlinks the cell. Each operation runs under the queue's mutex, so it is one step.

  A cell is a record in a partial heap, so that a freed or never allocated cell is absent.
  \<open>queue_inv\<close> is the shape of the chain, \<open>contents\<close> its abstraction to a list.
\<close>

section \<open>Cells and queues\<close>

record 'v cell =
  payload :: "'v option"
  nxt :: "addr option"

record 'v queue =
  cells :: "addr \<rightharpoonup> 'v cell"
  q_start :: addr
  q_end :: addr
  q_length :: nat
  q_fresh :: addr

datatype 'v deq = Blocked | Null | Got addr 'v

definition empty_cell :: "'v cell" where
  "empty_cell = \<lparr>payload = None, nxt = None\<rparr>"

text \<open>\<open>calloc\<close> of the queue and its first cell in \<open>main\<close>; the semaphore starts at 0.\<close>

definition queue_init :: "'v queue" where
  "queue_init = \<lparr>cells = [0 \<mapsto> empty_cell], q_start = 0, q_end = 0, q_length = 0, q_fresh = 1\<rparr>"

text \<open>Fill \<open>end\<close>, allocate its successor, advance \<open>end\<close>, post the semaphore.\<close>

definition enq :: "'v queue \<Rightarrow> 'v \<Rightarrow> addr \<times> 'v queue" where
  "enq q v =
     (let element = q_end q;
          new = q_fresh q;
          heap = (cells q)(element \<mapsto> \<lparr>payload = Some v, nxt = Some new\<rparr>, new \<mapsto> empty_cell)
      in (element, q\<lparr>cells := heap, q_end := new, q_length := Suc (q_length q), q_fresh := Suc new\<rparr>))"

text \<open>
  Wait for the semaphore (\<open>Blocked\<close> when it is 0), return NULL without unlinking when the payload
  is missing, else unlink \<open>start\<close>. \<open>release\<close> says whether the operation frees the cell itself
  (\<open>ldeq\<close>, \<open>wdeq\<close>) or leaves that to its caller.
\<close>

definition unlink :: "bool \<Rightarrow> 'v queue \<Rightarrow> 'v deq \<times> 'v queue" where
  "unlink release q =
     (case cells q (q_start q) of
        None \<Rightarrow> (Null, q)
      | Some c \<Rightarrow>
          (case (payload c, nxt c) of
             (Some v, Some n) \<Rightarrow>
               (Got (q_start q) v,
                q\<lparr>q_start := n,
                  cells := (if release then (cells q)(q_start q := None) else cells q)\<rparr>)
           | _ \<Rightarrow> (Null, q)))"

definition deq :: "bool \<Rightarrow> 'v queue \<Rightarrow> 'v deq \<times> 'v queue" where
  "deq release q =
     (if q_length q = 0 then (Blocked, q)
      else unlink release (q\<lparr>q_length := q_length q - 1\<rparr>))"

text \<open>The caller's \<open>free(element)\<close> after a dequeue that did not release the cell.\<close>

definition free_cell :: "addr \<Rightarrow> 'v queue \<Rightarrow> 'v queue" where
  "free_cell a q = q\<lparr>cells := (cells q)(a := None)\<rparr>"

section \<open>The shape of a queue and its contents\<close>

fun chain :: "(addr \<rightharpoonup> 'v cell) \<Rightarrow> addr \<Rightarrow> addr list \<Rightarrow> 'v list \<Rightarrow> addr \<Rightarrow> bool" where
  "chain h a [] [] e \<longleftrightarrow> a = e \<and> h e = Some empty_cell"
| "chain h a (b # bs) (v # vs) e \<longleftrightarrow>
     a = b \<and> (\<exists>n. h a = Some \<lparr>payload = Some v, nxt = Some n\<rparr> \<and> chain h n bs vs e)"
| "chain h a _ _ e \<longleftrightarrow> False"

fun walk :: "(addr \<rightharpoonup> 'v cell) \<Rightarrow> addr \<Rightarrow> nat \<Rightarrow> 'v list" where
  "walk h a 0 = []"
| "walk h a (Suc k) =
     (case h a of
        None \<Rightarrow> []
      | Some c \<Rightarrow> (case (payload c, nxt c) of (Some v, Some n) \<Rightarrow> v # walk h n k | _ \<Rightarrow> []))"

definition contents :: "'v queue \<Rightarrow> 'v list" where
  "contents q = walk (cells q) (q_start q) (q_length q)"

definition queue_inv :: "'v queue \<Rightarrow> bool" where
  "queue_inv q \<longleftrightarrow>
     (\<exists>bs vs. chain (cells q) (q_start q) bs vs (q_end q) \<and> length vs = q_length q \<and>
        distinct (bs @ [q_end q])) \<and>
     (\<forall>a. q_fresh q \<le> a \<longrightarrow> cells q a = None)"

lemma chain_lengths: "chain h a bs vs e \<Longrightarrow> length bs = length vs"
  by (induction h a bs vs e rule: chain.induct) auto

lemma chain_walk: "chain h a bs vs e \<Longrightarrow> walk h a (length vs) = vs"
  by (induction h a bs vs e rule: chain.induct) auto

lemma chain_upd_other [simp]:
  "x \<notin> set bs \<Longrightarrow> x \<noteq> e \<Longrightarrow> chain (h(x := c)) a bs vs e \<longleftrightarrow> chain h a bs vs e"
  by (induction h a bs vs e rule: chain.induct) auto

lemma chain_live: "chain h a bs vs e \<Longrightarrow> x \<in> insert e (set bs) \<Longrightarrow> h x \<noteq> None"
  by (induction h a bs vs e rule: chain.induct) auto

lemma chain_snoc:
  "chain h a bs vs e \<Longrightarrow> e \<notin> set bs \<Longrightarrow> n \<notin> set bs \<Longrightarrow> n \<noteq> e \<Longrightarrow>
   chain (h(e \<mapsto> \<lparr>payload = Some v, nxt = Some n\<rparr>, n \<mapsto> empty_cell)) a (bs @ [e]) (vs @ [v]) n"
  by (induction h a bs vs e rule: chain.induct) auto

lemma chain_cong: "chain h a bs vs e \<Longrightarrow> (\<And>x. x \<in> insert e (set bs) \<Longrightarrow> h' x = h x) \<Longrightarrow> chain h' a bs vs e"
  by (induction h a bs vs e rule: chain.induct) auto

lemma queue_inv_contents:
  assumes "queue_inv q"
  obtains bs where "chain (cells q) (q_start q) bs (contents q) (q_end q)"
    and "length (contents q) = q_length q" and "distinct (bs @ [q_end q])"
proof -
  obtain bs vs where bs: "chain (cells q) (q_start q) bs vs (q_end q)" "length vs = q_length q"
    "distinct (bs @ [q_end q])"
    using assms unfolding queue_inv_def by blast
  then have "contents q = vs" using chain_walk [OF bs(1)] by (simp add: contents_def)
  with bs that show thesis by simp
qed

lemma queue_inv_init: "queue_inv queue_init \<and> contents queue_init = []"
proof -
  have "chain (cells queue_init) (q_start queue_init) [] [] (q_end queue_init)"
    by (simp add: queue_init_def)
  then show ?thesis
    by (auto simp: queue_inv_def contents_def queue_init_def intro!: exI [of _ "[]"])
qed

lemma queue_inv_enq:
  assumes "queue_inv q"
  shows "queue_inv (snd (enq q v)) \<and> contents (snd (enq q v)) = contents q @ [v]"
proof -
  obtain bs where c: "chain (cells q) (q_start q) bs (contents q) (q_end q)"
    and len: "length (contents q) = q_length q" and d: "distinct (bs @ [q_end q])"
    using assms by (rule queue_inv_contents)
  have fr: "\<forall>a. q_fresh q \<le> a \<longrightarrow> cells q a = None" using assms by (simp add: queue_inv_def)
  then have "q_fresh q \<notin> insert (q_end q) (set bs)" using chain_live [OF c] by blast
  then have c': "chain (cells (snd (enq q v))) (q_start q) (bs @ [q_end q]) (contents q @ [v]) (q_fresh q)"
    using c d by (simp add: enq_def Let_def chain_snoc)
  have d': "distinct ((bs @ [q_end q]) @ [q_fresh q])"
    using d \<open>q_fresh q \<notin> insert (q_end q) (set bs)\<close> by auto
  have fr': "cells (snd (enq q v)) a = None" if "q_fresh (snd (enq q v)) \<le> a" for a
  proof -
    have "cells q (q_end q) \<noteq> None" using chain_live [OF c] by blast
    then have "q_end q < q_fresh q" using fr by (meson not_less)
    then show ?thesis using that fr by (simp add: enq_def Let_def)
  qed
  have "q_start (snd (enq q v)) = q_start q"
    and "q_length (snd (enq q v)) = length (contents q @ [v])"
    using len by (simp_all add: enq_def Let_def)
  then have "contents (snd (enq q v)) = contents q @ [v]"
    unfolding contents_def [of "snd (enq q v)"] by (simp only: chain_walk [OF c'])
  moreover have "queue_inv (snd (enq q v))"
    unfolding queue_inv_def using c' d' len fr'
    by (intro conjI exI [of _ "bs @ [q_end q]"] exI [of _ "contents q @ [v]"])
       (auto simp: enq_def Let_def)
  ultimately show ?thesis by blast
qed

lemma deq_blocked: "queue_inv q \<Longrightarrow> contents q = [] \<Longrightarrow> deq release q = (Blocked, q)"
  by (erule queue_inv_contents) (auto simp: deq_def)

lemma queue_inv_deq:
  assumes "queue_inv q" "contents q = v # vs"
  shows "fst (deq release q) = Got (q_start q) v \<and> queue_inv (snd (deq release q)) \<and>
         contents (snd (deq release q)) = vs"
proof -
  obtain bs where c: "chain (cells q) (q_start q) bs (contents q) (q_end q)"
    and len: "length (contents q) = q_length q" and d: "distinct (bs @ [q_end q])"
    using assms(1) by (rule queue_inv_contents)
  have fr: "\<forall>a. q_fresh q \<le> a \<longrightarrow> cells q a = None" using assms by (simp add: queue_inv_def)
  obtain n cs where bs: "bs = q_start q # cs"
    and cell: "cells q (q_start q) = Some \<lparr>payload = Some v, nxt = Some n\<rparr>"
    and rest: "chain (cells q) n cs vs (q_end q)"
    using c assms(2) by (cases bs) auto
  have n0: "q_length q = Suc (length vs)" using len assms(2) by simp
  define q' where "q' = snd (deq release q)"
  have q': "q' = q\<lparr>q_length := length vs, q_start := n,
      cells := (if release then (cells q)(q_start q := None) else cells q)\<rparr>"
    using cell n0 by (simp add: q'_def deq_def unlink_def)
  have rest': "chain (cells q') n cs vs (q_end q)"
    using rest d bs by (auto simp: q')
  have "contents q' = vs" using chain_walk [OF rest'] by (simp add: contents_def q')
  moreover have "queue_inv q'"
    unfolding queue_inv_def using rest' d bs fr
    by (intro conjI exI [of _ cs] exI [of _ vs]) (auto simp: q')
  moreover have "fst (deq release q) = Got (q_start q) v"
    using cell n0 by (simp add: deq_def unlink_def)
  ultimately show ?thesis by (simp add: q'_def)
qed

text \<open>A dequeue that leaves the element to its caller, who frees it.\<close>

lemma deq_free:
  assumes "queue_inv q" "contents q = v # vs"
  obtains a q' where "deq False q = (Got a v, q')" "queue_inv (free_cell a q')" "contents (free_cell a q') = vs"
proof -
  note f = queue_inv_deq [OF assms, of False] and t = queue_inv_deq [OF assms, of True]
  have "free_cell (q_start q) (snd (deq False q)) = snd (deq True q)"
    using f by (auto simp: deq_def unlink_def free_cell_def split: option.splits if_splits)
  with f t that [of "q_start q" "snd (deq False q)"] show thesis by (simp add: prod_eq_iff)
qed

section \<open>The interface the threads rely on\<close>

text \<open>
  A client only sees that what is dequeued is what was enqueued, in order, and that a wait on an
  empty queue blocks; in particular no dequeue returns NULL, which every handler dereferences.
\<close>

datatype 'v queue_op = Enqueue 'v | Dequeue

locale fifo =
  fixes enqueue :: "'v \<Rightarrow> 'q \<Rightarrow> 'q"
    and dequeue :: "'q \<Rightarrow> 'v deq \<times> 'q"
    and ok :: "'q \<Rightarrow> bool"
    and list_of :: "'q \<Rightarrow> 'v list"
  assumes enqueue_law: "ok q \<Longrightarrow> ok (enqueue v q) \<and> list_of (enqueue v q) = list_of q @ [v]"
    and dequeue_empty: "ok q \<Longrightarrow> list_of q = [] \<Longrightarrow> \<nexists>a v. fst (dequeue q) = Got a v"
    and dequeue_empty_same: "ok q \<Longrightarrow> list_of q = [] \<Longrightarrow> snd (dequeue q) = q"
    and dequeue_cons: "ok q \<Longrightarrow> list_of q = v # vs \<Longrightarrow>
      (\<exists>a. fst (dequeue q) = Got a v) \<and> ok (snd (dequeue q)) \<and> list_of (snd (dequeue q)) = vs"
begin

fun run_ops :: "'q \<Rightarrow> 'v queue_op list \<Rightarrow> 'v list \<times> 'q" where
  "run_ops q [] = ([], q)"
| "run_ops q (Enqueue v # ops) = run_ops (enqueue v q) ops"
| "run_ops q (Dequeue # ops) =
     (let (r, q') = dequeue q; (out, q'') = run_ops q' ops
      in ((case r of Got a v \<Rightarrow> v # out | _ \<Rightarrow> out), q''))"

fun enqueued :: "'v queue_op list \<Rightarrow> 'v list" where
  "enqueued [] = []"
| "enqueued (Enqueue v # ops) = v # enqueued ops"
| "enqueued (Dequeue # ops) = enqueued ops"

lemma run_ops_fifo:
  "ok q \<Longrightarrow> ok (snd (run_ops q ops)) \<and>
     fst (run_ops q ops) @ list_of (snd (run_ops q ops)) = list_of q @ enqueued ops"
proof (induction q ops rule: run_ops.induct)
  case (1 q)
  then show ?case by simp
next
  case (2 q v ops)
  then show ?case using enqueue_law [of q v] by simp
next
  case (3 q ops)
  obtain r q' where d: "dequeue q = (r, q')" by (cases "dequeue q")
  show ?case
  proof (cases "list_of q")
    case Nil
    with 3 dequeue_empty [of q] dequeue_empty_same [of q] d
    have "q' = q" "\<forall>a v. r \<noteq> Got a v" by auto
    with d Nil 3 show ?thesis by (cases r) (auto split: prod.splits)
  next
    case (Cons v vs)
    with 3 dequeue_cons [of q v vs] d obtain a where "r = Got a v" "ok q'" "list_of q' = vs" by auto
    with d Cons 3 show ?thesis by (auto split: prod.splits)
  qed
qed

end

section \<open>The queues of the servers\<close>

text \<open>
  \<open>lenq\<close> copies the line into a block of \<open>strsize\<close> bytes with \<open>strcpy\<close>; \<open>None\<close> is the overflow
  when the line and its NUL do not fit.
\<close>

definition lenq :: "string queue \<Rightarrow> string \<Rightarrow> nat \<Rightarrow> string queue option" where
  "lenq lq str strsize =
     (if length str + 1 \<le> strsize then Some (snd (enq lq str)) else None)"

definition ldeq :: "string queue \<Rightarrow> string deq \<times> string queue" where
  "ldeq lq = deq True lq"

record db_request =
  request :: string
  db_transID :: string
  db_userCmd :: string
  req_dbID :: int
  destReturned :: nat

definition dbenq :: "db_request queue \<Rightarrow> string \<Rightarrow> string \<Rightarrow> string \<Rightarrow> nat \<Rightarrow> int \<Rightarrow> addr \<times> db_request queue" where
  "dbenq q req tid cmd returned dbID =
     enq q \<lparr>request = req, db_transID = tid, db_userCmd = cmd, req_dbID = dbID, destReturned = returned\<rparr>"

definition dbdeq :: "db_request queue \<Rightarrow> db_request deq \<times> db_request queue" where
  "dbdeq q = deq False q"

record quote_request =
  qr_stock :: addr
  qr_userID :: string
  qr_transID :: string
  qr_userCmd :: string
  qr_returned :: nat

definition qenq :: "quote_request queue \<Rightarrow> addr \<Rightarrow> string \<Rightarrow> string \<Rightarrow> string \<Rightarrow> nat \<Rightarrow> addr \<times> quote_request queue" where
  "qenq q stockObj uid tid cmd returned =
     enq q \<lparr>qr_stock = stockObj, qr_userID = uid, qr_transID = tid, qr_userCmd = cmd, qr_returned = returned\<rparr>"

definition qdeq :: "quote_request queue \<Rightarrow> quote_request deq \<times> quote_request queue" where
  "qdeq q = deq False q"

text \<open>
  A user's command queue has a length counter instead of a semaphore; \<open>cenq\<close> posts the shared
  \<open>avail\<close> semaphore of the user list, \<open>cdeq\<close> never waits.
\<close>

record command =
  comm :: "string option"
  webServerSock :: nat
  transID :: string
  userCmd :: string

definition cenq :: "command queue \<Rightarrow> string \<Rightarrow> string \<Rightarrow> string option \<Rightarrow> nat \<Rightarrow> nat \<Rightarrow> command queue \<times> nat" where
  "cenq cq tid cmd co sock avail =
     (snd (enq cq \<lparr>comm = co, webServerSock = sock, transID = tid, userCmd = cmd\<rparr>), Suc avail)"

definition cdeq :: "command queue \<Rightarrow> command deq \<times> command queue" where
  "cdeq cq =
     (case unlink False cq of
        (Got a c, cq') \<Rightarrow> (Got a c, cq'\<lparr>q_length := q_length cq' - 1\<rparr>)
      | r \<Rightarrow> r)"

text \<open>The socket queue of \<open>transServerWeb.c\<close>.\<close>

definition wenq :: "nat queue \<Rightarrow> nat \<Rightarrow> addr \<times> nat queue" where
  "wenq q webSock = enq q webSock"

definition wdeq :: "nat queue \<Rightarrow> nat deq \<times> nat queue" where
  "wdeq q = deq True q"

lemma cdeq_deq: "queue_inv cq \<Longrightarrow> contents cq \<noteq> [] \<Longrightarrow> cdeq cq = deq False cq"
proof -
  assume inv: "queue_inv cq" and ne: "contents cq \<noteq> []"
  then obtain v vs where vs: "contents cq = v # vs" by (cases "contents cq") auto
  obtain bs where c: "chain (cells cq) (q_start cq) bs (v # vs) (q_end cq)"
    and len: "length (v # vs) = q_length cq"
    using inv by (rule queue_inv_contents) (simp_all add: vs)
  then show ?thesis
    by (cases bs) (auto simp: cdeq_def deq_def unlink_def)
qed

lemma cdeq_empty: "queue_inv cq \<Longrightarrow> contents cq = [] \<Longrightarrow> cdeq cq = (Null, cq)"
proof -
  assume inv: "queue_inv cq" and e: "contents cq = []"
  obtain bs where c: "chain (cells cq) (q_start cq) bs [] (q_end cq)"
    using inv by (rule queue_inv_contents) (simp_all add: e)
  then show ?thesis by (cases bs) (auto simp: cdeq_def unlink_def empty_cell_def)
qed

lemma payload_eta [simp]:
  "\<lparr>request = request d, db_transID = db_transID d, db_userCmd = db_userCmd d,
     req_dbID = req_dbID d, destReturned = destReturned d\<rparr> = d"
  "\<lparr>qr_stock = qr_stock r, qr_userID = qr_userID r, qr_transID = qr_transID r,
     qr_userCmd = qr_userCmd r, qr_returned = qr_returned r\<rparr> = r"
  "\<lparr>comm = comm c, webServerSock = webServerSock c, transID = transID c, userCmd = userCmd c\<rparr> = c"
  by (cases d, simp) (cases r, simp, cases c, simp)

text \<open>Every queue operation of the servers is \<open>enq\<close> and \<open>deq\<close> on its own kind of payload.\<close>

lemma fifoI:
  assumes "\<And>v q. enqueue v q = snd (enq q v)"
    and "\<And>q. queue_inv q \<Longrightarrow> contents q \<noteq> [] \<Longrightarrow> dequeue q = deq r q"
    and "\<And>q. queue_inv q \<Longrightarrow> contents q = [] \<Longrightarrow> dequeue q = (Blocked, q) \<or> dequeue q = (Null, q)"
  shows "fifo enqueue dequeue queue_inv contents"
proof
  show "queue_inv (enqueue v q) \<and> contents (enqueue v q) = contents q @ [v]" if "queue_inv q" for q v
    using queue_inv_enq [OF that, of v] by (simp only: assms(1))
  show "\<nexists>a v. fst (dequeue q) = Got a v" if "queue_inv q" "contents q = []" for q
    using assms(3) [OF that] by auto
  show "snd (dequeue q) = q" if "queue_inv q" "contents q = []" for q
    using assms(3) [OF that] by auto
  show "(\<exists>a. fst (dequeue q) = Got a v) \<and> queue_inv (snd (dequeue q)) \<and> contents (snd (dequeue q)) = vs"
    if "queue_inv q" "contents q = v # vs" for q v vs
    using queue_inv_deq [OF that, of r] assms(2) [OF that(1)] that(2) by auto
qed

interpretation logs: fifo "\<lambda>v q. the (lenq q v (length v + 1))" ldeq queue_inv contents
  by (rule fifoI [of _ _ True]) (simp_all add: lenq_def ldeq_def deq_blocked)

interpretation db: fifo
  "\<lambda>v q. snd (dbenq q (request v) (db_transID v) (db_userCmd v) (destReturned v) (req_dbID v))"
  dbdeq queue_inv contents
  by (rule fifoI [of _ _ False]) (simp_all add: dbenq_def dbdeq_def deq_blocked)

interpretation quotes: fifo
  "\<lambda>v q. snd (qenq q (qr_stock v) (qr_userID v) (qr_transID v) (qr_userCmd v) (qr_returned v))"
  qdeq queue_inv contents
  by (rule fifoI [of _ _ False]) (simp_all add: qenq_def qdeq_def deq_blocked)

interpretation comms: fifo
  "\<lambda>v q. fst (cenq q (transID v) (userCmd v) (comm v) (webServerSock v) 0)"
  cdeq queue_inv contents
  by (rule fifoI [of _ _ False]) (simp_all add: cenq_def cdeq_empty cdeq_deq)

interpretation socks: fifo "\<lambda>v q. snd (wenq q v)" wdeq queue_inv contents
  by (rule fifoI [of _ _ True]) (simp_all add: wenq_def wdeq_def deq_blocked)

end
