(* ===== verification/C_Ring.thy ===== *)
theory C_Ring
  imports Prelude
begin

text \<open>
  The circular doubly linked lists of \<open>transServer.c\<close>: all users, all stocks, and for each stock
  the triggers that watch it. Every object of a list has a \<open>next\<close> and a \<open>prev\<close> field and the
  list a \<open>curr\<close> pointer. The fields are two functions on addresses (the field-as-array view of
  the heap) and \<open>curr\<close> an optional address. The abstraction of a ring is the list of its
  members from \<open>curr\<close> on.
\<close>

record ring =
  r_next :: "addr \<Rightarrow> addr"
  r_prev :: "addr \<Rightarrow> addr"
  r_curr :: "addr option"

section \<open>Operations\<close>

text \<open>The linking code of \<open>addUser\<close>, \<open>addStock\<close> and \<open>addTrigger\<close>, in the order of its stores.\<close>

definition ring_insert :: "addr \<Rightarrow> ring \<Rightarrow> ring" where
  "ring_insert n r =
     (case r_curr r of
        None \<Rightarrow> r\<lparr>r_next := (r_next r)(n := n), r_prev := (r_prev r)(n := n), r_curr := Some n\<rparr>
      | Some c \<Rightarrow>
          (let nx = (r_next r)(n := c);
               pv = (r_prev r)(n := r_prev r c);
               pv = pv(nx n := n);
               nx = nx(pv n := n)
           in r\<lparr>r_next := nx, r_prev := pv\<rparr>))"

text \<open>The unlinking code of \<open>removeTrigger\<close> and \<open>removeUser\<close>.\<close>

definition ring_remove :: "addr \<Rightarrow> ring \<Rightarrow> ring" where
  "ring_remove t r =
     (if r_next r t = t then r\<lparr>r_curr := None\<rparr>
      else (let cu = (if r_curr r = Some t then Some (r_next r t) else r_curr r);
                pv = (r_prev r)(r_next r t := r_prev r t);
                nx = (r_next r)(pv t := r_next r t)
            in r\<lparr>r_next := nx, r_prev := pv, r_curr := cu\<rparr>))"

text \<open>\<open>curr = curr->next\<close>\<close>

definition ring_advance :: "ring \<Rightarrow> ring" where
  "ring_advance r = r\<lparr>r_curr := map_option (r_next r) (r_curr r)\<rparr>"

section \<open>The abstraction\<close>

fun linked :: "(addr \<Rightarrow> addr) \<Rightarrow> (addr \<Rightarrow> addr) \<Rightarrow> addr list \<Rightarrow> bool" where
  "linked nx pv (x # y # zs) \<longleftrightarrow> nx x = y \<and> pv y = x \<and> linked nx pv (y # zs)"
| "linked nx pv _ \<longleftrightarrow> True"

definition ring_list :: "ring \<Rightarrow> addr list \<Rightarrow> bool" where
  "ring_list r xs \<longleftrightarrow> distinct xs \<and>
     (if xs = [] then r_curr r = None
      else r_curr r = Some (hd xs) \<and> linked (r_next r) (r_prev r) (xs @ [hd xs]))"

lemma linked_append:
  "linked nx pv (as @ x # bs) \<longleftrightarrow> linked nx pv (as @ [x]) \<and> linked nx pv (x # bs)"
  by (induction nx pv as rule: linked.induct) (auto simp: neq_Nil_conv elim: linked.elims)

lemma linked_cong:
  "\<forall>x \<in> set (butlast xs). nx' x = nx x \<Longrightarrow> \<forall>x \<in> set (tl xs). pv' x = pv x \<Longrightarrow>
   linked nx' pv' xs \<longleftrightarrow> linked nx pv xs"
proof (induction nx pv xs rule: linked.induct)
  case (1 nx pv x y zs)
  have "linked nx' pv' (y # zs) \<longleftrightarrow> linked nx pv (y # zs)"
    using 1 by (intro "1.IH") (auto split: if_splits)
  with 1 show ?case by auto
qed auto

lemma linked_rotate:
  assumes "as \<noteq> []" "bs \<noteq> []"
  shows "linked nx pv (as @ bs @ [hd as]) \<longleftrightarrow> linked nx pv (bs @ as @ [hd bs])"
proof -
  obtain a as' b bs' where ab: "as = a # as'" "bs = b # bs'" using assms by (auto simp: neq_Nil_conv)
  show ?thesis
    using linked_append [of nx pv "a # as'" b "bs' @ [a]"]
      linked_append [of nx pv "b # bs'" a "as' @ [b]"] by (auto simp: ab)
qed

lemma ring_list_insert:
  assumes r: "ring_list r xs" and n: "n \<notin> set xs"
  shows "ring_list (ring_insert n r) (xs @ [n])"
proof (cases xs rule: rev_cases)
  case Nil
  with r show ?thesis by (simp add: ring_list_def ring_insert_def)
next
  case (snoc us l)
  define c where "c = hd xs"
  have d: "distinct (us @ [l])" and cu: "r_curr r = Some c"
    and lk: "linked (r_next r) (r_prev r) (us @ l # [c])"
    using r snoc by (simp_all add: ring_list_def c_def)
  then have pc: "r_prev r c = l" and lk': "linked (r_next r) (r_prev r) (us @ [l])"
    using linked_append [of _ _ us l "[c]"] by auto
  have cin: "c \<in> set (us @ [l])" using snoc by (cases us) (auto simp: c_def)
  have nc: "n \<noteq> c" "n \<noteq> l" "n \<notin> set us" using n snoc cin by auto
  define nx pv where "nx = (r_next r)(n := c, l := n)" and "pv = (r_prev r)(n := l, c := n)"
  have ins: "ring_insert n r = r\<lparr>r_next := nx, r_prev := pv\<rparr>"
    using nc by (simp add: ring_insert_def cu pc nx_def pv_def Let_def fun_upd_twist)
  have "c \<notin> set (tl (us @ [l]))" using d snoc by (cases us) (auto simp: c_def)
  then have "linked nx pv (us @ [l]) \<longleftrightarrow> linked (r_next r) (r_prev r) (us @ [l])"
  proof (intro linked_cong ballI)
    show "nx x = r_next r x" if "x \<in> set (butlast (us @ [l]))" for x
      using that d nc by (auto simp: nx_def)
    show "pv x = r_prev r x" if "x \<in> set (tl (us @ [l]))" for x
    proof -
      have "x \<in> set (us @ [l])" using that by (cases us) auto
      then show ?thesis using that nc \<open>c \<notin> set (tl (us @ [l]))\<close> by (auto simp: pv_def)
    qed
  qed
  with lk' have "linked nx pv (us @ [l])" by simp
  moreover have "linked nx pv (l # [n, c])" using nc by (simp add: nx_def pv_def)
  ultimately have "linked nx pv (us @ l # [n, c])" using linked_append [of nx pv us l "[n, c]"] by blast
  moreover have "hd (us @ [l, n]) = c" using snoc by (cases us) (auto simp: c_def)
  ultimately show ?thesis
    using d nc cu snoc by (simp add: ring_list_def ins)
qed

lemma ring_remove_head:
  assumes d: "distinct (t # ys)" and ne: "ys \<noteq> []"
    and lk: "linked nx pv (t # ys @ [t])"
  shows "nx t = hd ys \<and> pv t = last ys \<and> nx t \<noteq> t \<and>
         linked (nx(pv t := nx t)) (pv(nx t := pv t)) (ys @ [hd ys])"
proof -
  obtain s zs where ys: "ys = s # zs" using ne by (auto simp: neq_Nil_conv)
  obtain us l where ul: "ys = us @ [l]" using ne by (metis rev_exhaust)
  have s: "nx t = s" and lk1: "linked nx pv (ys @ [t])" using lk by (simp_all add: ys)
  then have p: "pv t = l" and lk2: "linked nx pv ys"
    using linked_append [of nx pv us l "[t]"] by (simp_all add: ul)
  let ?nx = "nx(l := s)" and ?pv = "pv(s := l)"
  have "linked ?nx ?pv ys \<longleftrightarrow> linked nx pv ys"
  proof (intro linked_cong ballI)
    show "?nx x = nx x" if "x \<in> set (butlast ys)" for x using that d by (auto simp: ul)
    show "?pv x = pv x" if "x \<in> set (tl ys)" for x using that d by (auto simp: ys)
  qed
  then have "linked ?nx ?pv (us @ l # [s])"
    using lk2 by (simp only: linked_append [of _ _ us l "[s]"]) (simp add: ul)
  moreover have "t \<noteq> s" using d by (auto simp: ys)
  moreover have "hd ys = s" "last ys = l" by (simp add: ys) (simp add: ul)
  moreover from this have "us @ l # [s] = ys @ [hd ys]" by (simp add: ul)
  ultimately show ?thesis by (simp only: s p) simp
qed

lemma ring_list_remove:
  assumes r: "ring_list r xs" and t: "t \<in> set xs"
  shows "ring_list (ring_remove t r) (remove1 t xs)"
proof -
  from t obtain as bs where xs: "xs = as @ t # bs" by (auto simp: in_set_conv_decomp)
  have d: "distinct (as @ t # bs)" and cu: "r_curr r = Some (hd xs)"
    and lk: "linked (r_next r) (r_prev r) (xs @ [hd xs])"
    using r xs by (auto simp: ring_list_def)
  have rem: "remove1 t xs = as @ bs" using d by (simp add: xs remove1_append)
  show ?thesis
  proof (cases "bs @ as = []")
    case True
    then have "r_next r t = t" using lk by (simp add: xs)
    with True rem show ?thesis by (simp add: ring_list_def ring_remove_def)
  next
    case False
    have lk': "linked (r_next r) (r_prev r) (t # (bs @ as) @ [t])"
      using lk linked_rotate [of as "t # bs" "r_next r" "r_prev r"] by (cases as) (auto simp: xs)
    have "distinct (t # bs @ as)" using d by auto
    from ring_remove_head [OF this False lk']
    have nt: "r_next r t = hd (bs @ as)" "r_next r t \<noteq> t"
      and new: "linked ((r_next r)(r_prev r t := r_next r t)) ((r_prev r)(r_next r t := r_prev r t))
                  ((bs @ as) @ [hd (bs @ as)])"
      by blast+
    let ?nx = "(r_next r)(r_prev r t := r_next r t)" and ?pv = "(r_prev r)(r_next r t := r_prev r t)"
    have res: "ring_remove t r = r\<lparr>r_next := ?nx, r_prev := ?pv,
        r_curr := (if hd xs = t then Some (r_next r t) else Some (hd xs))\<rparr>"
      using nt(2) cu lk' ring_remove_head [OF \<open>distinct (t # bs @ as)\<close> False lk']
      by (auto simp: ring_remove_def Let_def)
    have "linked ?nx ?pv ((as @ bs) @ [hd (as @ bs)])"
      using new linked_rotate [of as bs ?nx ?pv] by (cases "as = [] \<or> bs = []") auto
    moreover have "hd xs = t \<longleftrightarrow> as = []" using d by (cases as) (auto simp: xs)
    ultimately show ?thesis
      using d False nt(1) rem by (cases as) (auto simp: ring_list_def res xs)
  qed
qed

lemma ring_list_advance:
  assumes "ring_list r (x # xs)"
  shows "ring_list (ring_advance r) (xs @ [x])"
proof (cases xs)
  case Nil
  with assms show ?thesis by (simp add: ring_list_def ring_advance_def)
next
  case (Cons y ys)
  with assms show ?thesis
    using linked_rotate [of "[x]" xs "r_next r" "r_prev r"]
    by (auto simp: ring_list_def ring_advance_def)
qed

text \<open>Operations on one ring leave a ring with disjoint members alone.\<close>

lemma ring_insert_frame:
  assumes "ring_list r xs" "x \<notin> insert n (set xs)"
  shows "r_next (ring_insert n r) x = r_next r x \<and> r_prev (ring_insert n r) x = r_prev r x"
proof (cases xs rule: rev_cases)
  case Nil
  with assms show ?thesis by (simp add: ring_list_def ring_insert_def)
next
  case (snoc us l)
  have "linked (r_next r) (r_prev r) (us @ l # [hd xs])" "r_curr r = Some (hd xs)"
    using assms snoc by (simp_all add: ring_list_def)
  then have "r_prev r (hd xs) = l" using linked_append [of _ _ us l "[hd xs]"] by auto
  moreover have "hd xs \<in> set xs" "l \<in> set xs"
    using snoc hd_in_set [of xs] by auto
  ultimately show ?thesis
    using assms \<open>r_curr r = Some (hd xs)\<close> by (auto simp: ring_insert_def Let_def)
qed

lemma linked_next_prev:
  "linked nx pv (as @ t # u # bs) \<Longrightarrow> nx t = u \<and> pv u = t"
  using linked_append [of nx pv as t "u # bs"] by simp

lemma ring_neighbours:
  assumes r: "ring_list r xs" and t: "t \<in> set xs"
  shows "r_next r t \<in> set xs \<and> r_prev r t \<in> set xs"
proof -
  have ne: "xs \<noteq> []" using t by auto
  then have lk: "linked (r_next r) (r_prev r) (xs @ [hd xs])" using r by (simp add: ring_list_def)
  from t obtain as bs where xs: "xs = as @ t # bs" by (auto simp: in_set_conv_decomp)
  have nxt: "r_next r t = hd (bs @ [hd xs])"
    using lk linked_next_prev [of _ _ as t] by (cases bs) (auto simp: xs)
  have prv: "r_prev r t = last ((if as = [] then xs else as))"
  proof (cases as rule: rev_cases)
    case Nil
    obtain us l where ul: "xs = us @ [l]" using ne by (metis rev_exhaust)
    have "linked (r_next r) (r_prev r) (us @ l # hd xs # [])" using lk by (simp add: ul)
    then have "r_prev r (hd xs) = l" by (blast dest: linked_next_prev)
    moreover have "hd xs = t" "last xs = l" by (simp add: xs Nil) (simp add: ul)
    ultimately show ?thesis by (simp add: Nil)
  next
    case (snoc us l)
    have "linked (r_next r) (r_prev r) (us @ l # t # (bs @ [hd xs]))" using lk by (simp add: xs snoc)
    then have "r_prev r t = l" by (blast dest: linked_next_prev)
    with snoc show ?thesis by simp
  qed
  have "hd (bs @ [hd xs]) \<in> set xs" using ne by (cases bs) (simp_all add: xs hd_append)
  moreover have "last (if as = [] then xs else as) \<in> set xs"
    using ne last_in_set [of as] last_in_set [of xs] by (auto simp: xs)
  ultimately show ?thesis by (simp only: nxt prv)
qed

lemma ring_remove_frame:
  assumes "ring_list r xs" "t \<in> set xs" "x \<notin> set xs"
  shows "r_next (ring_remove t r) x = r_next r x \<and> r_prev (ring_remove t r) x = r_prev r x"
proof -
  have nb: "r_next r t \<in> set xs" "r_prev r t \<in> set xs" using ring_neighbours [OF assms(1,2)] by auto
  have "((r_prev r)(r_next r t := r_prev r t)) t \<in> set xs" using nb by simp
  with nb assms(3) show ?thesis by (auto simp: ring_remove_def Let_def simp del: fun_upd_apply) auto
qed

lemma ring_list_cong:
  assumes "ring_list r xs" "r_curr r' = r_curr r"
    "\<And>x. x \<in> set xs \<Longrightarrow> r_next r' x = r_next r x \<and> r_prev r' x = r_prev r x"
  shows "ring_list r' xs"
proof -
  have "linked (r_next r') (r_prev r') (xs @ [hd xs]) \<longleftrightarrow> linked (r_next r) (r_prev r) (xs @ [hd xs])"
    if "xs \<noteq> []"
  proof (rule linked_cong)
    show "\<forall>x \<in> set (butlast (xs @ [hd xs])). r_next r' x = r_next r x" using assms(3) by simp
    show "\<forall>x \<in> set (tl (xs @ [hd xs])). r_prev r' x = r_prev r x"
      using assms(3) that by (cases xs) auto
  qed
  with assms(1,2) show ?thesis by (auto simp: ring_list_def)
qed

section \<open>The interface of a ring\<close>

text \<open>
  What the handlers use: adding and removing members, and walking with \<open>curr = curr->next\<close>. The
  walk of one full turn visits every member once, in order, and comes back to where it started.
\<close>

locale circular =
  fixes ins :: "addr \<Rightarrow> 'r \<Rightarrow> 'r"
    and rem :: "addr \<Rightarrow> 'r \<Rightarrow> 'r"
    and adv :: "'r \<Rightarrow> 'r"
    and cur :: "'r \<Rightarrow> addr option"
    and members :: "'r \<Rightarrow> addr list \<Rightarrow> bool"
  assumes ins_law: "members r xs \<Longrightarrow> n \<notin> set xs \<Longrightarrow> members (ins n r) (xs @ [n])"
    and rem_law: "members r xs \<Longrightarrow> t \<in> set xs \<Longrightarrow> members (rem t r) (remove1 t xs)"
    and adv_law: "members r (x # xs) \<Longrightarrow> members (adv r) (xs @ [x])"
    and cur_law: "members r (x # xs) \<Longrightarrow> cur r = Some x"
    and cur_empty: "members r [] \<Longrightarrow> cur r = None"
begin

fun tour :: "nat \<Rightarrow> 'r \<Rightarrow> addr option list" where
  "tour 0 r = []"
| "tour (Suc k) r = cur r # tour k (adv r)"

fun turn :: "nat \<Rightarrow> 'r \<Rightarrow> 'r" where
  "turn 0 r = r"
| "turn (Suc k) r = turn k (adv r)"

lemma members_turn: "members r (as @ bs) \<Longrightarrow> members (turn (length as) r) (bs @ as)"
proof (induction as arbitrary: r bs)
  case Nil
  then show ?case by simp
next
  case (Cons a as)
  then have "members (adv r) ((as @ bs) @ [a])" by (intro adv_law) simp
  with Cons.IH [of "adv r" "bs @ [a]"] show ?case by simp
qed

lemma tour_prefix: "members r (as @ bs) \<Longrightarrow> tour (length as) r = map Some as"
proof (induction as arbitrary: r bs)
  case Nil
  then show ?case by simp
next
  case (Cons a as)
  then have "members (adv r) ((as @ bs) @ [a])" by (intro adv_law) simp
  with Cons.IH [of "adv r" "bs @ [a]"] Cons.prems show ?case by (simp add: cur_law)
qed

lemma full_turn:
  assumes "members r xs"
  shows "tour (length xs) r = map Some xs \<and> members (turn (length xs) r) xs"
  using tour_prefix [of r xs "[]"] members_turn [of r xs "[]"] assms by simp

end

interpretation rings: circular ring_insert ring_remove ring_advance r_curr ring_list
  by unfold_locales
    (erule ring_list_insert, assumption, erule ring_list_remove, assumption,
     erule ring_list_advance, simp_all add: ring_list_def)

end
