(* ===== verification/C_Trie.thy ===== *)
theory C_Trie
  imports C_Text "HOL-Library.Sublist"
begin

text \<open>
  The four search trees of \<open>transServer.c\<close> (\<open>user_tree\<close>, \<open>stock_tree\<close>, \<open>user_stock_tree\<close>,
  \<open>trigger_tree\<close>): a node has an object pointer and, once it has been needed, an array of child
  pointers indexed by a character of the key. A node is named by its path of array indices from
  the root, so the \<open>parent\<close> pointer of the code is \<open>butlast\<close>. The lookups and insertions walk
  down a key; the removals walk up from a node and free what became empty.
\<close>

datatype 'a trie = Node (obj: "'a option") (kids: "'a trie option list option")

definition empty_trie :: "'a trie" where
  "empty_trie = Node None None"

definition kid :: "'a trie \<Rightarrow> nat \<Rightarrow> 'a trie option" where
  "kid t a = (case kids t of None \<Rightarrow> None | Some ks \<Rightarrow> if a < length ks then ks ! a else None)"

section \<open>Index functions\<close>

definition USER_CHARS :: nat where "USER_CHARS = 62"
definition STOCK_CHARS :: nat where "STOCK_CHARS = 26"

text \<open>The array index of a character of a user identifier, of a stock identifier, and of a stock
  identifier in the tree of a user's triggers, whose arrays hold the buy half before the sell half.\<close>

definition user_addr :: "char \<Rightarrow> nat option" where
  "user_addr ch =
     (let c = c_int ch in
      if c > 47 \<and> c < 58 then Some (nat (c - 48))
      else if c > 96 \<and> c < 123 then Some (nat (c - 87))
      else if c > 64 \<and> c < 91 then Some (nat (c - 29))
      else None)"

definition stock_addr :: "char \<Rightarrow> nat option" where
  "stock_addr ch =
     (let c = c_int ch in if c > 64 \<and> c < 91 then Some (nat (c - 65)) else None)"

definition trigger_addr :: "char \<Rightarrow> char \<Rightarrow> nat option" where
  "trigger_addr type ch =
     (let c = c_int ch in
      if c > 64 \<and> c < 91 then
        (if type = CHR ''b'' then Some (nat (c - 65))
         else if type = CHR ''s'' then Some (STOCK_CHARS + nat (c - 65))
         else None)
      else None)"

section \<open>Lookup and insertion\<close>

text \<open>The loop of the \<open>get\<close> functions, from a node down the rest of the key.\<close>

fun trie_find :: "(char \<Rightarrow> nat option) \<Rightarrow> 'a trie \<Rightarrow> string \<Rightarrow> 'a trie option" where
  "trie_find ix temp [] = Some temp"
| "trie_find ix temp (c # cs) =
     (if kids temp = None then None
      else (case ix c of
              None \<Rightarrow> None
            | Some ad \<Rightarrow> (case kid temp ad of None \<Rightarrow> None | Some next \<Rightarrow> trie_find ix next cs)))"

definition trie_get :: "(char \<Rightarrow> nat option) \<Rightarrow> 'a trie \<Rightarrow> string \<Rightarrow> 'a option" where
  "trie_get ix t key = (case trie_find ix t key of None \<Rightarrow> None | Some temp \<Rightarrow> obj temp)"

text \<open>
  The loop of the \<open>add\<close> functions with arrays of \<open>n\<close> children: it allocates arrays and nodes on
  its way, also when a later character turns out invalid (result \<open>None\<close>). At the end an object
  already there is returned, otherwise \<open>v\<close> is stored.
\<close>

fun trie_put :: "(char \<Rightarrow> nat option) \<Rightarrow> nat \<Rightarrow> 'a trie \<Rightarrow> string \<Rightarrow> 'a \<Rightarrow> 'a trie \<times> 'a option" where
  "trie_put ix n temp [] v =
     (case obj temp of
        Some w \<Rightarrow> (temp, Some w)
      | None \<Rightarrow> (Node (Some v) (kids temp), Some v))"
| "trie_put ix n temp (c # cs) v =
     (let ks = (case kids temp of None \<Rightarrow> replicate n None | Some ks \<Rightarrow> ks) in
      case ix c of
        None \<Rightarrow> (Node (obj temp) (Some ks), None)
      | Some ad \<Rightarrow>
          (let next = (case ks ! ad of None \<Rightarrow> empty_trie | Some s \<Rightarrow> s);
               (next', r) = trie_put ix n next cs v
           in (Node (obj temp) (Some (ks[ad := Some next'])), r)))"

section \<open>Nodes by path\<close>

fun trie_at :: "'a trie \<Rightarrow> nat list \<Rightarrow> 'a trie option" where
  "trie_at t [] = Some t"
| "trie_at t (a # p) = (case kid t a of None \<Rightarrow> None | Some s \<Rightarrow> trie_at s p)"

fun trie_upd :: "'a trie \<Rightarrow> nat list \<Rightarrow> ('a trie \<Rightarrow> 'a trie) \<Rightarrow> 'a trie" where
  "trie_upd t [] f = f t"
| "trie_upd t (a # p) f =
     (case kid t a of
        None \<Rightarrow> t
      | Some s \<Rightarrow> Node (obj t) (map_option (\<lambda>ks. ks[a := Some (trie_upd s p f)]) (kids t)))"

definition clear_obj :: "'a trie \<Rightarrow> 'a trie" where
  "clear_obj nd = Node None (kids nd)"

definition clear_kid :: "nat \<Rightarrow> 'a trie \<Rightarrow> 'a trie" where
  "clear_kid a nd = Node (obj nd) (map_option (\<lambda>ks. ks[a := None]) (kids nd))"

definition drop_kids :: "'a trie \<Rightarrow> 'a trie" where
  "drop_kids nd = Node (obj nd) None"

text \<open>The object at a path.\<close>

definition look :: "'a trie \<Rightarrow> nat list \<Rightarrow> 'a option" where
  "look t p = (case trie_at t p of None \<Rightarrow> None | Some nd \<Rightarrow> obj nd)"

section \<open>Removal\<close>

text \<open>
  The upward loop of \<open>removeTrigger\<close>, \<open>removeUserStock\<close> and \<open>removeUser\<close>: \<open>p\<close> is the path of
  \<open>temp\<close>, the counter \<open>i\<close> the loop variable, and \<open>ad i\<close> the index computed from character \<open>i\<close>
  of the key. A node with an object or children stops the loop; otherwise the child with that
  index is freed in the parent, whose array is freed in turn when no child is left.
\<close>

fun prune :: "(nat \<Rightarrow> nat) \<Rightarrow> 'a trie \<Rightarrow> nat list \<Rightarrow> nat \<Rightarrow> 'a trie" where
  "prune ad t p 0 = t"
| "prune ad t p (Suc i) =
     (case trie_at t p of
        None \<Rightarrow> t
      | Some temp \<Rightarrow>
          if obj temp \<noteq> None \<or> kids temp \<noteq> None then t
          else (let p' = butlast p; t1 = trie_upd t p' (clear_kid (ad i)) in
                case Option.bind (trie_at t1 p') kids of
                  None \<Rightarrow> t1
                | Some ks \<Rightarrow>
                    if \<exists>k \<in> set ks. k \<noteq> None then t1
                    else prune ad (trie_upd t1 p' drop_kids) p' i))"

text \<open>
  Removing the object whose node is at \<open>p\<close>; \<open>None\<close> when that node is no longer there: the code
  then follows the dangling \<open>parent\<close> pointer of the object.
\<close>

definition trie_remove :: "(nat \<Rightarrow> nat) \<Rightarrow> nat \<Rightarrow> 'a trie \<Rightarrow> nat list \<Rightarrow> 'a trie option" where
  "trie_remove ad len t p =
     (case trie_at t p of
        None \<Rightarrow> None
      | Some _ \<Rightarrow> Some (prune ad (trie_upd t p clear_obj) p len))"

section \<open>Well-formed tries\<close>

inductive wf_trie :: "nat \<Rightarrow> 'a trie \<Rightarrow> bool" for n where
  leaf: "wf_trie n (Node ob None)"
| node: "length ks = n \<Longrightarrow> (\<And>t. Some t \<in> set ks \<Longrightarrow> wf_trie n t) \<Longrightarrow> wf_trie n (Node ob (Some ks))"

inductive_simps wf_trie_leaf [simp]: "wf_trie n (Node ob None)"
inductive_simps wf_trie_node: "wf_trie n (Node ob (Some ks))"

fun path_of :: "(char \<Rightarrow> nat option) \<Rightarrow> string \<Rightarrow> nat list option" where
  "path_of ix [] = Some []"
| "path_of ix (c # cs) =
     (case ix c of None \<Rightarrow> None
      | Some a \<Rightarrow> (case path_of ix cs of None \<Rightarrow> None | Some p \<Rightarrow> Some (a # p)))"

lemma kid_Node [simp]:
  "kid (Node ob None) a = None"
  "kid (Node ob (Some ks)) a = (if a < length ks then ks ! a else None)"
  by (simp_all add: kid_def)

lemma look_empty [simp]: "look empty_trie p = None"
  by (cases p) (simp_all add: look_def empty_trie_def)

lemma look_Nil [simp]: "look t [] = obj t"
  by (simp add: look_def)

lemma look_Cons: "look t (a # p) = (case kid t a of None \<Rightarrow> None | Some s \<Rightarrow> look s p)"
  by (simp add: look_def split: option.splits)

lemma wf_empty [simp]: "wf_trie n empty_trie"
  by (simp add: empty_trie_def)

lemma trie_find_at: "trie_find ix t s = (case path_of ix s of None \<Rightarrow> None | Some p \<Rightarrow> trie_at t p)"
  by (induction ix t s rule: trie_find.induct) (auto simp: kid_def split: option.splits)

lemma trie_get_look: "trie_get ix t s = (case path_of ix s of None \<Rightarrow> None | Some p \<Rightarrow> look t p)"
  by (simp add: trie_get_def trie_find_at look_def split: option.splits)

lemma wf_kids: "wf_trie n (Node ob (Some ks)) \<Longrightarrow> a < n \<Longrightarrow> ks ! a = Some s \<Longrightarrow> wf_trie n s"
  by (metis nth_mem wf_trie_node)

lemma trie_put_spec:
  assumes "path_of ix s = Some p" "\<forall>a \<in> set p. a < n" "wf_trie n t"
  shows "wf_trie n (fst (trie_put ix n t s v)) \<and>
         snd (trie_put ix n t s v) = Some (case look t p of None \<Rightarrow> v | Some w \<Rightarrow> w) \<and>
         (\<forall>q. look (fst (trie_put ix n t s v)) q = (if q = p \<and> look t p = None then Some v else look t q))"
  using assms
proof (induction ix n t s v arbitrary: p rule: trie_put.induct)
  case (1 ix n temp v)
  obtain ob ks where t: "temp = Node ob ks" by (cases temp)
  have "wf_trie n (Node (Some v) ks)"
    using 1(3) t by (cases ks) (auto simp: wf_trie_node)
  moreover have "look (Node (Some v) ks) q = (if q = [] then Some v else look (Node ob ks) q)" for q
    by (cases q) (auto simp: look_Cons kid_def)
  ultimately show ?case using 1 t by (auto split: option.splits)
next
  case (2 ix n temp c cs v)
  obtain a p' where a: "ix c = Some a" "path_of ix cs = Some p'" "p = a # p'"
    using "2.prems"(1) by (auto split: option.splits)
  define ks where "ks = (case kids temp of None \<Rightarrow> replicate n None | Some ks \<Rightarrow> ks)"
  define nx where "nx = (case ks ! a of None \<Rightarrow> empty_trie | Some s \<Rightarrow> s)"
  obtain nx' r where r: "trie_put ix n nx cs v = (nx', r)" by (cases "trie_put ix n nx cs v")
  have res: "trie_put ix n temp (c # cs) v = (Node (obj temp) (Some (ks[a := Some nx'])), r)"
    using a r by (simp add: ks_def nx_def Let_def)
  have an: "a < n" using 2(3) a by simp
  have lk: "length ks = n" using 2(4) by (cases temp) (auto simp: ks_def wf_trie_node split: option.splits)
  have wfk: "Some s \<in> set ks \<Longrightarrow> wf_trie n s" for s
    using 2(4) by (cases temp) (auto simp: ks_def wf_trie_node split: option.splits)
  have kd: "kid temp b = (if b < n then ks ! b else None)" for b
    using lk by (auto simp: kid_def ks_def split: option.splits)
  have "wf_trie n nx"
  proof (cases "ks ! a")
    case (Some s)
    then have "Some s \<in> set ks" using an lk nth_mem [of a ks] by simp
    with Some wfk show ?thesis by (simp add: nx_def)
  qed (simp add: nx_def)
  then have IH: "wf_trie n nx' \<and> r = Some (case look nx p' of None \<Rightarrow> v | Some w \<Rightarrow> w) \<and>
      (\<forall>q. look nx' q = (if q = p' \<and> look nx p' = None then Some v else look nx q))"
    using 2(1) [of ks a nx p'] 2(3) a r by (simp add: ks_def nx_def)
  have lp: "look temp (b # q) = (if b < n then (case ks ! b of None \<Rightarrow> None | Some s \<Rightarrow> look s q) else None)" for b q
    by (simp add: look_Cons kd)
  have "look temp p = look nx p'" using an a by (auto simp: lp nx_def split: option.splits)
  moreover have "wf_trie n (Node (obj temp) (Some (ks[a := Some nx'])))"
    using IH wfk lk by (auto simp: wf_trie_node dest!: set_update_subset_insert [THEN subsetD])
  moreover have "look (Node (obj temp) (Some (ks[a := Some nx']))) q =
      (if q = p \<and> look nx p' = None then Some v else look temp q)" for q
  proof (cases q)
    case Nil
    then show ?thesis using a by simp
  next
    case (Cons b q')
    show ?thesis
    proof (cases "b = a")
      case True
      have "look nx q' = look temp (a # q')" using an by (auto simp: lp nx_def split: option.splits)
      with True Cons IH an lk a show ?thesis by (auto simp: look_Cons)
    next
      case False
      with Cons a lk show ?thesis by (auto simp: look_Cons kd)
    qed
  qed
  ultimately show ?case using IH res by simp
qed

section \<open>Updates and pruning\<close>

lemma kid_clear [simp]:
  "kid (clear_obj nd) b = kid nd b"
  "kid (clear_kid a nd) b = (if b = a then None else kid nd b)"
  "kid (drop_kids nd) b = None"
  "obj (clear_obj nd) = None" "obj (clear_kid a nd) = obj nd" "obj (drop_kids nd) = obj nd"
  by (auto simp: kid_def clear_obj_def clear_kid_def drop_kids_def split: option.splits)

lemma kid_trie_upd:
  "kid (trie_upd t (a # p) f) b =
     (if b = a then map_option (\<lambda>s. trie_upd s p f) (kid t a) else kid t b)"
  by (cases t) (auto simp: kid_def split: option.splits)

lemma obj_trie_upd [simp]: "obj (trie_upd t (a # p) f) = obj t"
  by (auto split: option.splits)

lemma trie_at_upd: "trie_at t p = Some nd \<Longrightarrow> trie_at (trie_upd t p f) p = Some (f nd)"
  by (induction t p arbitrary: nd rule: trie_at.induct)
     (auto simp: kid_trie_upd simp del: trie_upd.simps(2) split: option.splits)

lemma look_append: "look t (p @ q) = (case trie_at t p of None \<Rightarrow> None | Some nd \<Rightarrow> look nd q)"
  by (induction t p rule: trie_at.induct) (auto simp: look_Cons split: option.splits)

lemma look_upd_other: "\<not> prefix p q \<Longrightarrow> look (trie_upd t p f) q = look t q"
proof (induction p arbitrary: t q)
  case Nil
  then show ?case by simp
next
  case (Cons a p)
  show ?case
  proof (cases q)
    case Nil
    then show ?thesis by (simp del: trie_upd.simps(2))
  next
    case (Cons b q')
    with Cons.prems Cons.IH [of q'] show ?thesis
      by (cases "kid t a") (auto simp: look_Cons kid_trie_upd simp del: trie_upd.simps(2))
  qed
qed

lemma look_upd:
  "trie_at t p = Some nd \<Longrightarrow>
   look (trie_upd t p f) q = (if prefix p q then look (f nd) (drop (length p) q) else look t q)"
  by (auto simp: look_upd_other prefix_def look_append trie_at_upd)

lemma look_clear:
  "look (clear_obj nd) q = (if q = [] then None else look nd q)"
  "look (clear_kid a nd) q = (if prefix [a] q then None else look nd q)"
  "look (drop_kids nd) q = (if q = [] then look nd q else None)"
  by (cases q; auto simp: look_Cons)+

lemma look_leaf: "obj nd = None \<Longrightarrow> kids nd = None \<Longrightarrow> look nd q = None"
  by (cases q) (auto simp: look_Cons kid_def)

lemma trie_at_append: "trie_at t (p @ q) = Option.bind (trie_at t p) (\<lambda>nd. trie_at nd q)"
  by (induction t p rule: trie_at.induct) (auto split: option.splits)

lemma trie_at_parent:
  assumes "trie_at t p = Some nd" "p \<noteq> []"
  obtains par where "trie_at t (butlast p) = Some par" "kid par (last p) = Some nd"
proof -
  have "trie_at t (butlast p @ [last p]) = Some nd" using assms by simp
  then show thesis using that by (auto simp: trie_at_append bind_eq_Some_conv split: option.splits)
qed

text \<open>The first round of the loop: what is found at \<open>q\<close> changes only below the freed child.\<close>

lemma look_clear_kid_at:
  assumes "trie_at t p' = Some par"
  shows "look (trie_upd t p' (clear_kid a)) q = (if prefix (p' @ [a]) q then None else look t q)"
  using assms by (auto simp: look_upd look_clear prefix_def look_append)

lemma look_drop_empty_kids:
  assumes "trie_at t p = Some nd" "kids nd = Some ks" "\<forall>k \<in> set ks. k = None"
  shows "look (trie_upd t p drop_kids) q = look t q"
proof -
  have "kid nd b = None" for b using assms(2,3) by (auto simp: kid_def)
  then have "look (drop_kids nd) r = look nd r" for r by (cases r) (auto simp: look_clear look_Cons)
  then show ?thesis using assms(1) by (auto simp: look_upd prefix_def look_append)
qed

lemma prune_look:
  assumes "i \<le> length p"
  shows "look (prune ad t p i) q = look t q \<or>
    look (prune ad t p i) q = None \<and>
      (\<exists>j < i. prefix (take (length p - i + j) p @ [ad j]) q \<and> ad j \<noteq> p ! (length p - i + j))"
  using assms
proof (induction i arbitrary: t p)
  case 0
  then show ?case by simp
next
  case (Suc i)
  let ?lost = "\<lambda>p i. \<exists>j < i. prefix (take (length p - i + j) p @ [ad j]) q \<and> ad j \<noteq> p ! (length p - i + j)"
  have ne: "p \<noteq> []" using Suc.prems by auto
  show ?case
  proof (cases "\<exists>nd. trie_at t p = Some nd \<and> obj nd = None \<and> kids nd = None")
    case False
    then show ?thesis by (auto split: option.splits)
  next
    case True
    then obtain nd where nd: "trie_at t p = Some nd" "obj nd = None" "kids nd = None" by blast
    obtain par where par: "trie_at t (butlast p) = Some par" "kid par (last p) = Some nd"
      using trie_at_parent [OF nd(1) ne] by blast
    define t1 where "t1 = trie_upd t (butlast p) (clear_kid (ad i))"
    have t1: "look t1 q = (if prefix (butlast p @ [ad i]) q then None else look t q)"
      unfolding t1_def using par(1) by (rule look_clear_kid_at)
    have first: "look t1 q = look t q \<or> look t1 q = None \<and> ?lost p (Suc i)"
    proof (cases "ad i = last p")
      case True
      then have "butlast p @ [ad i] = p" using ne by simp
      then have "prefix (butlast p @ [ad i]) q \<Longrightarrow> look t q = None"
        using nd by (auto simp: prefix_def look_append look_leaf)
      with t1 show ?thesis by auto
    next
      case False
      have "take (length p - Suc i + i) p = butlast p" "p ! (length p - Suc i + i) = last p"
        using ne Suc.prems by (simp_all add: butlast_conv_take last_conv_nth)
      with False have "prefix (butlast p @ [ad i]) q \<Longrightarrow> ?lost p (Suc i)"
        by (intro exI [of _ i]) (simp only: simp_thms lessI)
      with t1 show ?thesis by (simp split: if_splits)
    qed
    obtain par1 where par1: "trie_at t1 (butlast p) = Some par1"
      using trie_at_upd [OF par(1)] by (auto simp: t1_def)
    show ?thesis
    proof (cases "\<exists>ks. kids par1 = Some ks \<and> (\<forall>k \<in> set ks. k = None)")
      case False
      then have "prune ad t p (Suc i) = t1"
        using nd par1 by (auto simp: t1_def [symmetric] Let_def split: option.splits)
      with first show ?thesis by simp
    next
      case True
      then obtain ks where ks: "kids par1 = Some ks" "\<forall>k \<in> set ks. k = None" by blast
      define t2 where "t2 = trie_upd t1 (butlast p) drop_kids"
      have go: "prune ad t p (Suc i) = prune ad t2 (butlast p) i"
        using nd par1 ks by (auto simp: t1_def [symmetric] t2_def Let_def)
      have t2: "look t2 q = look t1 q"
        unfolding t2_def using par1 ks by (rule look_drop_empty_kids)
      have IH: "look (prune ad t2 (butlast p) i) q = look t2 q \<or>
          look (prune ad t2 (butlast p) i) q = None \<and> ?lost (butlast p) i"
        using Suc.prems by (intro Suc.IH) simp
      have imp: "?lost (butlast p) i \<Longrightarrow> ?lost p (Suc i)"
      proof (elim exE conjE)
        fix j assume j: "j < i"
          "prefix (take (length (butlast p) - i + j) (butlast p) @ [ad j]) q"
          "ad j \<noteq> butlast p ! (length (butlast p) - i + j)"
        have "length (butlast p) - i + j = length p - Suc i + j" by simp
        moreover have "length p - Suc i + j < length p - 1" using j Suc.prems by simp
        ultimately have "take (length p - Suc i + j) p = take (length (butlast p) - i + j) (butlast p)"
          "p ! (length p - Suc i + j) = butlast p ! (length (butlast p) - i + j)"
          by (simp_all add: take_butlast nth_butlast)
        with j show "?lost p (Suc i)" by (intro exI [of _ j]) simp
      qed
      show ?thesis
        unfolding go using IH
      proof
        assume "look (prune ad t2 (butlast p) i) q = look t2 q"
        with first t2 show "look (prune ad t2 (butlast p) i) q = look t q \<or>
          look (prune ad t2 (butlast p) i) q = None \<and> ?lost p (Suc i)" by simp
      qed (use imp in blast)
    qed
  qed
qed

lemma wf_trie_upd:
  assumes "wf_trie n t" "trie_at t p = Some nd" "wf_trie n (f nd)"
  shows "wf_trie n (trie_upd t p f)"
  using assms
proof (induction t p arbitrary: nd rule: trie_at.induct)
  case (2 t a p)
  then obtain s where s: "kid t a = Some s" "trie_at s p = Some nd" by (auto split: option.splits)
  then obtain ob ks where t: "t = Node ob (Some ks)" "a < length ks" "ks ! a = Some s"
    by (cases t) (auto simp: kid_def split: option.splits if_splits)
  have "wf_trie n s" using 2(2) t wf_kids by (metis wf_trie_node)
  then have "wf_trie n (trie_upd s p f)" using 2(1) [OF s(1)] 2(4) s(2) by blast
  then show ?case
    using 2(2) t by (auto simp: wf_trie_node dest!: set_update_subset_insert [THEN subsetD])
qed simp

lemma wf_trie_at: "wf_trie n t \<Longrightarrow> trie_at t p = Some nd \<Longrightarrow> wf_trie n nd"
proof (induction t p rule: trie_at.induct)
  case (2 t a p)
  then obtain s where s: "kid t a = Some s" "trie_at s p = Some nd" by (auto split: option.splits)
  then have "wf_trie n s"
    using 2(2) by (cases t) (auto simp: kid_def wf_trie_node split: option.splits if_splits dest: nth_mem)
  with 2 s show ?case by blast
qed simp

lemma wf_trie_clear [simp]:
  "wf_trie n nd \<Longrightarrow> wf_trie n (clear_obj nd)"
  "wf_trie n nd \<Longrightarrow> wf_trie n (clear_kid a nd)"
  "wf_trie n (drop_kids nd)"
proof -
  show "wf_trie n nd \<Longrightarrow> wf_trie n (clear_obj nd)"
    by (cases nd; cases "kids nd") (auto simp: clear_obj_def wf_trie_node)
  show "wf_trie n nd \<Longrightarrow> wf_trie n (clear_kid a nd)"
    by (cases nd; cases "kids nd")
       (auto simp: clear_kid_def wf_trie_node dest!: set_update_subset_insert [THEN subsetD])
qed (simp add: drop_kids_def)

lemma wf_prune: "wf_trie n t \<Longrightarrow> i \<le> length p \<Longrightarrow> wf_trie n (prune ad t p i)"
proof (induction i arbitrary: t p)
  case 0
  then show ?case by simp
next
  case (Suc i)
  show ?case
  proof (cases "trie_at t p")
    case None
    with Suc.prems show ?thesis by simp
  next
    case (Some nd)
    have "p \<noteq> []" using Suc.prems by auto
    then obtain par where par: "trie_at t (butlast p) = Some par" using trie_at_parent [OF Some] by blast
    define t1 where "t1 = trie_upd t (butlast p) (clear_kid (ad i))"
    have w1: "wf_trie n t1"
      unfolding t1_def using Suc.prems par by (blast intro: wf_trie_upd wf_trie_at wf_trie_clear)
    have at1: "trie_at t1 (butlast p) = Some (clear_kid (ad i) par)"
      unfolding t1_def by (rule trie_at_upd [OF par])
    have "wf_trie n (trie_upd t1 (butlast p) drop_kids)"
      using w1 at1 by (blast intro: wf_trie_upd wf_trie_clear)
    then have "wf_trie n (prune ad (trie_upd t1 (butlast p) drop_kids) (butlast p) i)"
      using Suc.prems by (intro Suc.IH) simp_all
    with w1 Suc.prems Some show ?thesis
      by (auto simp: t1_def [symmetric] Let_def split: option.splits)
  qed
qed

lemma trie_remove_look:
  assumes "trie_remove ad len t p = Some t'" "len \<le> length p"
  shows "look t' p = None \<and>
    (\<forall>q. q \<noteq> p \<longrightarrow> look t' q = look t q \<or> look t' q = None \<and>
      (\<exists>j < len. prefix (take (length p - len + j) p @ [ad j]) q \<and> ad j \<noteq> p ! (length p - len + j)))"
proof -
  obtain nd where nd: "trie_at t p = Some nd" and t': "t' = prune ad (trie_upd t p clear_obj) p len"
    using assms(1) by (auto simp: trie_remove_def split: option.splits)
  have cl: "look (trie_upd t p clear_obj) q = (if q = p then None else look t q)" for q
    using nd by (auto simp: look_upd look_clear prefix_def look_append)
  show ?thesis
    using prune_look [OF assms(2), of ad "trie_upd t p clear_obj"] cl unfolding t' by metis
qed

text \<open>With the right indices nothing but the removed object is lost.\<close>

lemma trie_remove_exact:
  assumes "trie_remove ad len t p = Some t'" "len = length p" "\<forall>j < len. ad j = p ! j"
  shows "look t' q = (if q = p then None else look t q)"
proof -
  have "\<not> (\<exists>j < len. prefix (take (length p - len + j) p @ [ad j]) q \<and> ad j \<noteq> p ! (length p - len + j))"
    using assms(2,3) by simp
  then show ?thesis using trie_remove_look [OF assms(1)] assms(2) by auto
qed

lemma trie_remove_some: "look t p = Some v \<Longrightarrow> \<exists>t'. trie_remove ad len t p = Some t'"
  by (auto simp: trie_remove_def look_def split: option.splits)

lemma wf_trie_remove: "trie_remove ad len t p = Some t' \<Longrightarrow> len \<le> length p \<Longrightarrow> wf_trie n t \<Longrightarrow> wf_trie n t'"
proof -
  assume r: "trie_remove ad len t p = Some t'" "len \<le> length p" "wf_trie n t"
  then obtain nd where nd: "trie_at t p = Some nd" and t': "t' = prune ad (trie_upd t p clear_obj) p len"
    by (auto simp: trie_remove_def split: option.splits)
  have "wf_trie n (clear_obj nd)" using wf_trie_at [OF r(3) nd] by simp
  then have "wf_trie n (trie_upd t p clear_obj)" by (rule wf_trie_upd [OF r(3) nd])
  then show "wf_trie n t'" unfolding t' using r(2) by (rule wf_prune)
qed

section \<open>Traversal\<close>

text \<open>
  \<open>getAllTriggers\<close> and \<open>getAllUserStocks\<close>: called once with a NULL array to count, then with an
  array of that size to fill. A store past the end of the array is \<open>None\<close>.
\<close>

fun collect :: "'a trie \<Rightarrow> 'a option list option \<Rightarrow> nat \<Rightarrow> ('a option list option \<times> nat) option"
  and collect_kids :: "'a trie option list \<Rightarrow> 'a option list option \<Rightarrow> nat \<Rightarrow> ('a option list option \<times> nat) option"
where
  "collect (Node ob ks) arr count =
     (let here =
        (case ob of
           None \<Rightarrow> Some (arr, count)
         | Some x \<Rightarrow>
             (case arr of
                None \<Rightarrow> Some (None, Suc count)
              | Some xs \<Rightarrow> if count < length xs then Some (Some (xs[count := Some x]), Suc count) else None))
      in case here of
           None \<Rightarrow> None
         | Some (arr', count') \<Rightarrow>
             (case ks of None \<Rightarrow> Some (arr', count') | Some l \<Rightarrow> collect_kids l arr' count'))"
| "collect_kids [] arr count = Some (arr, count)"
| "collect_kids (k # ks) arr count =
     (case k of
        None \<Rightarrow> collect_kids ks arr count
      | Some t \<Rightarrow>
          (case collect t arr count of
             None \<Rightarrow> None
           | Some (arr', count') \<Rightarrow> collect_kids ks arr' count'))"

text \<open>The objects of a trie in the order of the traversal.\<close>

fun objects :: "'a trie \<Rightarrow> 'a list" and objects_kids :: "'a trie option list \<Rightarrow> 'a list" where
  "objects (Node ob ks) =
     (case ob of None \<Rightarrow> [] | Some x \<Rightarrow> [x]) @ (case ks of None \<Rightarrow> [] | Some l \<Rightarrow> objects_kids l)"
| "objects_kids [] = []"
| "objects_kids (k # ks) = (case k of None \<Rightarrow> [] | Some t \<Rightarrow> objects t) @ objects_kids ks"

lemma collect_count:
  "collect (t :: 'a trie) None c = Some (None, c + length (objects t))"
  "collect_kids (ks :: 'a trie option list) None c = Some (None, c + length (objects_kids ks))"
  by (induction t and ks arbitrary: c and c rule: objects_objects_kids.induct)
     (auto split: option.splits)

lemma collect_fill:
  "length (objects (t :: 'a trie)) \<le> length ys \<Longrightarrow>
     collect t (Some (xs @ ys)) (length xs) =
       Some (Some (xs @ map Some (objects t) @ drop (length (objects t)) ys), length xs + length (objects t))"
  "length (objects_kids (ks :: 'a trie option list)) \<le> length ys \<Longrightarrow>
     collect_kids ks (Some (xs @ ys)) (length xs) =
       Some (Some (xs @ map Some (objects_kids ks) @ drop (length (objects_kids ks)) ys),
             length xs + length (objects_kids ks))"
proof (induction t and ks arbitrary: xs ys and xs ys rule: objects_objects_kids.induct)
  case (1 ob ks)
  show ?case
  proof (cases ob)
    case None
    with 1 show ?thesis by (cases ks) auto
  next
    case (Some x)
    with 1(2) obtain y ys' where ys: "ys = y # ys'" by (cases ys) auto
    show ?thesis
    proof (cases ks)
      case None
      with Some ys show ?thesis by simp
    next
      case (Some l)
      with 1(1) [OF Some, of ys' "xs @ [Some x]"] 1(2) \<open>ob = Some x\<close> ys
      show ?thesis by simp
    qed
  qed
next
  case 2
  then show ?case by simp
next
  case (3 k ks)
  show ?case
  proof (cases k)
    case None
    with 3 show ?thesis by simp
  next
    case (Some t)
    have a: "collect t (Some (xs @ ys)) (length xs) =
        Some (Some (xs @ map Some (objects t) @ drop (length (objects t)) ys), length xs + length (objects t))"
      using 3(1) [OF Some] 3(3) Some by simp
    show ?thesis
      using 3(2) [of "drop (length (objects t)) ys" "xs @ map Some (objects t)"] 3(3) Some a
      by (simp add: add.commute)
  qed
qed

section \<open>Keys\<close>

definition stock_key :: "string \<Rightarrow> bool" where
  "stock_key s \<longleftrightarrow> (\<forall>c \<in> set s. valid_stock_char c)"

definition user_key :: "string \<Rightarrow> bool" where
  "user_key s \<longleftrightarrow> (\<forall>c \<in> set s. valid_user_char c)"

text \<open>The path of a key, as the removals compute it character by character.\<close>

definition stock_path :: "string \<Rightarrow> nat list" where
  "stock_path s = map (\<lambda>c. nat (c_int c - 65)) s"

definition trigger_path :: "char \<Rightarrow> string \<Rightarrow> nat list" where
  "trigger_path type s =
     map (\<lambda>c. nat (c_int c - (if type = CHR ''b'' then 65 else 65 - int STOCK_CHARS))) s"

lemma path_of_map:
  "(\<forall>c \<in> set s. ix c = Some (f c)) \<Longrightarrow> path_of ix s = Some (map f s)"
  by (induction s) auto

lemma valid_stock_char_iff: "valid_stock_char c \<longleftrightarrow> 64 < c_int c \<and> c_int c < 91"
  by (simp add: valid_stock_char_def Let_def)

lemma path_of_stock: "stock_key s \<Longrightarrow> path_of stock_addr s = Some (stock_path s)"
  unfolding stock_path_def
  by (rule path_of_map) (auto simp: stock_key_def valid_stock_char_iff stock_addr_def Let_def)

lemma path_of_trigger:
  assumes "stock_key s" "type = CHR ''b'' \<or> type = CHR ''s''"
  shows "path_of (trigger_addr type) s = Some (trigger_path type s)"
  unfolding trigger_path_def using assms
  by (intro path_of_map) (auto simp: stock_key_def valid_stock_char_iff trigger_addr_def
      STOCK_CHARS_def Let_def nat_diff_distrib nat_add_distrib)

lemma stock_path_less: "stock_key s \<Longrightarrow> \<forall>a \<in> set (stock_path s). a < STOCK_CHARS"
  by (auto simp: stock_path_def stock_key_def valid_stock_char_iff STOCK_CHARS_def)

lemma trigger_path_less: "stock_key s \<Longrightarrow> \<forall>a \<in> set (trigger_path type s). a < 2 * STOCK_CHARS"
  by (auto simp: trigger_path_def stock_key_def valid_stock_char_iff STOCK_CHARS_def)

lemma stock_char_inj:
  "valid_stock_char c \<Longrightarrow> valid_stock_char d \<Longrightarrow> k \<le> 65 \<Longrightarrow>
   nat (c_int c - k) = nat (c_int d - k) \<Longrightarrow> c = d"
  by (rule c_int_inj) (simp add: valid_stock_char_iff eq_nat_nat_iff)

lemma stock_chars_inj_on:
  assumes "stock_key s" "stock_key t" "k \<le> 65"
  shows "inj_on (\<lambda>c. nat (c_int c - k)) (set s \<union> set t)"
proof (rule inj_onI)
  fix c d assume "c \<in> set s \<union> set t" "d \<in> set s \<union> set t" "nat (c_int c - k) = nat (c_int d - k)"
  with assms show "c = d" by (intro stock_char_inj [of c d k]) (auto simp: stock_key_def)
qed

lemma stock_path_inj: "stock_key s \<Longrightarrow> stock_key t \<Longrightarrow> stock_path s = stock_path t \<longleftrightarrow> s = t"
  using stock_chars_inj_on [of s t 65] by (simp add: stock_path_def inj_on_map_eq_map)

lemma trigger_path_eq:
  assumes "stock_key s" "stock_key t" "s \<noteq> []" "ty \<in> {CHR ''b'', CHR ''s''}" "ty' \<in> {CHR ''b'', CHR ''s''}"
  shows "trigger_path ty s = trigger_path ty' t \<longleftrightarrow> ty = ty' \<and> s = t"
proof
  assume eq: "trigger_path ty s = trigger_path ty' t"
  then obtain c cs d ds where st: "s = c # cs" "t = d # ds"
    using assms(3) by (cases s; cases t) (auto simp: trigger_path_def)
  have hd: "nat (c_int c - (if ty = CHR ''b'' then 65 else 65 - int STOCK_CHARS)) =
      nat (c_int d - (if ty' = CHR ''b'' then 65 else 65 - int STOCK_CHARS))"
    using eq by (simp add: st trigger_path_def)
  moreover have "64 < c_int c" "c_int c < 91" "64 < c_int d" "c_int d < 91"
    using assms(1,2) by (auto simp: st stock_key_def valid_stock_char_iff)
  ultimately have ty: "ty = ty'" using assms(4,5) by (auto simp: STOCK_CHARS_def split: if_splits)
  have "inj_on (\<lambda>c. nat (c_int c - (if ty = CHR ''b'' then 65 else 65 - int STOCK_CHARS))) (set s \<union> set t)"
    using assms(1,2) by (intro stock_chars_inj_on) (simp_all add: STOCK_CHARS_def)
  with eq ty have "s = t" by (simp add: trigger_path_def inj_on_map_eq_map)
  with ty show "ty = ty' \<and> s = t" by simp
qed simp

definition user_index :: "char \<Rightarrow> nat" where
  "user_index ch = (case user_addr ch of None \<Rightarrow> 0 | Some a \<Rightarrow> a)"

lemma user_addr_valid: "valid_user_char c \<Longrightarrow> user_addr c = Some (user_index c) \<and> user_index c < USER_CHARS"
  by (auto simp: valid_user_char_def user_addr_def user_index_def USER_CHARS_def Let_def)

lemma user_index_inj: "valid_user_char c \<Longrightarrow> valid_user_char d \<Longrightarrow> user_index c = user_index d \<Longrightarrow> c = d"
proof (rule c_int_inj)
  assume "valid_user_char c" "valid_user_char d" "user_index c = user_index d"
  then show "c_int c = c_int d"
    unfolding valid_user_char_def user_index_def user_addr_def Let_def
    by (elim disjE conjE) simp_all
qed

lemma path_of_user: "user_key s \<Longrightarrow> path_of user_addr s = Some (map user_index s)"
  by (rule path_of_map) (simp add: user_key_def user_addr_valid)

lemma user_path_less: "user_key s \<Longrightarrow> \<forall>a \<in> set (map user_index s). a < USER_CHARS"
  by (auto simp: user_key_def user_addr_valid)

lemma user_path_inj: "user_key s \<Longrightarrow> user_key t \<Longrightarrow> map user_index s = map user_index t \<longleftrightarrow> s = t"
  by (rule inj_on_map_eq_map [THEN iffD1, THEN iffI])
     (auto simp: inj_on_def user_key_def intro!: user_index_inj)

section \<open>The interface of the trees\<close>

text \<open>
  The handlers look an object up and, when it is missing, add it: the first object stored under
  a key stays, a second insertion returns it. A store from which objects can be removed keeps
  every other key.
\<close>

locale keyed_store =
  fixes get :: "'m \<Rightarrow> 'k \<Rightarrow> 'v option"
    and put :: "'m \<Rightarrow> 'k \<Rightarrow> 'v \<Rightarrow> 'm \<times> 'v option"
    and ok :: "'m \<Rightarrow> bool"
    and key :: "'k \<Rightarrow> bool"
  assumes put_ok: "ok m \<Longrightarrow> key k \<Longrightarrow> ok (fst (put m k v))"
    and put_result: "ok m \<Longrightarrow> key k \<Longrightarrow>
      snd (put m k v) = Some (case get m k of None \<Rightarrow> v | Some w \<Rightarrow> w)"
    and get_put: "ok m \<Longrightarrow> key k \<Longrightarrow> key k' \<Longrightarrow>
      get (fst (put m k v)) k' = (if k' = k \<and> get m k = None then Some v else get m k')"
begin

lemma get_after_put: "ok m \<Longrightarrow> key k \<Longrightarrow> get (fst (put m k v)) k = snd (put m k v)"
  by (simp add: get_put put_result split: option.splits)

lemma put_keeps: "ok m \<Longrightarrow> key k \<Longrightarrow> key k' \<Longrightarrow> get m k' = Some w \<Longrightarrow> get (fst (put m k v)) k' = Some w"
  by (auto simp: get_put)

lemma put_again:
  "ok m \<Longrightarrow> key k \<Longrightarrow> snd (put (fst (put m k v)) k w) = snd (put m k v)"
  using put_ok [of m k v] by (simp add: put_result get_put split: option.splits)

end

locale erasable_store = keyed_store +
  fixes del :: "'a \<Rightarrow> 'b \<Rightarrow> 'a option"
  assumes del_some: "ok m \<Longrightarrow> key k \<Longrightarrow> get m k = Some v \<Longrightarrow> \<exists>m'. del m k = Some m'"
    and del_ok: "ok m \<Longrightarrow> key k \<Longrightarrow> del m k = Some m' \<Longrightarrow> ok m'"
    and get_del: "ok m \<Longrightarrow> key k \<Longrightarrow> key k' \<Longrightarrow> del m k = Some m' \<Longrightarrow>
      get m' k' = (if k' = k then None else get m k')"
begin

lemma del_put:
  assumes "ok m" "key k" "key k'" "get m k = None"
  shows "\<exists>m'. del (fst (put m k v)) k = Some m' \<and> get m' k' = get m k'"
proof -
  have ok': "ok (fst (put m k v))" using assms(1,2) by (rule put_ok)
  have "get (fst (put m k v)) k = Some v" using assms by (simp add: get_put)
  then obtain m' where m': "del (fst (put m k v)) k = Some m'"
    using del_some [OF ok' assms(2)] by blast
  then have "get m' k' = get m k'"
    using get_del [OF ok' assms(2,3) m'] assms by (auto simp: get_put)
  with m' show ?thesis by blast
qed

end

interpretation stock_store: keyed_store
  "trie_get stock_addr" "trie_put stock_addr STOCK_CHARS" "wf_trie STOCK_CHARS" stock_key
proof
  fix m :: "'a trie" and k k' :: string and v :: 'a
  assume wf: "wf_trie STOCK_CHARS m" and k: "stock_key k"
  note spec = trie_put_spec [OF path_of_stock [OF k] stock_path_less [OF k] wf, of v]
  show "wf_trie STOCK_CHARS (fst (trie_put stock_addr STOCK_CHARS m k v))"
    using spec by blast
  show "snd (trie_put stock_addr STOCK_CHARS m k v) =
      Some (case trie_get stock_addr m k of None \<Rightarrow> v | Some w \<Rightarrow> w)"
    using spec by (simp add: trie_get_look path_of_stock k)
  assume k': "stock_key k'"
  show "trie_get stock_addr (fst (trie_put stock_addr STOCK_CHARS m k v)) k' =
      (if k' = k \<and> trie_get stock_addr m k = None then Some v else trie_get stock_addr m k')"
    using spec by (simp add: trie_get_look path_of_stock k k' stock_path_inj)
qed

interpretation user_store: keyed_store
  "trie_get user_addr" "trie_put user_addr USER_CHARS" "wf_trie USER_CHARS" user_key
proof
  fix m :: "'a trie" and k k' :: string and v :: 'a
  assume wf: "wf_trie USER_CHARS m" and k: "user_key k"
  note spec = trie_put_spec [OF path_of_user [OF k] user_path_less [OF k] wf, of v]
  show "wf_trie USER_CHARS (fst (trie_put user_addr USER_CHARS m k v))"
    using spec by blast
  show "snd (trie_put user_addr USER_CHARS m k v) =
      Some (case trie_get user_addr m k of None \<Rightarrow> v | Some w \<Rightarrow> w)"
    using spec by (simp add: trie_get_look path_of_user k)
  assume k': "user_key k'"
  show "trie_get user_addr (fst (trie_put user_addr USER_CHARS m k v)) k' =
      (if k' = k \<and> trie_get user_addr m k = None then Some v else trie_get user_addr m k')"
    using spec by (simp add: trie_get_look path_of_user k k' user_path_inj)
qed

text \<open>The holdings: \<open>removeUserStock\<close> prunes with the indices of the whole identifier.\<close>

definition stock_erase :: "'a trie \<Rightarrow> string \<Rightarrow> 'a trie option" where
  "stock_erase t sid = trie_remove (\<lambda>i. nat (c_int (sid ! i) - 65)) (length sid) t (stock_path sid)"

interpretation holdings: erasable_store
  "trie_get stock_addr" "trie_put stock_addr STOCK_CHARS" "wf_trie STOCK_CHARS" stock_key stock_erase
proof
  fix m m' :: "'a trie" and k k' :: string and v :: 'a
  assume wf: "wf_trie STOCK_CHARS m" and k: "stock_key k"
  have len: "length (stock_path k) = length k" by (simp add: stock_path_def)
  have idx: "\<forall>j < length k. nat (c_int (k ! j) - 65) = stock_path k ! j" by (simp add: stock_path_def)
  show "\<exists>m'. stock_erase m k = Some m'" if "trie_get stock_addr m k = Some v"
    using that trie_remove_some [of m "stock_path k" v] by (simp add: stock_erase_def trie_get_look path_of_stock k)
  assume del: "stock_erase m k = Some m'"
  show "wf_trie STOCK_CHARS m'"
    by (rule wf_trie_remove [OF del [unfolded stock_erase_def] _ wf]) (simp add: len)
  assume k': "stock_key k'"
  show "trie_get stock_addr m' k' = (if k' = k then None else trie_get stock_addr m k')"
    using trie_remove_exact [OF del [unfolded stock_erase_def] len [symmetric] idx, of "stock_path k'"]
    by (simp add: trie_get_look path_of_stock k k' stock_path_inj)
qed

end
