(* ===== verification/Server_State.thy ===== *)
theory Server_State
  imports C_Queue C_Ring C_Trie
begin

text \<open>
  The state of a transaction server (\<open>transServer.c\<close>) and the operations on its users, stocks,
  holdings and triggers. Users and stocks are never freed while the server runs, so their heaps
  are total functions on addresses; triggers are freed, so theirs is partial and a dangling
  trigger pointer reads as \<open>None\<close>. The \<open>next\<close>/\<open>prev\<close> fields of the three kinds of objects are
  rings, the four trees are tries. A NULL dereference or use after free sets \<open>fault\<close>.

  What the server gets from outside is an \<open>env\<close>: the clock as read by the successive calls of
  \<open>getmTS\<close>, the price, time and key that the quote thread stored for each successive request,
  and the rows of each successive database query.
\<close>

section \<open>Objects\<close>

record trigger =
  t_type :: char
  trig :: int
  amount :: int
  t_transID :: string
  t_user :: addr
  t_stock :: addr

record stock =
  stockID :: string
  price :: int
  quote_key :: string
  ts :: int

record user_stock =
  num :: int
  us_stock :: addr

record user =
  userID :: string
  balance :: int
  prompt_time :: int
  stockObj :: "addr option"
  reserve :: int
  no :: int
  buysell :: int
  dbID :: int
  commList :: "command queue"
  tTree :: "addr trie"
  usTree :: "user_stock trie"

text \<open>The SQL the server sends, one constructor per format string.\<close>

datatype sql =
    InsertAcct string string
  | UpdateBal string string
  | InsertStk string string int
  | UpdateStk int string string
  | InsertTran string string string string int char
  | InsertTrig string string string char string string
  | UpdateTrig string string string char
  | DeleteTrig string string char
  | SelectUserBal string
  | SelectUserStock string
  | SelectUserTrig string

record server =
  usr :: "addr \<Rightarrow> user"
  u_fresh :: addr
  users :: "addr trie"
  u_ring :: ring
  ul_num :: int
  avail :: nat
  stk :: "addr \<Rightarrow> stock"
  s_fresh :: addr
  stocks :: "addr trie"
  s_ring :: ring
  trg :: "addr \<rightharpoonup> trigger"
  t_fresh :: addr
  t_next :: "addr \<Rightarrow> addr"
  t_prev :: "addr \<Rightarrow> addr"
  t_curr :: "addr \<Rightarrow> addr option"
  logs :: "string queue"
  db_sent :: "(int \<times> sql list) list"
  asked :: "quote_request list"
  replies :: "(nat \<times> string) list"
  wire :: "(nat \<times> string) list"
  ticks :: nat
  fault :: bool

record env =
  clock :: "nat \<Rightarrow> int"
  answers :: "nat \<Rightarrow> int \<times> int \<times> string"
  rows :: "nat \<Rightarrow> string list list option"

definition quoteTo :: int where "quoteTo = 28000"

definition crash :: "server \<Rightarrow> server" where
  "crash st = st\<lparr>fault := True\<rparr>"

definition upd_user :: "addr \<Rightarrow> (user \<Rightarrow> user) \<Rightarrow> server \<Rightarrow> server" where
  "upd_user u f st = st\<lparr>usr := (usr st)(u := f (usr st u))\<rparr>"

definition upd_stock :: "addr \<Rightarrow> (stock \<Rightarrow> stock) \<Rightarrow> server \<Rightarrow> server" where
  "upd_stock s f st = st\<lparr>stk := (stk st)(s := f (stk st s))\<rparr>"

section \<open>Stocks\<close>

definition getStock :: "server \<Rightarrow> string \<Rightarrow> addr option" where
  "getStock st sid = trie_get stock_addr (stocks st) sid"

definition new_stock :: "string \<Rightarrow> stock" where
  "new_stock sid = \<lparr>stockID = sid, price = 0, quote_key = [], ts = 0\<rparr>"

definition addStock :: "server \<Rightarrow> string \<Rightarrow> server \<times> addr option" where
  "addStock st sid =
     (let (tree, r) = trie_put stock_addr STOCK_CHARS (stocks st) sid (s_fresh st)
      in case r of
           None \<Rightarrow> (st\<lparr>stocks := tree\<rparr>, None)
         | Some s \<Rightarrow>
             if getStock st sid \<noteq> None then (st\<lparr>stocks := tree\<rparr>, Some s)
             else (st\<lparr>stocks := tree,
                      stk := (stk st)(s := new_stock sid),
                      s_fresh := Suc (s_fresh st),
                      s_ring := ring_insert s (s_ring st)\<rparr>, Some s))"

text \<open>\<open>if(!(cStock = getStock(...))) cStock = addStock(...)\<close>\<close>

definition ensureStock :: "server \<Rightarrow> string \<Rightarrow> server \<times> addr option" where
  "ensureStock st sid =
     (case getStock st sid of Some s \<Rightarrow> (st, Some s) | None \<Rightarrow> addStock st sid)"

section \<open>Holdings\<close>

definition getUserStock :: "server \<Rightarrow> addr \<Rightarrow> addr \<Rightarrow> user_stock option" where
  "getUserStock st u s = trie_get stock_addr (usTree (usr st u)) (stockID (stk st s))"

definition addUserStock :: "server \<Rightarrow> addr \<Rightarrow> addr \<Rightarrow> int \<Rightarrow> server \<times> user_stock option" where
  "addUserStock st u s numStock =
     (let (tree, r) = trie_put stock_addr STOCK_CHARS (usTree (usr st u)) (stockID (stk st s))
                        \<lparr>num = numStock, us_stock = s\<rparr>
      in (upd_user u (\<lambda>x. x\<lparr>usTree := tree\<rparr>) st, r))"

text \<open>\<open>cUserStock->num = n\<close> through the pointer \<open>getUserStock\<close> returned.\<close>

definition set_num :: "int \<Rightarrow> user_stock trie \<Rightarrow> user_stock trie" where
  "set_num n nd = Node (map_option (\<lambda>x. x\<lparr>num := n\<rparr>) (obj nd)) (kids nd)"

definition setUserStock :: "server \<Rightarrow> addr \<Rightarrow> addr \<Rightarrow> int \<Rightarrow> server" where
  "setUserStock st u s n =
     upd_user u (\<lambda>x. x\<lparr>usTree := trie_upd (usTree x) (stock_path (stockID (stk st s))) (set_num n)\<rparr>) st"

definition removeUserStock :: "server \<Rightarrow> addr \<Rightarrow> user_stock \<Rightarrow> server" where
  "removeUserStock st u us =
     (let sid = stockID (stk st (us_stock us)) in
      case trie_remove (\<lambda>i. nat (c_int (sid ! i) - 65)) (length sid) (usTree (usr st u)) (stock_path sid) of
        None \<Rightarrow> crash st
      | Some tree \<Rightarrow> upd_user u (\<lambda>x. x\<lparr>usTree := tree\<rparr>) st)"

definition getAllUserStocks ::
  "user_stock option list option \<Rightarrow> user_stock trie \<Rightarrow> nat \<Rightarrow> (user_stock option list option \<times> nat) option" where
  "getAllUserStocks userStocks usT count = collect usT userStocks count"

section \<open>Triggers\<close>

definition trig_ring :: "server \<Rightarrow> addr \<Rightarrow> ring" where
  "trig_ring st s = \<lparr>r_next = t_next st, r_prev = t_prev st, r_curr = t_curr st s\<rparr>"

definition put_trig_ring :: "addr \<Rightarrow> ring \<Rightarrow> server \<Rightarrow> server" where
  "put_trig_ring s r st =
     st\<lparr>t_next := r_next r, t_prev := r_prev r, t_curr := (t_curr st)(s := r_curr r)\<rparr>"

definition getTrigger :: "server \<Rightarrow> addr \<Rightarrow> addr \<Rightarrow> char \<Rightarrow> addr option" where
  "getTrigger st u s type = trie_get (trigger_addr type) (tTree (usr st u)) (stockID (stk st s))"

definition addTrigger ::
  "server \<Rightarrow> addr \<Rightarrow> string \<Rightarrow> addr \<Rightarrow> char \<Rightarrow> int \<Rightarrow> int \<Rightarrow> server \<times> addr option" where
  "addTrigger st u tid s type amnt trigPrc =
     (let (tree, r) = trie_put (trigger_addr type) (2 * STOCK_CHARS) (tTree (usr st u))
                        (stockID (stk st s)) (t_fresh st);
          st1 = upd_user u (\<lambda>x. x\<lparr>tTree := tree\<rparr>) st
      in case r of
           None \<Rightarrow> (st1, None)
         | Some a \<Rightarrow>
             if getTrigger st u s type \<noteq> None then (st1, Some a)
             else (put_trig_ring s (ring_insert a (trig_ring st1 s))
                     (st1\<lparr>trg := (trg st1)(a \<mapsto> \<lparr>t_type = type, trig = trigPrc, amount = amnt,
                            t_transID = tid, t_user = u, t_stock = s\<rparr>),
                          t_fresh := Suc (t_fresh st)\<rparr>), Some a))"

text \<open>
  \<open>removeTrigger\<close>: the index loop starts at \<open>strlen(stockID) - 1\<close>. The object's \<open>parent\<close> is the
  node that holds it; when that node has been freed the access faults.
\<close>

definition removeTrigger :: "server \<Rightarrow> addr \<Rightarrow> server" where
  "removeTrigger st a =
     (case trg st a of
        None \<Rightarrow> crash st
      | Some tr \<Rightarrow>
          (let sid = stockID (stk st (t_stock tr));
               stockLen = length sid - 1;
               addrType = (if t_type tr = CHR ''b'' then 65 else 65 - int STOCK_CHARS);
               u = t_user tr
           in if t_type tr \<noteq> CHR ''b'' \<and> t_type tr \<noteq> CHR ''s'' then st
              else (let st1 = put_trig_ring (t_stock tr) (ring_remove a (trig_ring st (t_stock tr))) st
                    in if look (tTree (usr st1 u)) (trigger_path (t_type tr) sid) \<noteq> Some a then crash st1
                       else (case trie_remove (\<lambda>i. nat (c_int (sid ! i) - addrType)) stockLen
                                    (tTree (usr st1 u)) (trigger_path (t_type tr) sid) of
                               None \<Rightarrow> crash st1
                             | Some tree \<Rightarrow>
                                 (upd_user u (\<lambda>x. x\<lparr>tTree := tree\<rparr>) st1)\<lparr>trg := (trg st1)(a := None)\<rparr>))))"

definition getAllTriggers ::
  "addr option list option \<Rightarrow> addr trie \<Rightarrow> nat \<Rightarrow> (addr option list option \<times> nat) option" where
  "getAllTriggers triggers tT count = collect tT triggers count"

section \<open>What the server sends: log lines, SQL, responses\<close>

definition getmTS :: "env \<Rightarrow> server \<Rightarrow> int \<times> server" where
  "getmTS e st = (clock e (ticks st), st\<lparr>ticks := Suc (ticks st)\<rparr>)"

definition log_line :: "string \<Rightarrow> server \<Rightarrow> server" where
  "log_line line st =
     (case lenq (logs st) line (length line + 1) of
        None \<Rightarrow> crash st
      | Some q \<Rightarrow> st\<lparr>logs := q\<rparr>)"

definition serverName :: string where "serverName = ''TRAN1''"
definition spc :: string where "spc = '' ''"

definition commas :: "string list \<Rightarrow> string" where
  "commas fs = concat (case fs of [] \<Rightarrow> [] | f # gs \<Rightarrow> f # map (\<lambda>g. CHR '','' # g) gs)"

definition userCmdLog :: "int \<Rightarrow> string \<Rightarrow> string \<Rightarrow> string \<Rightarrow> string \<Rightarrow> string \<Rightarrow> string \<Rightarrow> string" where
  "userCmdLog now tid cmd uid sid file funds =
     commas [''userCmd'', show_long now, serverName, tid, cmd, uid, sid, file, funds]"

definition accTransLog :: "int \<Rightarrow> string \<Rightarrow> string \<Rightarrow> string \<Rightarrow> string \<Rightarrow> string" where
  "accTransLog now tid action uid funds =
     commas [''accTrans'', show_long now, serverName, tid, action, uid, funds]"

text \<open>\<open>sprintf\<close> of the current time and the fields, then \<open>lenq\<close>.\<close>

definition log_userCmd ::
  "env \<Rightarrow> string \<Rightarrow> string \<Rightarrow> string \<Rightarrow> string \<Rightarrow> string \<Rightarrow> string \<Rightarrow> server \<Rightarrow> server" where
  "log_userCmd e tid cmd uid sid file funds st =
     (let (now, st) = getmTS e st in log_line (userCmdLog now tid cmd uid sid file funds) st)"

definition log_accTrans :: "env \<Rightarrow> string \<Rightarrow> string \<Rightarrow> string \<Rightarrow> string \<Rightarrow> server \<Rightarrow> server" where
  "log_accTrans e tid action uid funds st =
     (let (now, st) = getmTS e st in log_line (accTransLog now tid action uid funds) st)"

definition quoted :: "string \<Rightarrow> string" where
  "quoted s = CHR 0x27 # s @ [CHR 0x27]"

text \<open>The format strings \<open>insertAcct\<close> to \<open>selectUserTrig\<close>.\<close>

fun sql_text :: "sql \<Rightarrow> string" where
  "sql_text (InsertAcct uid bal) =
     ''INSERT INTO accounts (User_ID,Balance) SELECT '' @ quoted uid @ '', '' @ bal @
     '' WHERE NOT EXISTS (SELECT * FROM accounts WHERE User_ID = '' @ quoted uid @ '');''"
| "sql_text (UpdateBal bal uid) =
     ''UPDATE accounts SET balance = '' @ quoted bal @ '' WHERE user_id = '' @ quoted uid @ '';''"
| "sql_text (InsertStk uid sid n) =
     ''INSERT INTO stocks (User_ID,Stock_ID,Amount) VALUES ('' @ quoted uid @ '', '' @ quoted sid @
     '', '' @ show_long n @ '');''"
| "sql_text (UpdateStk n uid sid) =
     ''UPDATE stocks SET amount = '' @ show_long n @ '' WHERE user_id = '' @ quoted uid @
     '' AND stock_id = '' @ quoted sid @ '';''"
| "sql_text (InsertTran uid tid sid adj t c) =
     ''INSERT INTO transactions (User_ID,Trans_ID,Stock_ID,Adjustment,Timestamp,Command) VALUES ('' @
     quoted uid @ '', '' @ quoted tid @ '', '' @ quoted sid @ '', '' @ adj @ '', '' @ show_long t @
     '', '' @ quoted [c] @ '');''"
| "sql_text (InsertTrig uid tid sid ty res val) =
     ''INSERT INTO triggers (User_ID,Trans_ID,Stock_ID,Trigger_Type,Reserved_Funds,Trigger_Value) VALUES ('' @
     quoted uid @ '', '' @ quoted tid @ '', '' @ quoted sid @ '', '' @ quoted [ty] @ '', '' @ res @
     '', '' @ val @ '');''"
| "sql_text (UpdateTrig val uid sid ty) =
     ''UPDATE triggers SET trigger_value = '' @ val @ '' WHERE user_id = '' @ quoted uid @
     '' AND stock_id = '' @ quoted sid @ '' AND Trigger_Type = '' @ quoted [ty] @ '';''"
| "sql_text (DeleteTrig uid sid ty) =
     ''DELETE FROM triggers WHERE User_ID = '' @ quoted uid @ '' AND Stock_ID = '' @ quoted sid @
     '' AND Trigger_Type = '' @ quoted [ty] @ '';''"
| "sql_text (SelectUserBal uid) = ''SELECT balance FROM accounts WHERE User_ID = '' @ quoted uid @ '';''"
| "sql_text (SelectUserStock uid) = ''SELECT * FROM stocks WHERE User_ID = '' @ quoted uid @ '';''"
| "sql_text (SelectUserTrig uid) = ''SELECT * FROM triggers WHERE User_ID = '' @ quoted uid @ '';''"

text \<open>
  \<open>dbenq\<close> of the statements in \<open>dbStr\<close>, the wait until a database thread has executed them, and
  the post that lets it go on: seen from the caller, the statements have been executed once it
  returns. They are recorded in order.
\<close>

definition db_write :: "sql list \<Rightarrow> int \<Rightarrow> server \<Rightarrow> server" where
  "db_write stmts db st = st\<lparr>db_sent := db_sent st @ [(db, stmts)]\<rparr>"

definition db_read :: "env \<Rightarrow> sql \<Rightarrow> int \<Rightarrow> server \<Rightarrow> string list list option \<times> server" where
  "db_read e q db st = (rows e (length (db_sent st)), db_write [q] db st)"

text \<open>\<open>quickSend\<close> transmits its string only when it is \<open>REC\<close>; every call is recorded in
  \<open>replies\<close>, what goes out on the socket in \<open>wire\<close>.\<close>

definition quickSend :: "nat \<Rightarrow> string \<Rightarrow> server \<Rightarrow> server" where
  "quickSend sock str st =
     st\<lparr>replies := replies st @ [(sock, str)],
        wire := (if str = ''REC'' then wire st @ [(sock, str)] else wire st)\<rparr>"

section \<open>Users\<close>

definition getUser :: "server \<Rightarrow> string \<Rightarrow> addr option" where
  "getUser st uid = trie_get user_addr (users st) uid"

definition new_user :: "string \<Rightarrow> user" where
  "new_user uid =
     \<lparr>userID = uid, balance = 0, prompt_time = 0, stockObj = None, reserve = 0, no = 0, buysell = 0,
      dbID = userSort (Some uid), commList = queue_init, tTree = empty_trie, usTree = empty_trie\<rparr>"

text \<open>The row loops of \<open>addUser\<close>: a user's triggers and holdings from the database.\<close>

fun load_triggers :: "addr \<Rightarrow> string list list \<Rightarrow> server \<Rightarrow> server" where
  "load_triggers u [] st = st"
| "load_triggers u (r # rs) st =
     (case r of
        [_, tid, sid, ty, res, val] \<Rightarrow>
          (case ensureStock st sid of
             (st1, None) \<Rightarrow> crash st1
           | (st1, Some s) \<Rightarrow>
               load_triggers u rs
                 (fst (addTrigger st1 u tid s (case ty of [] \<Rightarrow> NUL | c # _ \<Rightarrow> c)
                         (str2price (Some res)) (str2price (Some val)))))
      | _ \<Rightarrow> crash st)"

fun load_stocks :: "addr \<Rightarrow> string list list \<Rightarrow> server \<Rightarrow> server" where
  "load_stocks u [] st = st"
| "load_stocks u (r # rs) st =
     (case r of
        [_, sid, n] \<Rightarrow>
          (case ensureStock st sid of
             (st1, None) \<Rightarrow> crash st1
           | (st1, Some s) \<Rightarrow> load_stocks u rs (fst (addUserStock st1 u s (strtol10 n))))
      | _ \<Rightarrow> crash st)"

text \<open>The tail of \<open>addUser\<close>: three queries on the new user's database.\<close>

definition load_user :: "env \<Rightarrow> addr \<Rightarrow> string \<Rightarrow> server \<Rightarrow> server" where
  "load_user e u uid st =
     (let db = dbID (usr st u);
          (r1, st) = db_read e (SelectUserTrig uid) db st;
          st = (case r1 of None \<Rightarrow> st | Some rs \<Rightarrow> load_triggers u rs st);
          (r2, st) = db_read e (SelectUserStock uid) db st;
          st = (case r2 of None \<Rightarrow> st | Some rs \<Rightarrow> load_stocks u rs st);
          (r3, st) = db_read e (SelectUserBal uid) db st
      in case r3 of
           Some ((b # _) # _) \<Rightarrow> upd_user u (\<lambda>x. x\<lparr>balance := str2price (Some b)\<rparr>) st
         | Some ([] # _) \<Rightarrow> crash st
         | _ \<Rightarrow> st)"

definition addUser :: "env \<Rightarrow> server \<Rightarrow> string \<Rightarrow> server \<times> addr option" where
  "addUser e st uid =
     (let (tree, r) = trie_put user_addr USER_CHARS (users st) uid (u_fresh st)
      in case r of
           None \<Rightarrow> (st\<lparr>users := tree\<rparr>, None)
         | Some u \<Rightarrow>
             if getUser st uid \<noteq> None then (st\<lparr>users := tree\<rparr>, Some u)
             else (load_user e u uid
                     (st\<lparr>users := tree,
                         usr := (usr st)(u := new_user uid),
                         u_fresh := Suc (u_fresh st),
                         u_ring := ring_insert u (u_ring st),
                         ul_num := ul_num st + 1\<rparr>), Some u))"

section \<open>The state after start-up\<close>

definition empty_ring :: ring where
  "empty_ring = \<lparr>r_next = (\<lambda>_. 0), r_prev = (\<lambda>_. 0), r_curr = None\<rparr>"

text \<open>\<open>main\<close>: empty queues, trees and lists; every database has its four tables emptied.\<close>

definition server_init :: server where
  "server_init =
     \<lparr>usr = (\<lambda>_. new_user []), u_fresh = 0, users = empty_trie, u_ring = empty_ring, ul_num = 0,
      avail = 0, stk = (\<lambda>_. new_stock []), s_fresh = 0, stocks = empty_trie, s_ring = empty_ring,
      trg = Map.empty, t_fresh = 0, t_next = (\<lambda>_. 0), t_prev = (\<lambda>_. 0), t_curr = (\<lambda>_. None),
      logs = queue_init, db_sent = [], asked = [], replies = [], wire = [], ticks = 0, fault = False\<rparr>"

end
