(* ===== verification/Commands.thy ===== *)
theory Commands
  imports Server_State
begin

text \<open>
  The commands of the \<open>command_handler\<close> threads. A handler runs with its user's mutex held, from
  the dequeue of the command to the response, so a command is one step on the server state; the
  steps of different users only meet in the stock tree, the trigger rings and the queues, each
  under its own mutex. Every handler follows the code from top to bottom: an early \<open>continue\<close> is
  a branch that ends with its response. A NULL dereference ends in \<open>crash\<close>.
\<close>

section \<open>The context of a command\<close>

record ctx =
  c_tid :: string
  c_cmd :: string
  c_args :: "string list"
  c_sock :: nat
  c_returned :: nat
  c_user :: addr

definition arg :: "ctx \<Rightarrow> nat \<Rightarrow> string option" where
  "arg c k = nth_opt (c_args c) k"

definition sarg :: "ctx \<Rightarrow> nat \<Rightarrow> string" where
  "sarg c k = (case arg c k of None \<Rightarrow> [] | Some s \<Rightarrow> s)"

abbreviation cuser :: "ctx \<Rightarrow> server \<Rightarrow> user" where
  "cuser c st \<equiv> usr st (c_user c)"

abbreviation cuid :: "ctx \<Rightarrow> server \<Rightarrow> string" where
  "cuid c st \<equiv> userID (usr st (c_user c))"

definition reply :: "ctx \<Rightarrow> string \<Rightarrow> server \<Rightarrow> server" where
  "reply c body st =
     quickSend (c_sock c) (''WSR|'' @ c_tid c @ ''|'' @ c_cmd c @ ''|'' @ body) st"

definition fail :: "ctx \<Rightarrow> int \<Rightarrow> server \<Rightarrow> server" where
  "fail c code st = reply c (''FAIL,'' @ show_long code) st"

definition succ :: "ctx \<Rightarrow> server \<Rightarrow> server" where
  "succ c st = reply c ''SUCC'' st"

text \<open>The five stores that end a pending buy or sell.\<close>

definition clear_pending :: "user \<Rightarrow> user" where
  "clear_pending x = x\<lparr>prompt_time := 0, reserve := 0, no := 0, buysell := 0, stockObj := None\<rparr>"

text \<open>
  \<open>qenq\<close> and the wait for the quote thread, which stores price, time and key in the stock; and
  the test that decides whether a new quote is needed.
\<close>

definition ask_quote :: "env \<Rightarrow> ctx \<Rightarrow> addr \<Rightarrow> server \<Rightarrow> server" where
  "ask_quote e c s st =
     (let (p, t, k) = answers e (length (asked st));
          st = st\<lparr>asked := asked st @ [\<lparr>qr_stock = s, qr_userID = cuid c st, qr_transID = c_tid c,
                                       qr_userCmd = c_cmd c, qr_returned = c_returned c\<rparr>]\<rparr>
      in upd_stock s (\<lambda>x. x\<lparr>price := p, ts := t, quote_key := k\<rparr>) st)"

definition refresh_quote :: "env \<Rightarrow> ctx \<Rightarrow> addr \<Rightarrow> server \<Rightarrow> server" where
  "refresh_quote e c s st =
     (let (now, st) = getmTS e st
      in if s64 (now - ts (stk st s)) > quoteTo then ask_quote e c s st else st)"

section \<open>Add and quote\<close>

definition cmd_add :: "env \<Rightarrow> ctx \<Rightarrow> server \<Rightarrow> server" where
  "cmd_add e c st =
     (let prc = str2price (arg c 0); cprc = sarg c 0; uid = cuid c st in
      if prc = - 1 then fail c (- 19) st
      else
        (let st = log_userCmd e (c_tid c) (c_cmd c) uid spc spc cprc st;
             st = upd_user (c_user c) (\<lambda>x. x\<lparr>balance := s64 (balance x + prc)\<rparr>) st;
             strPrcNew = price2str (balance (cuser c st));
             st = log_accTrans e (c_tid c) ''add'' uid cprc st;
             (now, st) = getmTS e st;
             st = db_write [UpdateBal strPrcNew uid, InsertTran uid (c_tid c) ''...'' cprc now (CHR ''a'')]
                    (dbID (cuser c st)) st
         in succ c st))"

definition cmd_quote :: "env \<Rightarrow> ctx \<Rightarrow> server \<Rightarrow> server" where
  "cmd_quote e c st =
     (let sid = sarg c 0 in
      if \<not> validStockID (arg c 0) then fail c (- 17) st
      else
        (let st = log_userCmd e (c_tid c) (c_cmd c) (cuid c st) sid spc spc st in
         case ensureStock st sid of
           (st, None) \<Rightarrow> crash st
         | (st, Some s) \<Rightarrow>
             (let st = (if ts (stk st s) = 0 then ask_quote e c s st else st)
              in reply c (''SUCC,'' @ show_long (price (stk st s)) @ '','' @ show_long (ts (stk st s))) st)))"

section \<open>Buying\<close>

definition cmd_buy :: "env \<Rightarrow> ctx \<Rightarrow> server \<Rightarrow> server" where
  "cmd_buy e c st =
     (let sid = sarg c 0; prc = str2price (arg c 1); cprc = sarg c 1 in
      if \<not> validStockID (arg c 0) then fail c (- 17) st
      else if prc = - 1 then fail c (- 19) st
      else
        (let st = log_userCmd e (c_tid c) (c_cmd c) (cuid c st) sid spc cprc st in
         if buysell (cuser c st) \<noteq> 0 then fail c (- 10) st
         else if balance (cuser c st) < prc then fail c (- 14) st
         else
           (case ensureStock st sid of
              (st, None) \<Rightarrow> crash st
            | (st, Some s) \<Rightarrow>
                (let st = refresh_quote e c s st;
                     quotePrice = price (stk st s)
                 in if quotePrice < 1 then fail c (- 21) st
                    else
                      (let numStock = cdiv prc quotePrice in
                       if numStock = 0
                       then reply c (''FAIL,'' @ show_long (- 11) @ '','' @ show_long (price (stk st s)) @
                                     '','' @ show_long (ts (stk st s))) st
                       else
                         (let buy = s64 (quotePrice * numStock);
                              st = upd_user (c_user c)
                                     (\<lambda>x. x\<lparr>prompt_time := ts (stk st s), stockObj := Some s,
                                            reserve := buy, no := numStock, buysell := 1\<rparr>) st
                          in reply c (''SUCC,'' @ show_long numStock @ '','' @ show_long (price (stk st s)) @
                                      '','' @ show_long (ts (stk st s))) st))))))"

text \<open>
  The part of \<open>COMMIT_BUY\<close> behind its guards: balance, holding (inserted or updated), the
  account log line, the statements and their execution, the end of the pending buy.
\<close>

definition commit_buy_body :: "env \<Rightarrow> ctx \<Rightarrow> addr \<Rightarrow> server \<Rightarrow> server" where
  "commit_buy_body e c s st =
     (let u = c_user c; uid = cuid c st;
          strPrcMod = price2str (reserve (cuser c st));
          st = upd_user u (\<lambda>x. x\<lparr>balance := s64 (balance x - reserve x)\<rparr>) st;
          strPrcNew = price2str (balance (cuser c st));
          sid = stockID (stk st s);
          (stmt, st) =
            (case getUserStock st u s of
               None \<Rightarrow>
                 (case addUserStock st u s (no (cuser c st)) of
                    (st, None) \<Rightarrow> (None, st)
                  | (st, Some us) \<Rightarrow> (Some (InsertStk uid sid (num us)), st))
             | Some us \<Rightarrow>
                 (let n = s64 (num us + no (cuser c st))
                  in (Some (UpdateStk n uid sid), setUserStock st u s n)))
      in case stmt of
           None \<Rightarrow> crash st
         | Some stk_stmt \<Rightarrow>
             (let st = log_accTrans e (c_tid c) ''remove'' uid strPrcMod st;
                  (now, st) = getmTS e st;
                  st = db_write [stk_stmt, UpdateBal strPrcNew uid,
                         InsertTran uid (c_tid c) sid strPrcMod now (CHR ''b'')] (dbID (cuser c st)) st;
                  st = upd_user u clear_pending st
              in succ c st))"

definition cmd_commit_buy :: "env \<Rightarrow> ctx \<Rightarrow> server \<Rightarrow> server" where
  "cmd_commit_buy e c st =
     (let st = log_userCmd e (c_tid c) (c_cmd c) (cuid c st) spc spc spc st in
      if buysell (cuser c st) \<noteq> 1 then fail c (- 12) st
      else
        (let (now, st) = getmTS e st in
         if s64 (now - prompt_time (cuser c st)) > quoteTo
         then fail c (- 13) (upd_user (c_user c) clear_pending st)
         else (case stockObj (cuser c st) of
                 None \<Rightarrow> crash st
               | Some s \<Rightarrow> commit_buy_body e c s st)))"

definition cmd_cancel_buy :: "env \<Rightarrow> ctx \<Rightarrow> server \<Rightarrow> server" where
  "cmd_cancel_buy e c st =
     (let st = log_userCmd e (c_tid c) (c_cmd c) (cuid c st) spc spc spc st in
      if buysell (cuser c st) \<noteq> 1 then fail c (- 12) st
      else succ c (upd_user (c_user c) clear_pending st))"

section \<open>Selling\<close>

definition cmd_sell :: "env \<Rightarrow> ctx \<Rightarrow> server \<Rightarrow> server" where
  "cmd_sell e c st =
     (let sid = sarg c 0; prc = str2price (arg c 1); cprc = sarg c 1 in
      if \<not> validStockID (arg c 0) then fail c (- 17) st
      else if prc = - 1 then fail c (- 19) st
      else
        (let st = log_userCmd e (c_tid c) (c_cmd c) (cuid c st) sid spc cprc st in
         case ensureStock st sid of
           (st, None) \<Rightarrow> crash st
         | (st, Some s) \<Rightarrow>
             (case getUserStock st (c_user c) s of
                None \<Rightarrow> fail c (- 15) st
              | Some us \<Rightarrow>
                  if num us = 0 then fail c (- 15) st
                  else if buysell (cuser c st) \<noteq> 0 then fail c (- 10) st
                  else
                    (let st = refresh_quote e c s st;
                         quotePrice = price (stk st s)
                     in if quotePrice < 1 then fail c (- 21) st
                        else
                          (let numStock = s64 (cdiv prc quotePrice + 1);
                               numStock = (if num us < numStock then num us else numStock);
                               sell = s64 (quotePrice * numStock);
                               st = upd_user (c_user c)
                                      (\<lambda>x. x\<lparr>prompt_time := ts (stk st s), stockObj := Some s,
                                             reserve := sell, no := numStock, buysell := - 1\<rparr>) st
                           in reply c (''SUCC,'' @ show_long numStock @ '','' @ show_long (price (stk st s)) @
                                       '','' @ show_long (ts (stk st s))) st)))))"

definition commit_sell_body :: "env \<Rightarrow> ctx \<Rightarrow> addr \<Rightarrow> user_stock \<Rightarrow> server \<Rightarrow> server" where
  "commit_sell_body e c s us st =
     (let u = c_user c; uid = cuid c st; sid = stockID (stk st s);
          strPrcMod = price2str (reserve (cuser c st));
          st = upd_user u (\<lambda>x. x\<lparr>balance := s64 (balance x + reserve x)\<rparr>) st;
          strPrcNew = price2str (balance (cuser c st));
          st = log_accTrans e (c_tid c) ''add'' uid strPrcMod st;
          n = s64 (num us - no (cuser c st));
          st = setUserStock st u s n;
          (now, st) = getmTS e st;
          st = db_write [UpdateBal strPrcNew uid, UpdateStk n uid sid,
                 InsertTran uid (c_tid c) sid strPrcMod now (CHR ''s'')] (dbID (cuser c st)) st;
          st = upd_user u clear_pending st
      in succ c st)"

definition cmd_commit_sell :: "env \<Rightarrow> ctx \<Rightarrow> server \<Rightarrow> server" where
  "cmd_commit_sell e c st =
     (let st = log_userCmd e (c_tid c) (c_cmd c) (cuid c st) spc spc spc st in
      if buysell (cuser c st) \<noteq> - 1 then fail c (- 12) st
      else
        (let (now, st) = getmTS e st in
         if s64 (now - prompt_time (cuser c st)) > quoteTo
         then fail c (- 13) (upd_user (c_user c) clear_pending st)
         else (case stockObj (cuser c st) of
                 None \<Rightarrow> crash st
               | Some s \<Rightarrow>
                   (case getUserStock st (c_user c) s of
                      None \<Rightarrow> fail c (- 15) st
                    | Some us \<Rightarrow> commit_sell_body e c s us st))))"

definition cmd_cancel_sell :: "env \<Rightarrow> ctx \<Rightarrow> server \<Rightarrow> server" where
  "cmd_cancel_sell e c st =
     (let st = log_userCmd e (c_tid c) (c_cmd c) (cuid c st) spc spc spc st in
      if buysell (cuser c st) \<noteq> - 1 then fail c (- 12) st
      else succ c (upd_user (c_user c) clear_pending st))"

section \<open>Triggers\<close>

definition cmd_set_buy_amount :: "env \<Rightarrow> ctx \<Rightarrow> server \<Rightarrow> server" where
  "cmd_set_buy_amount e c st =
     (let sid = sarg c 0; prc = str2price (arg c 1); cprc = sarg c 1; u = c_user c; uid = cuid c st in
      if \<not> validStockID (arg c 0) then fail c (- 17) st
      else if prc = - 1 then fail c (- 19) st
      else
        (let st = log_userCmd e (c_tid c) (c_cmd c) uid sid spc cprc st in
         if buysell (cuser c st) \<noteq> 0 then fail c (- 10) st
         else if balance (cuser c st) < prc then fail c (- 14) st
         else
           (case ensureStock st sid of
              (st, None) \<Rightarrow> crash st
            | (st, Some s) \<Rightarrow>
                if getTrigger st u s (CHR ''b'') \<noteq> None then fail c (- 16) st
                else
                  (let st = upd_user u (\<lambda>x. x\<lparr>balance := s64 (balance x - prc)\<rparr>) st;
                       strPrcNew = price2str (balance (cuser c st));
                       st = log_accTrans e (c_tid c) ''remove'' uid cprc st;
                       st = fst (addTrigger st u (c_tid c) s (CHR ''b'') prc 0);
                       st = db_write [UpdateBal strPrcNew uid,
                              InsertTrig uid (c_tid c) sid (CHR ''b'') cprc ''0.00''] (dbID (cuser c st)) st
                   in succ c st))))"

text \<open>Behind the guards of \<open>CANCEL_SET_BUY\<close>, with the trigger found.\<close>

definition cmd_cancel_set_buy :: "env \<Rightarrow> ctx \<Rightarrow> server \<Rightarrow> server" where
  "cmd_cancel_set_buy e c st =
     (let sid = sarg c 0; u = c_user c; uid = cuid c st in
      if \<not> validStockID (arg c 0) then fail c (- 17) st
      else
        (let st = log_userCmd e (c_tid c) (c_cmd c) uid sid spc spc st in
         case ensureStock st sid of
           (st, None) \<Rightarrow> crash st
         | (st, Some s) \<Rightarrow>
             (case getTrigger st u s (CHR ''b'') of
                None \<Rightarrow> fail c (- 22) st
              | Some a \<Rightarrow>
                  (case trg st a of
                     None \<Rightarrow> crash st
                   | Some tr \<Rightarrow>
                       (let strPrcMod = price2str (amount tr);
                            st = upd_user u (\<lambda>x. x\<lparr>balance := s64 (balance x + amount tr)\<rparr>) st;
                            strPrcNew = price2str (balance (cuser c st));
                            st = removeTrigger st a;
                            st = log_accTrans e (c_tid c) ''add'' uid strPrcMod st;
                            st = db_write [UpdateBal strPrcNew uid, DeleteTrig uid sid (CHR ''b'')]
                                   (dbID (cuser c st)) st
                        in succ c st)))))"

text \<open>\<open>cTrigger->trig = prc\<close>\<close>

definition set_trig :: "addr \<Rightarrow> int \<Rightarrow> server \<Rightarrow> server" where
  "set_trig a prc st =
     (case trg st a of
        None \<Rightarrow> crash st
      | Some tr \<Rightarrow> st\<lparr>trg := (trg st)(a \<mapsto> tr\<lparr>trig := prc\<rparr>)\<rparr>)"

definition cmd_set_buy_trigger :: "env \<Rightarrow> ctx \<Rightarrow> server \<Rightarrow> server" where
  "cmd_set_buy_trigger e c st =
     (let sid = sarg c 0; prc = str2price (arg c 1); cprc = sarg c 1; uid = cuid c st in
      if \<not> validStockID (arg c 0) then fail c (- 17) st
      else if prc = - 1 then fail c (- 19) st
      else
        (let st = log_userCmd e (c_tid c) (c_cmd c) uid sid spc cprc st in
         case ensureStock st sid of
           (st, None) \<Rightarrow> crash st
         | (st, Some s) \<Rightarrow>
             (case getTrigger st (c_user c) s (CHR ''b'') of
                None \<Rightarrow> fail c (- 22) st
              | Some a \<Rightarrow>
                  (let st = set_trig a prc st;
                       st = db_write [UpdateTrig cprc uid sid (CHR ''b'')] (dbID (cuser c st)) st
                   in succ c st))))"

definition cmd_set_sell_amount :: "env \<Rightarrow> ctx \<Rightarrow> server \<Rightarrow> server" where
  "cmd_set_sell_amount e c st =
     (let sid = sarg c 0; prc = str2price (arg c 1); cprc = sarg c 1; u = c_user c; uid = cuid c st in
      if \<not> validStockID (arg c 0) then fail c (- 17) st
      else if prc = - 1 then fail c (- 19) st
      else
        (let st = log_userCmd e (c_tid c) (c_cmd c) uid sid spc cprc st in
         if buysell (cuser c st) \<noteq> 0 then fail c (- 10) st
         else
           (case ensureStock st sid of
              (st, None) \<Rightarrow> crash st
            | (st, Some s) \<Rightarrow>
                (case getUserStock st u s of
                   None \<Rightarrow> fail c (- 15) st
                 | Some us \<Rightarrow>
                     if getTrigger st u s (CHR ''s'') \<noteq> None then fail c (- 16) st
                     else
                       (let st = fst (addTrigger st u (c_tid c) s (CHR ''s'') prc 0);
                            st = db_write [InsertTrig uid (c_tid c) sid (CHR ''s'') cprc ''0.00'']
                                   (dbID (cuser c st)) st
                        in succ c st)))))"

definition cmd_set_sell_trigger :: "env \<Rightarrow> ctx \<Rightarrow> server \<Rightarrow> server" where
  "cmd_set_sell_trigger e c st =
     (let sid = sarg c 0; prc = str2price (arg c 1); cprc = sarg c 1; uid = cuid c st in
      if \<not> validStockID (arg c 0) then fail c (- 17) st
      else if prc = - 1 then fail c (- 19) st
      else
        (let st = log_userCmd e (c_tid c) (c_cmd c) uid sid spc cprc st in
         case ensureStock st sid of
           (st, None) \<Rightarrow> crash st
         | (st, Some s) \<Rightarrow>
             (case getTrigger st (c_user c) s (CHR ''s'') of
                None \<Rightarrow> fail c (- 22) st
              | Some a \<Rightarrow>
                  (let st = set_trig a prc st;
                       st = db_write [UpdateTrig cprc uid sid (CHR ''s'')] (dbID (cuser c st)) st
                   in succ c st))))"

definition cmd_cancel_set_sell :: "env \<Rightarrow> ctx \<Rightarrow> server \<Rightarrow> server" where
  "cmd_cancel_set_sell e c st =
     (let sid = sarg c 0; uid = cuid c st in
      if \<not> validStockID (arg c 0) then fail c (- 17) st
      else
        (let st = log_userCmd e (c_tid c) (c_cmd c) uid sid spc spc st in
         case ensureStock st sid of
           (st, None) \<Rightarrow> crash st
         | (st, Some s) \<Rightarrow>
             (case getTrigger st (c_user c) s (CHR ''s'') of
                None \<Rightarrow> fail c (- 22) st
              | Some a \<Rightarrow>
                  (let st = removeTrigger st a;
                       st = db_write [DeleteTrig uid sid (CHR ''s'')] (dbID (cuser c st)) st
                   in succ c st))))"

section \<open>Dump and summary\<close>

definition cmd_dumplog :: "env \<Rightarrow> ctx \<Rightarrow> server \<Rightarrow> server" where
  "cmd_dumplog e c st =
     (let file = sarg c 0; uid = cuid c st in
      if length file < 2 then fail c (- 17) st
      else
        (let st = log_userCmd e (c_tid c) (c_cmd c) uid spc file spc st;
             st = log_line (commas [c_cmd c, uid, file]) st
         in succ c st))"

text \<open>The lines of the summary, one per trigger and one per holding.\<close>

fun trigger_info :: "server \<Rightarrow> addr option list \<Rightarrow> string option" where
  "trigger_info st [] = Some []"
| "trigger_info st (p # ps) =
     (case Option.bind p (trg st) of
        None \<Rightarrow> None
      | Some tr \<Rightarrow>
          map_option (\<lambda>rest. commas [stockID (stk st (t_stock tr)), [t_type tr], show_long (amount tr),
              show_long (trig tr)] @ [CHR 0x0A] @ rest) (trigger_info st ps))"

fun stock_info :: "server \<Rightarrow> user_stock option list \<Rightarrow> string option" where
  "stock_info st [] = Some []"
| "stock_info st (p # ps) =
     (case p of
        None \<Rightarrow> None
      | Some us \<Rightarrow>
          map_option (\<lambda>rest. commas [stockID (stk st (us_stock us)), show_long (num us)] @ [CHR 0x0A] @ rest)
            (stock_info st ps))"

text \<open>The two passes over a tree: count, allocate, fill.\<close>

definition gather :: "('a option list option \<Rightarrow> 'a trie \<Rightarrow> nat \<Rightarrow> ('a option list option \<times> nat) option)
    \<Rightarrow> 'a trie \<Rightarrow> 'a option list option" where
  "gather getAll tree =
     (case getAll None tree 0 of
        None \<Rightarrow> None
      | Some (_, n) \<Rightarrow>
          (case getAll (Some (replicate n None)) tree 0 of
             Some (Some arr, n') \<Rightarrow> Some (take n' arr)
           | _ \<Rightarrow> None))"

definition cmd_display_summary :: "env \<Rightarrow> ctx \<Rightarrow> server \<Rightarrow> server" where
  "cmd_display_summary e c st =
     (let st = log_userCmd e (c_tid c) (c_cmd c) (cuid c st) spc spc spc st in
      case (gather getAllTriggers (tTree (cuser c st)), gather getAllUserStocks (usTree (cuser c st))) of
        (Some triggers, Some userStocks) \<Rightarrow>
          (case (trigger_info st triggers, stock_info st userStocks) of
             (Some triggerInfo, Some userStockInfo) \<Rightarrow>
               reply c (''SUCC|'' @ show_long (balance (cuser c st)) @ ''|'' @ userStockInfo @ ''|'' @ triggerInfo) st
           | _ \<Rightarrow> crash st)
      | _ \<Rightarrow> crash st)"

definition cmd_bad :: "ctx \<Rightarrow> server \<Rightarrow> server" where
  "cmd_bad c st =
     quickSend (c_sock c) (''WSR|'' @ c_tid c @ ''|BADCMD|FAIL,'' @ show_long (- 20)) st"

section \<open>Dispatch\<close>

definition exec_command :: "env \<Rightarrow> ctx \<Rightarrow> server \<Rightarrow> server" where
  "exec_command e c st =
     (let cmd = c_cmd c; commLen = length (c_args c) in
      if cmd = ''ADD'' \<and> commLen = 1 then cmd_add e c st
      else if cmd = ''QUOTE'' \<and> commLen = 1 then cmd_quote e c st
      else if cmd = ''BUY'' \<and> commLen = 2 then cmd_buy e c st
      else if cmd = ''COMMIT_BUY'' \<and> commLen = 0 then cmd_commit_buy e c st
      else if cmd = ''CANCEL_BUY'' \<and> commLen = 0 then cmd_cancel_buy e c st
      else if cmd = ''SELL'' \<and> commLen = 2 then cmd_sell e c st
      else if cmd = ''COMMIT_SELL'' \<and> commLen = 0 then cmd_commit_sell e c st
      else if cmd = ''CANCEL_SELL'' \<and> commLen = 0 then cmd_cancel_sell e c st
      else if cmd = ''SET_BUY_AMOUNT'' \<and> commLen = 2 then cmd_set_buy_amount e c st
      else if cmd = ''CANCEL_SET_BUY'' \<and> commLen = 1 then cmd_cancel_set_buy e c st
      else if cmd = ''SET_BUY_TRIGGER'' \<and> commLen = 2 then cmd_set_buy_trigger e c st
      else if cmd = ''SET_SELL_AMOUNT'' \<and> commLen = 2 then cmd_set_sell_amount e c st
      else if cmd = ''SET_SELL_TRIGGER'' \<and> commLen = 2 then cmd_set_sell_trigger e c st
      else if cmd = ''CANCEL_SET_SELL'' \<and> commLen = 1 then cmd_cancel_set_sell e c st
      else if cmd = ''DUMPLOG'' \<and> commLen = 1 then cmd_dumplog e c st
      else if cmd = ''DISPLAY_SUMMARY'' \<and> commLen = 0 then cmd_display_summary e c st
      else cmd_bad c st)"

text \<open>
  One round of a command thread on user \<open>u\<close> with its mutex held: dequeue, split the arguments
  into the two cells of \<open>comm\<close> (a third token is stored past its end), dispatch. Without a
  command \<open>cdeq\<close> returns NULL, which is dereferenced at once.
\<close>

definition run_command :: "env \<Rightarrow> nat \<Rightarrow> addr \<Rightarrow> server \<Rightarrow> server" where
  "run_command e returned u st =
     (case cdeq (commList (usr st u)) of
        (Got a cm, q) \<Rightarrow>
          (let st = upd_user u (\<lambda>x. x\<lparr>commList := free_cell a q\<rparr>) st;
               toks = tokens (delimSepNoCpy (comm cm) (CHR '',''))
           in if length toks > 2 then crash st
              else exec_command e \<lparr>c_tid = transID cm, c_cmd = userCmd cm, c_args = toks,
                     c_sock = webServerSock cm, c_returned = returned, c_user = u\<rparr> st)
      | _ \<Rightarrow> crash st)"

end
