(* ===== verification/Server_Inv.thy ===== *)
theory Server_Inv
  imports Commands
begin

text \<open>
  The well-formedness of a server state and the lemmas that every operation of \<open>Server_State\<close>
  keeps it: what the trees, rings and heaps owe each other so that no pointer the handlers follow
  dangles. First the frame: operations that only produce output leave the rest of the state
  alone.
\<close>

section \<open>Frame\<close>

lemma log_line_eq: "log_line l st = st\<lparr>logs := snd (enq (logs st) l)\<rparr>"
  by (simp add: log_line_def lenq_def)

lemma getmTS_frame [simp]:
  "usr (snd (getmTS e st)) = usr st" "u_fresh (snd (getmTS e st)) = u_fresh st"
  "users (snd (getmTS e st)) = users st" "u_ring (snd (getmTS e st)) = u_ring st"
  "ul_num (snd (getmTS e st)) = ul_num st" "avail (snd (getmTS e st)) = avail st"
  "stk (snd (getmTS e st)) = stk st" "s_fresh (snd (getmTS e st)) = s_fresh st"
  "stocks (snd (getmTS e st)) = stocks st" "s_ring (snd (getmTS e st)) = s_ring st"
  "trg (snd (getmTS e st)) = trg st" "t_fresh (snd (getmTS e st)) = t_fresh st"
  "t_next (snd (getmTS e st)) = t_next st" "t_prev (snd (getmTS e st)) = t_prev st"
  "t_curr (snd (getmTS e st)) = t_curr st" "logs (snd (getmTS e st)) = logs st"
  "db_sent (snd (getmTS e st)) = db_sent st" "asked (snd (getmTS e st)) = asked st"
  "replies (snd (getmTS e st)) = replies st" "wire (snd (getmTS e st)) = wire st"
  "fault (snd (getmTS e st)) = fault st" "fst (getmTS e st) = clock e (ticks st)"
  by (simp_all add: getmTS_def)

lemma log_line_frame [simp]:
  "usr (log_line l st) = usr st" "u_fresh (log_line l st) = u_fresh st"
  "users (log_line l st) = users st" "u_ring (log_line l st) = u_ring st"
  "ul_num (log_line l st) = ul_num st" "avail (log_line l st) = avail st"
  "stk (log_line l st) = stk st" "s_fresh (log_line l st) = s_fresh st"
  "stocks (log_line l st) = stocks st" "s_ring (log_line l st) = s_ring st"
  "trg (log_line l st) = trg st" "t_fresh (log_line l st) = t_fresh st"
  "t_next (log_line l st) = t_next st" "t_prev (log_line l st) = t_prev st"
  "t_curr (log_line l st) = t_curr st" "db_sent (log_line l st) = db_sent st"
  "asked (log_line l st) = asked st" "replies (log_line l st) = replies st"
  "wire (log_line l st) = wire st" "ticks (log_line l st) = ticks st"
  "fault (log_line l st) = fault st"
  by (simp_all add: log_line_eq)

lemma log_userCmd_eq:
  "log_userCmd e tid cmd uid sid file funds st =
     log_line (userCmdLog (clock e (ticks st)) tid cmd uid sid file funds) (snd (getmTS e st))"
  by (simp add: log_userCmd_def getmTS_def)

lemma log_accTrans_eq:
  "log_accTrans e tid action uid funds st =
     log_line (accTransLog (clock e (ticks st)) tid action uid funds) (snd (getmTS e st))"
  by (simp add: log_accTrans_def getmTS_def)

lemma log_userCmd_frame [simp]:
  "usr (log_userCmd e tid cmd uid sid file funds st) = usr st"
  "u_fresh (log_userCmd e tid cmd uid sid file funds st) = u_fresh st"
  "users (log_userCmd e tid cmd uid sid file funds st) = users st"
  "u_ring (log_userCmd e tid cmd uid sid file funds st) = u_ring st"
  "ul_num (log_userCmd e tid cmd uid sid file funds st) = ul_num st"
  "avail (log_userCmd e tid cmd uid sid file funds st) = avail st"
  "stk (log_userCmd e tid cmd uid sid file funds st) = stk st"
  "s_fresh (log_userCmd e tid cmd uid sid file funds st) = s_fresh st"
  "stocks (log_userCmd e tid cmd uid sid file funds st) = stocks st"
  "s_ring (log_userCmd e tid cmd uid sid file funds st) = s_ring st"
  "trg (log_userCmd e tid cmd uid sid file funds st) = trg st"
  "t_fresh (log_userCmd e tid cmd uid sid file funds st) = t_fresh st"
  "t_next (log_userCmd e tid cmd uid sid file funds st) = t_next st"
  "t_prev (log_userCmd e tid cmd uid sid file funds st) = t_prev st"
  "t_curr (log_userCmd e tid cmd uid sid file funds st) = t_curr st"
  "db_sent (log_userCmd e tid cmd uid sid file funds st) = db_sent st"
  "asked (log_userCmd e tid cmd uid sid file funds st) = asked st"
  "replies (log_userCmd e tid cmd uid sid file funds st) = replies st"
  "wire (log_userCmd e tid cmd uid sid file funds st) = wire st"
  "fault (log_userCmd e tid cmd uid sid file funds st) = fault st"
  by (simp_all add: log_userCmd_eq)

lemma log_accTrans_frame [simp]:
  "usr (log_accTrans e tid action uid funds st) = usr st"
  "u_fresh (log_accTrans e tid action uid funds st) = u_fresh st"
  "users (log_accTrans e tid action uid funds st) = users st"
  "u_ring (log_accTrans e tid action uid funds st) = u_ring st"
  "ul_num (log_accTrans e tid action uid funds st) = ul_num st"
  "avail (log_accTrans e tid action uid funds st) = avail st"
  "stk (log_accTrans e tid action uid funds st) = stk st"
  "s_fresh (log_accTrans e tid action uid funds st) = s_fresh st"
  "stocks (log_accTrans e tid action uid funds st) = stocks st"
  "s_ring (log_accTrans e tid action uid funds st) = s_ring st"
  "trg (log_accTrans e tid action uid funds st) = trg st"
  "t_fresh (log_accTrans e tid action uid funds st) = t_fresh st"
  "t_next (log_accTrans e tid action uid funds st) = t_next st"
  "t_prev (log_accTrans e tid action uid funds st) = t_prev st"
  "t_curr (log_accTrans e tid action uid funds st) = t_curr st"
  "db_sent (log_accTrans e tid action uid funds st) = db_sent st"
  "asked (log_accTrans e tid action uid funds st) = asked st"
  "replies (log_accTrans e tid action uid funds st) = replies st"
  "wire (log_accTrans e tid action uid funds st) = wire st"
  "fault (log_accTrans e tid action uid funds st) = fault st"
  by (simp_all add: log_accTrans_eq)

lemma db_write_frame [simp]:
  "usr (db_write stmts db st) = usr st" "u_fresh (db_write stmts db st) = u_fresh st"
  "users (db_write stmts db st) = users st" "u_ring (db_write stmts db st) = u_ring st"
  "ul_num (db_write stmts db st) = ul_num st" "avail (db_write stmts db st) = avail st"
  "stk (db_write stmts db st) = stk st" "s_fresh (db_write stmts db st) = s_fresh st"
  "stocks (db_write stmts db st) = stocks st" "s_ring (db_write stmts db st) = s_ring st"
  "trg (db_write stmts db st) = trg st" "t_fresh (db_write stmts db st) = t_fresh st"
  "t_next (db_write stmts db st) = t_next st" "t_prev (db_write stmts db st) = t_prev st"
  "t_curr (db_write stmts db st) = t_curr st" "logs (db_write stmts db st) = logs st"
  "asked (db_write stmts db st) = asked st" "replies (db_write stmts db st) = replies st"
  "wire (db_write stmts db st) = wire st" "ticks (db_write stmts db st) = ticks st"
  "fault (db_write stmts db st) = fault st"
  by (simp_all add: db_write_def)

lemma quickSend_frame [simp]:
  "usr (quickSend sock str st) = usr st" "u_fresh (quickSend sock str st) = u_fresh st"
  "users (quickSend sock str st) = users st" "u_ring (quickSend sock str st) = u_ring st"
  "ul_num (quickSend sock str st) = ul_num st" "avail (quickSend sock str st) = avail st"
  "stk (quickSend sock str st) = stk st" "s_fresh (quickSend sock str st) = s_fresh st"
  "stocks (quickSend sock str st) = stocks st" "s_ring (quickSend sock str st) = s_ring st"
  "trg (quickSend sock str st) = trg st" "t_fresh (quickSend sock str st) = t_fresh st"
  "t_next (quickSend sock str st) = t_next st" "t_prev (quickSend sock str st) = t_prev st"
  "t_curr (quickSend sock str st) = t_curr st" "logs (quickSend sock str st) = logs st"
  "asked (quickSend sock str st) = asked st" "db_sent (quickSend sock str st) = db_sent st"
  "ticks (quickSend sock str st) = ticks st" "fault (quickSend sock str st) = fault st"
  by (simp_all add: quickSend_def)

lemma reply_frame [simp]:
  "usr (reply c body st) = usr st" "u_fresh (reply c body st) = u_fresh st"
  "users (reply c body st) = users st" "u_ring (reply c body st) = u_ring st"
  "ul_num (reply c body st) = ul_num st" "avail (reply c body st) = avail st"
  "stk (reply c body st) = stk st" "s_fresh (reply c body st) = s_fresh st"
  "stocks (reply c body st) = stocks st" "s_ring (reply c body st) = s_ring st"
  "trg (reply c body st) = trg st" "t_fresh (reply c body st) = t_fresh st"
  "t_next (reply c body st) = t_next st" "t_prev (reply c body st) = t_prev st"
  "t_curr (reply c body st) = t_curr st" "logs (reply c body st) = logs st"
  "asked (reply c body st) = asked st" "db_sent (reply c body st) = db_sent st"
  "ticks (reply c body st) = ticks st" "fault (reply c body st) = fault st"
  by (simp_all add: reply_def)

lemma fail_frame [simp]:
  "usr (fail c code st) = usr st" "u_fresh (fail c code st) = u_fresh st"
  "users (fail c code st) = users st" "u_ring (fail c code st) = u_ring st"
  "ul_num (fail c code st) = ul_num st" "avail (fail c code st) = avail st"
  "stk (fail c code st) = stk st" "s_fresh (fail c code st) = s_fresh st"
  "stocks (fail c code st) = stocks st" "s_ring (fail c code st) = s_ring st"
  "trg (fail c code st) = trg st" "t_fresh (fail c code st) = t_fresh st"
  "t_next (fail c code st) = t_next st" "t_prev (fail c code st) = t_prev st"
  "t_curr (fail c code st) = t_curr st" "logs (fail c code st) = logs st"
  "asked (fail c code st) = asked st" "db_sent (fail c code st) = db_sent st"
  "ticks (fail c code st) = ticks st" "fault (fail c code st) = fault st"
  by (simp_all add: fail_def)

lemma succ_frame [simp]:
  "usr (succ c st) = usr st" "u_fresh (succ c st) = u_fresh st" "users (succ c st) = users st"
  "u_ring (succ c st) = u_ring st" "ul_num (succ c st) = ul_num st" "avail (succ c st) = avail st"
  "stk (succ c st) = stk st" "s_fresh (succ c st) = s_fresh st" "stocks (succ c st) = stocks st"
  "s_ring (succ c st) = s_ring st" "trg (succ c st) = trg st" "t_fresh (succ c st) = t_fresh st"
  "t_next (succ c st) = t_next st" "t_prev (succ c st) = t_prev st"
  "t_curr (succ c st) = t_curr st" "logs (succ c st) = logs st" "asked (succ c st) = asked st"
  "db_sent (succ c st) = db_sent st" "ticks (succ c st) = ticks st" "fault (succ c st) = fault st"
  by (simp_all add: succ_def)

lemma upd_user_frame [simp]:
  "u_fresh (upd_user u f st) = u_fresh st" "users (upd_user u f st) = users st"
  "u_ring (upd_user u f st) = u_ring st" "ul_num (upd_user u f st) = ul_num st"
  "avail (upd_user u f st) = avail st" "stk (upd_user u f st) = stk st"
  "s_fresh (upd_user u f st) = s_fresh st" "stocks (upd_user u f st) = stocks st"
  "s_ring (upd_user u f st) = s_ring st" "trg (upd_user u f st) = trg st"
  "t_fresh (upd_user u f st) = t_fresh st" "t_next (upd_user u f st) = t_next st"
  "t_prev (upd_user u f st) = t_prev st" "t_curr (upd_user u f st) = t_curr st"
  "logs (upd_user u f st) = logs st" "db_sent (upd_user u f st) = db_sent st"
  "asked (upd_user u f st) = asked st" "replies (upd_user u f st) = replies st"
  "wire (upd_user u f st) = wire st" "ticks (upd_user u f st) = ticks st"
  "fault (upd_user u f st) = fault st" "usr (upd_user u f st) = (usr st)(u := f (usr st u))"
  by (simp_all add: upd_user_def)

lemma upd_stock_frame [simp]:
  "usr (upd_stock a f st) = usr st" "u_fresh (upd_stock a f st) = u_fresh st"
  "users (upd_stock a f st) = users st" "u_ring (upd_stock a f st) = u_ring st"
  "ul_num (upd_stock a f st) = ul_num st" "avail (upd_stock a f st) = avail st"
  "s_fresh (upd_stock a f st) = s_fresh st" "stocks (upd_stock a f st) = stocks st"
  "s_ring (upd_stock a f st) = s_ring st" "trg (upd_stock a f st) = trg st"
  "t_fresh (upd_stock a f st) = t_fresh st" "t_next (upd_stock a f st) = t_next st"
  "t_prev (upd_stock a f st) = t_prev st" "t_curr (upd_stock a f st) = t_curr st"
  "logs (upd_stock a f st) = logs st" "db_sent (upd_stock a f st) = db_sent st"
  "asked (upd_stock a f st) = asked st" "replies (upd_stock a f st) = replies st"
  "wire (upd_stock a f st) = wire st" "ticks (upd_stock a f st) = ticks st"
  "fault (upd_stock a f st) = fault st" "stk (upd_stock a f st) = (stk st)(a := f (stk st a))"
  by (simp_all add: upd_stock_def)

lemma put_trig_ring_frame [simp]:
  "usr (put_trig_ring a r st) = usr st" "u_fresh (put_trig_ring a r st) = u_fresh st"
  "users (put_trig_ring a r st) = users st" "u_ring (put_trig_ring a r st) = u_ring st"
  "ul_num (put_trig_ring a r st) = ul_num st" "avail (put_trig_ring a r st) = avail st"
  "stk (put_trig_ring a r st) = stk st" "s_fresh (put_trig_ring a r st) = s_fresh st"
  "stocks (put_trig_ring a r st) = stocks st" "s_ring (put_trig_ring a r st) = s_ring st"
  "trg (put_trig_ring a r st) = trg st" "t_fresh (put_trig_ring a r st) = t_fresh st"
  "logs (put_trig_ring a r st) = logs st" "db_sent (put_trig_ring a r st) = db_sent st"
  "asked (put_trig_ring a r st) = asked st" "replies (put_trig_ring a r st) = replies st"
  "wire (put_trig_ring a r st) = wire st" "ticks (put_trig_ring a r st) = ticks st"
  "fault (put_trig_ring a r st) = fault st"
  by (simp_all add: put_trig_ring_def)

lemma crash_fault [simp]: "fault (crash st)"
  by (simp add: crash_def)

section \<open>Well-formed states\<close>

text \<open>
  The invariant is split by what it depends on. \<open>sid\<close> gives the identifier of a stock address,
  \<open>n\<close> the number of allocated stocks.
\<close>

definition stocks_ok :: "addr trie \<Rightarrow> (addr \<Rightarrow> string) \<Rightarrow> nat \<Rightarrow> ring \<Rightarrow> bool" where
  "stocks_ok tree sid n r \<longleftrightarrow>
     wf_trie STOCK_CHARS tree \<and> ring_list r [0..<n] \<and>
     (\<forall>p s. look tree p = Some s \<longrightarrow> s < n \<and> p = stock_path (sid s)) \<and>
     (\<forall>s < n. validStockID (Some (sid s)) \<and> look tree (stock_path (sid s)) = Some s)"

definition users_ok :: "addr trie \<Rightarrow> (addr \<Rightarrow> string) \<Rightarrow> nat \<Rightarrow> ring \<Rightarrow> int \<Rightarrow> bool" where
  "users_ok tree uid n r k \<longleftrightarrow>
     wf_trie USER_CHARS tree \<and> ring_list r [0..<n] \<and> k = int n \<and>
     (\<forall>p u. look tree p = Some u \<longrightarrow> u < n \<and> p = map user_index (uid u)) \<and>
     (\<forall>u < n. user_key (uid u) \<and> look tree (map user_index (uid u)) = Some u)"

definition user_wf :: "(addr \<Rightarrow> string) \<Rightarrow> nat \<Rightarrow> user \<Rightarrow> bool" where
  "user_wf sid n x \<longleftrightarrow>
     wf_trie STOCK_CHARS (usTree x) \<and>
     (\<forall>p us. look (usTree x) p = Some us \<longrightarrow> us_stock us < n \<and> p = stock_path (sid (us_stock us))) \<and>
     queue_inv (commList x) \<and>
     (\<forall>s. stockObj x = Some s \<longrightarrow> s < n) \<and> (buysell x \<noteq> 0 \<longrightarrow> stockObj x \<noteq> None) \<and>
     buysell x \<in> {- 1, 0, 1}"

definition tree_ok :: "(addr \<rightharpoonup> trigger) \<Rightarrow> (addr \<Rightarrow> string) \<Rightarrow> addr \<Rightarrow> addr trie \<Rightarrow> bool" where
  "tree_ok heap sid u tree \<longleftrightarrow>
     wf_trie (2 * STOCK_CHARS) tree \<and>
     (\<forall>p a. look tree p = Some a \<longrightarrow>
        (\<exists>tr. heap a = Some tr \<and> t_user tr = u \<and> p = trigger_path (t_type tr) (sid (t_stock tr))))"

definition heap_ok :: "(addr \<rightharpoonup> trigger) \<Rightarrow> nat \<Rightarrow> nat \<Rightarrow> nat \<Rightarrow> bool" where
  "heap_ok heap m k n \<longleftrightarrow>
     (\<forall>a tr. heap a = Some tr \<longrightarrow>
        a < m \<and> t_user tr < k \<and> t_stock tr < n \<and> t_type tr \<in> {CHR ''b'', CHR ''s''})"

definition watchers :: "(addr \<rightharpoonup> trigger) \<Rightarrow> addr \<Rightarrow> addr set" where
  "watchers heap s = {a. \<exists>tr. heap a = Some tr \<and> t_stock tr = s}"

definition rings_ok :: "(addr \<rightharpoonup> trigger) \<Rightarrow> (addr \<Rightarrow> ring) \<Rightarrow> bool" where
  "rings_ok heap rg \<longleftrightarrow> (\<forall>s. \<exists>as. ring_list (rg s) as \<and> set as = watchers heap s)"

definition sids :: "server \<Rightarrow> addr \<Rightarrow> string" where
  "sids st = (\<lambda>s. stockID (stk st s))"

definition uids :: "server \<Rightarrow> addr \<Rightarrow> string" where
  "uids st = (\<lambda>u. userID (usr st u))"

definition server_ok :: "server \<Rightarrow> bool" where
  "server_ok st \<longleftrightarrow>
     \<not> fault st \<and> queue_inv (logs st) \<and>
     stocks_ok (stocks st) (sids st) (s_fresh st) (s_ring st) \<and>
     users_ok (users st) (uids st) (u_fresh st) (u_ring st) (ul_num st) \<and>
     (\<forall>u < u_fresh st. user_wf (sids st) (s_fresh st) (usr st u)) \<and>
     (\<forall>u < u_fresh st. tree_ok (trg st) (sids st) u (tTree (usr st u))) \<and>
     heap_ok (trg st) (t_fresh st) (u_fresh st) (s_fresh st) \<and>
     rings_ok (trg st) (trig_ring st)"

lemma server_ok_init: "server_ok server_init"
  by (simp add: server_ok_def server_init_def queue_inv_init stocks_ok_def users_ok_def heap_ok_def
      rings_ok_def watchers_def trig_ring_def ring_list_def empty_ring_def)

named_theorems ok_intros "operations that keep a server state well formed"

text \<open>A change of output fields only, and a change of one user's scalar fields.\<close>

lemma server_ok_cong:
  assumes "server_ok st" "usr st' = usr st" "u_fresh st' = u_fresh st" "users st' = users st"
    "u_ring st' = u_ring st" "ul_num st' = ul_num st" "stk st' = stk st" "s_fresh st' = s_fresh st"
    "stocks st' = stocks st" "s_ring st' = s_ring st" "trg st' = trg st" "t_fresh st' = t_fresh st"
    "t_next st' = t_next st" "t_prev st' = t_prev st" "t_curr st' = t_curr st"
    "queue_inv (logs st')" "\<not> fault st'"
  shows "server_ok st'"
proof -
  have "sids st' = sids st" "uids st' = uids st" "trig_ring st' = trig_ring st"
    using assms by (simp_all add: sids_def uids_def trig_ring_def fun_eq_iff)
  then show ?thesis using assms by (simp add: server_ok_def)
qed

lemma server_ok_logs: "server_ok st \<Longrightarrow> queue_inv (logs st)"
  by (simp add: server_ok_def)

lemma server_ok_fault: "server_ok st \<Longrightarrow> \<not> fault st"
  by (simp add: server_ok_def)

lemma ok_output [ok_intros]:
  assumes "server_ok st"
  shows "server_ok (snd (getmTS e st))" "server_ok (log_line l st)" "server_ok (db_write stmts db st)"
    "server_ok (quickSend sock str st)" "server_ok (reply c body st)"
proof -
  note q = server_ok_logs [OF assms] and f = server_ok_fault [OF assms]
  show "server_ok (snd (getmTS e st))" by (rule server_ok_cong [OF assms]) (simp_all add: q f)
  show "server_ok (db_write stmts db st)" by (rule server_ok_cong [OF assms]) (simp_all add: q f)
  show "server_ok (quickSend sock str st)" by (rule server_ok_cong [OF assms]) (simp_all add: q f)
  show "server_ok (reply c body st)" by (rule server_ok_cong [OF assms]) (simp_all add: q f)
  show "server_ok (log_line l st)"
    by (rule server_ok_cong [OF assms]) (simp_all add: f, simp add: log_line_eq queue_inv_enq q)
qed

lemma ok_output' [ok_intros]:
  assumes "server_ok st"
  shows "server_ok (log_userCmd e tid cmd uid sid file funds st)"
    "server_ok (log_accTrans e tid action uid funds st)" "server_ok (fail c k st)" "server_ok (succ c st)"
  using assms by (auto simp: log_userCmd_eq log_accTrans_eq fail_def succ_def intro!: ok_output)

lemma ok_upd_user [ok_intros]:
  assumes "server_ok st"
    and "\<And>x. userID (f x) = userID x \<and> tTree (f x) = tTree x"
    and "u < u_fresh st \<Longrightarrow> user_wf (sids st) (s_fresh st) (f (usr st u))"
  shows "server_ok (upd_user u f st)"
proof -
  have "uids (upd_user u f st) = uids st" "sids (upd_user u f st) = sids st"
    "trig_ring (upd_user u f st) = trig_ring st"
    using assms(2) by (auto simp: uids_def sids_def trig_ring_def fun_eq_iff)
  with assms show ?thesis by (simp add: server_ok_def)
qed

lemma user_wf_clear [simp]: "user_wf sid n x \<Longrightarrow> user_wf sid n (clear_pending x)"
  by (simp add: user_wf_def clear_pending_def)

lemma user_wf_scalar [simp]:
  "user_wf sid n (x\<lparr>balance := b\<rparr>) \<longleftrightarrow> user_wf sid n x"
  by (simp add: user_wf_def)

lemma user_wf_pending [simp]:
  "user_wf sid n x \<Longrightarrow> s < n \<Longrightarrow> b \<in> {- 1, 0, 1} \<Longrightarrow>
   user_wf sid n (x\<lparr>prompt_time := t, stockObj := Some s, reserve := r, no := k, buysell := b\<rparr>)"
  by (simp add: user_wf_def)

lemma ok_user_wf: "server_ok st \<Longrightarrow> u < u_fresh st \<Longrightarrow> user_wf (sids st) (s_fresh st) (usr st u)"
  by (simp add: server_ok_def)

lemma ok_upd_stock [ok_intros]:
  assumes "server_ok st" "\<And>x. stockID (f x) = stockID x"
  shows "server_ok (upd_stock s f st)"
proof -
  have "uids (upd_stock s f st) = uids st" "sids (upd_stock s f st) = sids st"
    "trig_ring (upd_stock s f st) = trig_ring st"
    using assms(2) by (auto simp: uids_def sids_def trig_ring_def fun_eq_iff)
  with assms(1) show ?thesis by (simp add: server_ok_def)
qed

section \<open>Quotes\<close>

lemma ask_quote_eq:
  "ask_quote e c s st =
     upd_stock s (\<lambda>x. x\<lparr>price := fst (answers e (length (asked st))),
        ts := fst (snd (answers e (length (asked st)))),
        quote_key := snd (snd (answers e (length (asked st))))\<rparr>)
       (st\<lparr>asked := asked st @ [\<lparr>qr_stock = s, qr_userID = cuid c st, qr_transID = c_tid c,
          qr_userCmd = c_cmd c, qr_returned = c_returned c\<rparr>]\<rparr>)"
  by (simp add: ask_quote_def Let_def split: prod.splits)

lemma ask_quote_frame [simp]:
  "usr (ask_quote e c s st) = usr st" "u_fresh (ask_quote e c s st) = u_fresh st"
  "users (ask_quote e c s st) = users st" "u_ring (ask_quote e c s st) = u_ring st"
  "ul_num (ask_quote e c s st) = ul_num st" "avail (ask_quote e c s st) = avail st"
  "s_fresh (ask_quote e c s st) = s_fresh st" "stocks (ask_quote e c s st) = stocks st"
  "s_ring (ask_quote e c s st) = s_ring st" "trg (ask_quote e c s st) = trg st"
  "t_fresh (ask_quote e c s st) = t_fresh st" "t_next (ask_quote e c s st) = t_next st"
  "t_prev (ask_quote e c s st) = t_prev st" "t_curr (ask_quote e c s st) = t_curr st"
  "logs (ask_quote e c s st) = logs st" "db_sent (ask_quote e c s st) = db_sent st"
  "replies (ask_quote e c s st) = replies st" "wire (ask_quote e c s st) = wire st"
  "fault (ask_quote e c s st) = fault st" "ticks (ask_quote e c s st) = ticks st"
  "stockID (stk (ask_quote e c s st) x) = stockID (stk st x)"
  by (simp_all add: ask_quote_eq)

lemma refresh_quote_eq:
  "refresh_quote e c s st =
     (if s64 (clock e (ticks st) - ts (stk st s)) > quoteTo
      then ask_quote e c s (snd (getmTS e st)) else snd (getmTS e st))"
  by (simp add: refresh_quote_def getmTS_def Let_def)

lemma refresh_quote_frame [simp]:
  "usr (refresh_quote e c s st) = usr st" "u_fresh (refresh_quote e c s st) = u_fresh st"
  "users (refresh_quote e c s st) = users st" "u_ring (refresh_quote e c s st) = u_ring st"
  "ul_num (refresh_quote e c s st) = ul_num st" "avail (refresh_quote e c s st) = avail st"
  "s_fresh (refresh_quote e c s st) = s_fresh st" "stocks (refresh_quote e c s st) = stocks st"
  "s_ring (refresh_quote e c s st) = s_ring st" "trg (refresh_quote e c s st) = trg st"
  "t_fresh (refresh_quote e c s st) = t_fresh st" "t_next (refresh_quote e c s st) = t_next st"
  "t_prev (refresh_quote e c s st) = t_prev st" "t_curr (refresh_quote e c s st) = t_curr st"
  "logs (refresh_quote e c s st) = logs st" "db_sent (refresh_quote e c s st) = db_sent st"
  "replies (refresh_quote e c s st) = replies st" "wire (refresh_quote e c s st) = wire st"
  "fault (refresh_quote e c s st) = fault st"
  "stockID (stk (refresh_quote e c s st) x) = stockID (stk st x)"
  by (simp_all add: refresh_quote_eq)

lemma sids_quote [simp]:
  "sids (ask_quote e c s st) = sids st" "sids (refresh_quote e c s st) = sids st"
  by (simp_all add: sids_def)

lemma ok_ask_quote [ok_intros]: "server_ok st \<Longrightarrow> server_ok (ask_quote e c s st)"
  unfolding ask_quote_eq
  by (rule ok_upd_stock, rule server_ok_cong [of st]) (simp_all add: server_ok_def)

lemma ok_refresh_quote [ok_intros]: "server_ok st \<Longrightarrow> server_ok (refresh_quote e c s st)"
  by (auto simp: refresh_quote_eq intro!: ok_ask_quote ok_output)

section \<open>Stocks and holdings\<close>

lemma stock_key_valid: "validStockID (Some sid) \<Longrightarrow> stock_key sid"
  by (simp add: validStockID_iff stock_key_def)

lemma user_wf_mono:
  assumes "user_wf sid n x" "n \<le> n'" "\<And>s. s < n \<Longrightarrow> sid' s = sid s"
  shows "user_wf sid' n' x"
proof -
  have "us_stock us < n' \<and> p = stock_path (sid' (us_stock us))" if "look (usTree x) p = Some us" for p us
    using that assms unfolding user_wf_def by (metis less_le_trans)
  moreover have "s < n'" if "stockObj x = Some s" for s
    using that assms(1,2) unfolding user_wf_def by (metis less_le_trans)
  ultimately show ?thesis using assms(1) unfolding user_wf_def by simp
qed

lemma tree_ok_mono:
  assumes "tree_ok heap sid u tree" "heap_ok heap m k n" "\<And>s. s < n \<Longrightarrow> sid' s = sid s"
  shows "tree_ok heap sid' u tree"
  using assms unfolding tree_ok_def heap_ok_def by metis

lemma getStock_some:
  assumes "server_ok st" "validStockID (Some sid)" "getStock st sid = Some s"
  shows "s < s_fresh st \<and> stockID (stk st s) = sid"
proof -
  have so: "stocks_ok (stocks st) (sids st) (s_fresh st) (s_ring st)" using assms(1) by (simp add: server_ok_def)
  have k: "stock_key sid" using assms(2) by (rule stock_key_valid)
  then have "look (stocks st) (stock_path sid) = Some s"
    using assms(3) by (simp add: getStock_def trie_get_look path_of_stock)
  then have s: "s < s_fresh st" "stock_path sid = stock_path (sids st s)"
    using so by (auto simp: stocks_ok_def)
  then have "stock_key (sids st s)" using so by (auto simp: stocks_ok_def intro: stock_key_valid)
  then show ?thesis using s k stock_path_inj by (auto simp: sids_def)
qed

lemma getStock_known:
  assumes "server_ok st" "s < s_fresh st"
  shows "validStockID (Some (stockID (stk st s))) \<and> getStock st (stockID (stk st s)) = Some s"
proof -
  have "validStockID (Some (sids st s)) \<and> look (stocks st) (stock_path (sids st s)) = Some s"
    using assms by (simp add: server_ok_def stocks_ok_def)
  then show ?thesis by (auto simp: sids_def getStock_def trie_get_look path_of_stock stock_key_valid)
qed

text \<open>The outcome of \<open>getStock\<close> or else \<open>addStock\<close> on a valid identifier.\<close>

definition stock_frame :: "server \<Rightarrow> server \<Rightarrow> bool" where
  "stock_frame st st' \<longleftrightarrow>
     usr st' = usr st \<and> u_fresh st' = u_fresh st \<and> users st' = users st \<and> u_ring st' = u_ring st \<and>
     ul_num st' = ul_num st \<and> avail st' = avail st \<and> trg st' = trg st \<and> t_fresh st' = t_fresh st \<and>
     t_next st' = t_next st \<and> t_prev st' = t_prev st \<and> t_curr st' = t_curr st \<and>
     logs st' = logs st \<and> db_sent st' = db_sent st \<and> asked st' = asked st \<and> replies st' = replies st \<and>
     wire st' = wire st \<and> ticks st' = ticks st \<and> fault st' = fault st \<and>
     s_fresh st \<le> s_fresh st' \<and> (\<forall>s < s_fresh st. stk st' s = stk st s)"

lemma ensureStock_spec:
  assumes ok: "server_ok st" and v: "validStockID (Some sid)"
  obtains st' s where "ensureStock st sid = (st', Some s)" "server_ok st'" "s < s_fresh st'"
    "stockID (stk st' s) = sid" "stock_frame st st'"
    "getStock st sid = None \<Longrightarrow> stk st' s = new_stock sid"
    "getStock st sid = Some s \<or> getStock st sid = None"
proof (cases "getStock st sid")
  case (Some s)
  have "s < s_fresh st \<and> stockID (stk st s) = sid" by (rule getStock_some [OF ok v Some])
  with Some that [of st s] ok show thesis by (simp add: ensureStock_def stock_frame_def)
next
  case None
  let ?n = "s_fresh st"
  have k: "stock_key sid" using v by (rule stock_key_valid)
  have so: "stocks_ok (stocks st) (sids st) ?n (s_ring st)" using ok by (simp add: server_ok_def)
  then have wf: "wf_trie STOCK_CHARS (stocks st)" and rg: "ring_list (s_ring st) [0..<?n]"
    by (simp_all add: stocks_ok_def)
  have ln: "look (stocks st) (stock_path sid) = None"
    using None by (simp add: getStock_def trie_get_look path_of_stock [OF k])
  define tree where "tree = fst (trie_put stock_addr STOCK_CHARS (stocks st) sid ?n)"
  note spec = trie_put_spec [OF path_of_stock [OF k] stock_path_less [OF k] wf, of ?n]
  have wt: "wf_trie STOCK_CHARS tree"
    and lt: "\<And>q. look tree q = (if q = stock_path sid then Some ?n else look (stocks st) q)"
    and rt: "trie_put stock_addr STOCK_CHARS (stocks st) sid ?n = (tree, Some ?n)"
    using spec ln by (auto simp: tree_def prod_eq_iff)
  define st' where "st' = st\<lparr>stocks := tree, stk := (stk st)(?n := new_stock sid), s_fresh := Suc ?n,
      s_ring := ring_insert ?n (s_ring st)\<rparr>"
  have en: "ensureStock st sid = (st', Some ?n)"
    using None rt by (simp add: ensureStock_def addStock_def st'_def)
  have sid': "sids st' s = (if s = ?n then sid else sids st s)" for s
    by (simp add: sids_def st'_def new_stock_def)
  have rg': "ring_list (s_ring st') [0..<Suc ?n]"
    using ring_list_insert [OF rg, of ?n] by (simp add: st'_def)
  have known: "validStockID (Some (sids st s)) \<and> look (stocks st) (stock_path (sids st s)) = Some s"
    if "s < ?n" for s
    using that so by (simp add: stocks_ok_def)
  have found: "s < ?n \<and> p = stock_path (sids st s)" if "look (stocks st) p = Some s" for s p
    using that so by (simp add: stocks_ok_def)
  have known': "validStockID (Some (sids st' s)) \<and> look tree (stock_path (sids st' s)) = Some s"
    if "s < Suc ?n" for s
  proof (cases "s = ?n")
    case True
    with v ln lt show ?thesis by (simp add: sid')
  next
    case False
    with that known [of s] ln lt show ?thesis by (auto simp: sid')
  qed
  have found': "s < Suc ?n \<and> p = stock_path (sids st' s)" if "look tree p = Some s" for s p
  proof (cases "p = stock_path sid")
    case True
    with that ln lt show ?thesis by (simp add: sid')
  next
    case False
    with that lt have "look (stocks st) p = Some s" by simp
    with found [of p s] show ?thesis by (simp add: sid')
  qed
  have "stocks_ok tree (sids st') (Suc ?n) (s_ring st')"
    unfolding stocks_ok_def using wt rg' known' found' by blast
  then have "stocks_ok (stocks st') (sids st') (s_fresh st') (s_ring st')" by (simp add: st'_def)
  moreover have "user_wf (sids st') (s_fresh st') (usr st' u)" if "u < u_fresh st'" for u
  proof -
    have "user_wf (sids st) ?n (usr st u)" using ok that by (simp add: server_ok_def st'_def)
    then have "user_wf (sids st') (Suc ?n) (usr st u)" by (rule user_wf_mono) (simp_all add: sid')
    then show ?thesis by (simp add: st'_def)
  qed
  moreover have "tree_ok (trg st') (sids st') u (tTree (usr st' u))" if "u < u_fresh st'" for u
  proof -
    have "tree_ok (trg st) (sids st) u (tTree (usr st u))" "heap_ok (trg st) (t_fresh st) (u_fresh st) ?n"
      using ok that by (simp_all add: server_ok_def st'_def)
    then have "tree_ok (trg st) (sids st') u (tTree (usr st u))"
      by (rule tree_ok_mono) (simp add: sid')
    then show ?thesis by (simp add: st'_def)
  qed
  moreover have "heap_ok (trg st') (t_fresh st') (u_fresh st') (s_fresh st')"
    using ok by (auto simp: server_ok_def heap_ok_def st'_def intro: less_SucI)
  moreover have "uids st' = uids st" "trig_ring st' = trig_ring st"
    by (auto simp: uids_def trig_ring_def st'_def)
  ultimately have "server_ok st'" using ok by (simp add: server_ok_def) (simp add: st'_def)
  with that [of st' ?n] en None show thesis
    by (simp add: stock_frame_def st'_def new_stock_def)
qed

end
