(* ===== verification/Server_Ops.thy ===== *)
theory Server_Ops
  imports Server_Inv
begin

text \<open>
  What the operations on holdings and triggers do in a well-formed state: each keeps
  \<open>server_ok\<close>, and its effect is stated through \<open>getUserStock\<close> and \<open>getTrigger\<close>.
\<close>

section \<open>Holdings\<close>

lemma ok_stocks: "server_ok st \<Longrightarrow> stocks_ok (stocks st) (sids st) (s_fresh st) (s_ring st)"
  by (simp add: server_ok_def)

lemma known_key: "server_ok st \<Longrightarrow> s < s_fresh st \<Longrightarrow> stock_key (stockID (stk st s))"
  using getStock_known [of st s] by (simp add: stock_key_valid)

lemma known_inj:
  assumes "server_ok st" "s < s_fresh st" "s' < s_fresh st" "stockID (stk st s) = stockID (stk st s')"
  shows "s = s'"
proof -
  have "getStock st (stockID (stk st s)) = Some s" "getStock st (stockID (stk st s')) = Some s'"
    using getStock_known [OF assms(1,2)] getStock_known [OF assms(1,3)] by blast+
  with assms(4) show ?thesis by (metis option.inject)
qed

lemma known_path_inj:
  assumes "server_ok st" "s < s_fresh st" "s' < s_fresh st"
  shows "stock_path (stockID (stk st s)) = stock_path (stockID (stk st s')) \<longleftrightarrow> s = s'"
  using known_inj [OF assms] stock_path_inj [OF known_key [OF assms(1,2)] known_key [OF assms(1,3)]] by auto

lemma getUserStock_look:
  "server_ok st \<Longrightarrow> s < s_fresh st \<Longrightarrow>
   getUserStock st u s = look (usTree (usr st u)) (stock_path (stockID (stk st s)))"
  by (simp add: getUserStock_def trie_get_look path_of_stock known_key)

lemma getUserStock_stock:
  assumes "server_ok st" "u < u_fresh st" "s < s_fresh st" "getUserStock st u s = Some us"
  shows "us_stock us = s"
proof -
  have "us_stock us < s_fresh st \<and> stock_path (stockID (stk st s)) = stock_path (stockID (stk st (us_stock us)))"
    using assms ok_user_wf [OF assms(1,2)] by (auto simp: getUserStock_look user_wf_def sids_def)
  with known_path_inj [OF assms(1,3), of "us_stock us"] show ?thesis by simp
qed

lemma user_wf_holdings:
  assumes "user_wf sid n x" "wf_trie STOCK_CHARS tree"
    "\<And>p us. look tree p = Some us \<Longrightarrow> us_stock us < n \<and> p = stock_path (sid (us_stock us))"
  shows "user_wf sid n (x\<lparr>usTree := tree\<rparr>)"
  using assms unfolding user_wf_def by simp

lemma ok_holdings:
  assumes "server_ok st" "u < u_fresh st \<Longrightarrow> wf_trie STOCK_CHARS tree"
    "\<And>p us. u < u_fresh st \<Longrightarrow> look tree p = Some us \<Longrightarrow>
       us_stock us < s_fresh st \<and> p = stock_path (sids st (us_stock us))"
  shows "server_ok (upd_user u (\<lambda>x. x\<lparr>usTree := tree\<rparr>) st)"
  using assms(1)
proof (rule ok_upd_user)
  show "user_wf (sids st) (s_fresh st) ((usr st u)\<lparr>usTree := tree\<rparr>)" if "u < u_fresh st"
    using that assms by (intro user_wf_holdings ok_user_wf) auto
qed simp

lemma addUserStock_spec:
  assumes ok: "server_ok st" and u: "u < u_fresh st" and s: "s < s_fresh st"
  obtains tree where
    "addUserStock st u s n = (upd_user u (\<lambda>x. x\<lparr>usTree := tree\<rparr>) st,
       Some (case getUserStock st u s of None \<Rightarrow> \<lparr>num = n, us_stock = s\<rparr> | Some w \<Rightarrow> w))"
    "server_ok (upd_user u (\<lambda>x. x\<lparr>usTree := tree\<rparr>) st)"
    "\<And>q. look tree q = (if q = stock_path (stockID (stk st s)) \<and> getUserStock st u s = None
        then Some \<lparr>num = n, us_stock = s\<rparr> else look (usTree (usr st u)) q)"
proof -
  let ?sid = "stockID (stk st s)" and ?t = "usTree (usr st u)"
  have k: "stock_key ?sid" using ok s by (rule known_key)
  have x: "user_wf (sids st) (s_fresh st) (usr st u)" using ok u by (rule ok_user_wf)
  then have wf: "wf_trie STOCK_CHARS ?t" by (simp add: user_wf_def)
  define tree where "tree = fst (trie_put stock_addr STOCK_CHARS ?t ?sid \<lparr>num = n, us_stock = s\<rparr>)"
  note spec = trie_put_spec [OF path_of_stock [OF k] stock_path_less [OF k] wf, of "\<lparr>num = n, us_stock = s\<rparr>"]
  note gl = getUserStock_look [OF ok s, of u]
  have wt: "wf_trie STOCK_CHARS tree" and lt: "\<And>q. look tree q = (if q = stock_path ?sid \<and> getUserStock st u s = None
      then Some \<lparr>num = n, us_stock = s\<rparr> else look ?t q)"
    using spec by (simp_all add: tree_def gl)
  have eq: "addUserStock st u s n = (upd_user u (\<lambda>x. x\<lparr>usTree := tree\<rparr>) st,
       Some (case getUserStock st u s of None \<Rightarrow> \<lparr>num = n, us_stock = s\<rparr> | Some w \<Rightarrow> w))"
    using spec by (simp add: addUserStock_def tree_def gl case_prod_beta Let_def)
  have "server_ok (upd_user u (\<lambda>x. x\<lparr>usTree := tree\<rparr>) st)"
  proof (rule ok_holdings [OF ok wt])
    fix p us assume "look tree p = Some us"
    then show "us_stock us < s_fresh st \<and> p = stock_path (sids st (us_stock us))"
      using x s by (auto simp: lt user_wf_def sids_def split: if_splits)
  qed
  with that eq lt show thesis by blast
qed

lemma trie_upd_none: "trie_at t p = None \<Longrightarrow> trie_upd t p f = t"
proof (induction t p rule: trie_at.induct)
  case (2 t a p)
  show ?case
  proof (cases "kid t a")
    case (Some s)
    with 2 have "trie_upd s p f = s" by simp
    moreover from Some obtain ks where "kids t = Some ks" "ks[a := Some s] = ks"
      by (auto simp: kid_def list_update_same_conv split: option.splits if_splits)
    ultimately show ?thesis using Some by (cases t) simp
  qed simp
qed simp

lemma look_set_num:
  "look (trie_upd t p (set_num n)) q =
     (if q = p then map_option (\<lambda>x. x\<lparr>num := n\<rparr>) (look t p) else look t q)"
proof (cases "trie_at t p")
  case None
  then have "trie_upd t p (set_num n) = t"
    by (rule trie_upd_none)
  with None show ?thesis by (auto simp: look_def)
next
  case (Some nd)
  have nd: "look (set_num n nd) r = (if r = [] then map_option (\<lambda>x. x\<lparr>num := n\<rparr>) (obj nd) else look nd r)" for r
    by (cases r) (simp_all add: look_def set_num_def kid_def)
  show ?thesis
  proof (cases "prefix p q")
    case True
    then obtain r where "q = p @ r" by (auto simp: prefix_def)
    moreover have "look t p = obj nd" using Some by (simp add: look_def)
    ultimately show ?thesis using Some by (simp add: look_append trie_at_upd nd)
  next
    case False
    with Some show ?thesis by (auto simp: look_upd)
  qed
qed

lemma wf_set_num: "wf_trie k t \<Longrightarrow> wf_trie k (trie_upd t p (set_num n))"
proof (cases "trie_at t p")
  case (Some nd)
  assume "wf_trie k t"
  moreover from this Some have "wf_trie k nd" by (rule wf_trie_at)
  then have "wf_trie k (set_num n nd)" by (cases nd; cases "kids nd") (auto simp: set_num_def wf_trie_node)
  ultimately show ?thesis using Some by (intro wf_trie_upd)
next
  case None
  then have "trie_upd t p (set_num n) = t"
    by (rule trie_upd_none)
  then show "wf_trie k t \<Longrightarrow> wf_trie k (trie_upd t p (set_num n))" by simp
qed

lemma ok_setUserStock [ok_intros]:
  assumes ok: "server_ok st"
  shows "server_ok (setUserStock st u s n)"
proof -
  define tree where "tree = trie_upd (usTree (usr st u)) (stock_path (stockID (stk st s))) (set_num n)"
  have "setUserStock st u s n = upd_user u (\<lambda>x. x\<lparr>usTree := tree\<rparr>) st"
    by (simp add: setUserStock_def upd_user_def tree_def)
  moreover have "server_ok (upd_user u (\<lambda>x. x\<lparr>usTree := tree\<rparr>) st)"
  proof (rule ok_holdings [OF ok])
    assume u: "u < u_fresh st"
    have x: "user_wf (sids st) (s_fresh st) (usr st u)" using ok u by (rule ok_user_wf)
    then show "wf_trie STOCK_CHARS tree" by (simp add: tree_def wf_set_num user_wf_def)
    fix p us assume "look tree p = Some us"
    then obtain us' where "look (usTree (usr st u)) p = Some us'" "us_stock us = us_stock us'"
      by (auto simp: tree_def look_set_num split: if_splits)
    with x show "us_stock us < s_fresh st \<and> p = stock_path (sids st (us_stock us))"
      by (auto simp: user_wf_def)
  qed
  ultimately show ?thesis by simp
qed

lemma setUserStock_frame [simp]:
  "stk (setUserStock st u s n) = stk st" "s_fresh (setUserStock st u s n) = s_fresh st"
  "u_fresh (setUserStock st u s n) = u_fresh st" "trg (setUserStock st u s n) = trg st"
  "balance (usr (setUserStock st u s n) v) = balance (usr st v)"
  "reserve (usr (setUserStock st u s n) v) = reserve (usr st v)"
  "no (usr (setUserStock st u s n) v) = no (usr st v)"
  "buysell (usr (setUserStock st u s n) v) = buysell (usr st v)"
  "stockObj (usr (setUserStock st u s n) v) = stockObj (usr st v)"
  "userID (usr (setUserStock st u s n) v) = userID (usr st v)"
  "dbID (usr (setUserStock st u s n) v) = dbID (usr st v)"
  "tTree (usr (setUserStock st u s n) v) = tTree (usr st v)"
  "v \<noteq> u \<Longrightarrow> usr (setUserStock st u s n) v = usr st v"
  "db_sent (setUserStock st u s n) = db_sent st" "replies (setUserStock st u s n) = replies st"
  "fault (setUserStock st u s n) = fault st" "ticks (setUserStock st u s n) = ticks st"
  "asked (setUserStock st u s n) = asked st" "wire (setUserStock st u s n) = wire st"
  "logs (setUserStock st u s n) = logs st"
  by (simp_all add: setUserStock_def)

lemma getUserStock_setUserStock:
  assumes ok: "server_ok st" and s: "s < s_fresh st" and s': "s' < s_fresh st"
  shows "getUserStock (setUserStock st u s n) u' s' =
     (if u' = u \<and> s' = s then map_option (\<lambda>x. x\<lparr>num := n\<rparr>) (getUserStock st u s) else getUserStock st u' s')"
proof -
  have "getUserStock (setUserStock st u s n) u' s' =
      look (usTree (usr (setUserStock st u s n) u')) (stock_path (stockID (stk st s')))"
    using getUserStock_look [OF ok_setUserStock [OF ok, of u s n], of s' u'] s' by simp
  then show ?thesis
    using known_path_inj [OF ok s s'] getUserStock_look [OF ok s, of u] getUserStock_look [OF ok s', of u']
    by (auto simp: setUserStock_def look_set_num)
qed

section \<open>Triggers\<close>

lemma trig_ring_put:
  "trig_ring (put_trig_ring s r st) s' =
     \<lparr>r_next = r_next r, r_prev = r_prev r, r_curr = (if s' = s then r_curr r else t_curr st s')\<rparr>"
  by (simp add: trig_ring_def put_trig_ring_def)

lemma rings_ok_put:
  assumes ok: "rings_ok heap (trig_ring st)" and new: "ring_list r xs" and set: "set xs = watchers heap' s"
    and frame: "\<And>x. x \<notin> watchers heap s \<union> watchers heap' s \<Longrightarrow>
      r_next r x = t_next st x \<and> r_prev r x = t_prev st x"
    and other: "\<And>s'. s' \<noteq> s \<Longrightarrow> watchers heap' s' = watchers heap s'"
  shows "rings_ok heap' (trig_ring (put_trig_ring s r st))"
  unfolding rings_ok_def
proof
  fix s'
  show "\<exists>as. ring_list (trig_ring (put_trig_ring s r st) s') as \<and> set as = watchers heap' s'"
  proof (cases "s' = s")
    case True
    with new set show ?thesis by (intro exI [of _ xs]) (auto simp: trig_ring_put intro: ring_list_cong)
  next
    case False
    obtain as where as: "ring_list (trig_ring st s') as" "set as = watchers heap s'"
      using ok by (auto simp: rings_ok_def)
    have "ring_list (trig_ring (put_trig_ring s r st) s') as"
    proof (rule ring_list_cong [OF as(1)])
      fix x assume "x \<in> set as"
      then have "x \<in> watchers heap s'" "x \<in> watchers heap' s'" using as(2) other [OF False] by auto
      then have "x \<notin> watchers heap s \<union> watchers heap' s" using False by (auto simp: watchers_def)
      with frame show "r_next (trig_ring (put_trig_ring s r st) s') x = r_next (trig_ring st s') x \<and>
          r_prev (trig_ring (put_trig_ring s r st) s') x = r_prev (trig_ring st s') x"
        by (simp add: trig_ring_put) (simp add: trig_ring_def)
    qed (simp add: trig_ring_put False, simp add: trig_ring_def)
    with as(2) other [OF False] show ?thesis by auto
  qed
qed

lemma ok_tree: "server_ok st \<Longrightarrow> u < u_fresh st \<Longrightarrow> tree_ok (trg st) (sids st) u (tTree (usr st u))"
  by (simp add: server_ok_def)

lemma ok_heap: "server_ok st \<Longrightarrow> heap_ok (trg st) (t_fresh st) (u_fresh st) (s_fresh st)"
  by (simp add: server_ok_def)

lemma ok_rings: "server_ok st \<Longrightarrow> rings_ok (trg st) (trig_ring st)"
  by (simp add: server_ok_def)

lemma getTrigger_look:
  "server_ok st \<Longrightarrow> s < s_fresh st \<Longrightarrow> ty \<in> {CHR ''b'', CHR ''s''} \<Longrightarrow>
   getTrigger st u s ty = look (tTree (usr st u)) (trigger_path ty (stockID (stk st s)))"
  by (simp add: getTrigger_def trie_get_look path_of_trigger known_key)

lemma known_nonempty:
  assumes "server_ok st" "s < s_fresh st"
  shows "stockID (stk st s) \<noteq> []"
  using getStock_known [OF assms] by (auto simp: validStockID_iff)

lemma known_trigger_path:
  assumes "server_ok st" "s < s_fresh st" "s' < s_fresh st"
    "ty \<in> {CHR ''b'', CHR ''s''}" "ty' \<in> {CHR ''b'', CHR ''s''}"
  shows "trigger_path ty (stockID (stk st s)) = trigger_path ty' (stockID (stk st s')) \<longleftrightarrow> ty = ty' \<and> s = s'"
  using trigger_path_eq [OF known_key [OF assms(1,2)] known_key [OF assms(1,3)]
      known_nonempty [OF assms(1,2)] assms(4,5)] known_inj [OF assms(1-3)] by blast

text \<open>A trigger found in a user's tree is an allocated trigger of that user, stock and type.\<close>

lemma getTrigger_some:
  assumes "server_ok st" "u < u_fresh st" "s < s_fresh st" "ty \<in> {CHR ''b'', CHR ''s''}"
    "getTrigger st u s ty = Some a"
  obtains tr where "trg st a = Some tr" "t_user tr = u" "t_stock tr = s" "t_type tr = ty" "a < t_fresh st"
proof -
  from assms obtain tr where tr: "trg st a = Some tr" "t_user tr = u"
      "trigger_path ty (stockID (stk st s)) = trigger_path (t_type tr) (stockID (stk st (t_stock tr)))"
    using ok_tree [OF assms(1,2)] by (auto simp: getTrigger_look tree_ok_def sids_def)
  moreover have h: "t_stock tr < s_fresh st" "t_type tr \<in> {CHR ''b'', CHR ''s''}" "a < t_fresh st"
    using ok_heap [OF assms(1)] tr(1) by (auto simp: heap_ok_def)
  ultimately have "ty = t_type tr \<and> s = t_stock tr"
    using known_trigger_path [OF assms(1,3) h(1) assms(4) h(2)] by blast
  with that tr h show thesis by blast
qed

definition trig_frame :: "addr \<Rightarrow> server \<Rightarrow> server \<Rightarrow> bool" where
  "trig_frame u st st' \<longleftrightarrow>
     u_fresh st' = u_fresh st \<and> users st' = users st \<and> u_ring st' = u_ring st \<and> ul_num st' = ul_num st \<and>
     avail st' = avail st \<and> stk st' = stk st \<and> s_fresh st' = s_fresh st \<and> stocks st' = stocks st \<and>
     s_ring st' = s_ring st \<and> logs st' = logs st \<and> db_sent st' = db_sent st \<and> asked st' = asked st \<and>
     replies st' = replies st \<and> wire st' = wire st \<and> ticks st' = ticks st \<and> fault st' = fault st \<and>
     usr st' = (usr st)(u := (usr st u)\<lparr>tTree := tTree (usr st' u)\<rparr>)"

lemma user_wf_tTree [simp]: "user_wf sid n (x\<lparr>tTree := t\<rparr>) \<longleftrightarrow> user_wf sid n x"
  by (simp add: user_wf_def)

lemma trig_frame_other: "trig_frame u st st' \<Longrightarrow> v \<noteq> u \<Longrightarrow> usr st' v = usr st v"
  unfolding trig_frame_def by (metis fun_upd_apply)

lemma trig_frame_user:
  assumes "trig_frame u st st'"
  obtains x where "usr st' v = (usr st v)\<lparr>tTree := x\<rparr>"
proof (cases "v = u")
  case True
  obtain x where "usr st' = (usr st)(u := (usr st u)\<lparr>tTree := x\<rparr>)"
    using assms unfolding trig_frame_def by blast
  with True that show thesis by simp
next
  case False
  with trig_frame_other [OF assms] that [of "tTree (usr st v)"] show thesis by simp
qed

lemma trig_frame_fields:
  assumes "trig_frame u st st'"
  shows "userID (usr st' v) = userID (usr st v)" "balance (usr st' v) = balance (usr st v)"
    "dbID (usr st' v) = dbID (usr st v)" "usTree (usr st' v) = usTree (usr st v)"
    "user_wf sid n (usr st' v) = user_wf sid n (usr st v)" "buysell (usr st' v) = buysell (usr st v)"
    "reserve (usr st' v) = reserve (usr st v)" "no (usr st' v) = no (usr st v)"
    "stockObj (usr st' v) = stockObj (usr st v)" "prompt_time (usr st' v) = prompt_time (usr st v)"
    "commList (usr st' v) = commList (usr st v)"
  by (rule trig_frame_user [OF assms, of v], simp)+

lemma server_ok_trigs:
  assumes ok: "server_ok st" and fr: "trig_frame u st st'"
    and trees: "\<And>v. v < u_fresh st \<Longrightarrow> tree_ok (trg st') (sids st) v (tTree (usr st' v))"
    and heap: "heap_ok (trg st') (t_fresh st') (u_fresh st) (s_fresh st)"
    and rings: "rings_ok (trg st') (trig_ring st')"
  shows "server_ok st'"
proof -
  have "uids st' = uids st" using trig_frame_fields(1) [OF fr] by (simp add: uids_def)
  moreover have "sids st' = sids st" using fr by (simp add: trig_frame_def sids_def)
  moreover have "user_wf (sids st) (s_fresh st) (usr st' v)" if "v < u_fresh st" for v
    using ok_user_wf [OF ok that] trig_frame_fields(5) [OF fr] by simp
  moreover have "u_fresh st' = u_fresh st" "users st' = users st" "u_ring st' = u_ring st"
    "ul_num st' = ul_num st" "s_fresh st' = s_fresh st" "stocks st' = stocks st" "s_ring st' = s_ring st"
    "logs st' = logs st" "fault st' = fault st"
    using fr by (simp_all add: trig_frame_def)
  ultimately show ?thesis
    using ok trees heap rings unfolding server_ok_def by simp
qed

lemma addTrigger_known:
  assumes ok: "server_ok st" and u: "u < u_fresh st" and s: "s < s_fresh st"
    and ty: "ty \<in> {CHR ''b'', CHR ''s''}" and ex: "getTrigger st u s ty = Some a"
  obtains st' where "addTrigger st u tid s ty amnt prc = (st', Some a)" "server_ok st'"
    "trig_frame u st st'" "trg st' = trg st"
proof -
  let ?sid = "stockID (stk st s)" and ?t = "tTree (usr st u)"
  have k: "stock_key ?sid" using ok s by (rule known_key)
  have t: "tree_ok (trg st) (sids st) u ?t" using ok u by (rule ok_tree)
  then have wf: "wf_trie (2 * STOCK_CHARS) ?t" by (simp add: tree_ok_def)
  define tree where "tree = fst (trie_put (trigger_addr ty) (2 * STOCK_CHARS) ?t ?sid (t_fresh st))"
  have pt: "path_of (trigger_addr ty) ?sid = Some (trigger_path ty ?sid)"
    using path_of_trigger [OF k] ty by blast
  note spec = trie_put_spec [OF pt trigger_path_less [OF k] wf, of "t_fresh st"]
  note gl = getTrigger_look [OF ok s ty, of u]
  have wt: "wf_trie (2 * STOCK_CHARS) tree" and lt: "\<And>q. look tree q = look ?t q"
    using spec ex by (simp_all add: tree_def gl)
  define st' where "st' = upd_user u (\<lambda>x. x\<lparr>tTree := tree\<rparr>) st"
  have fr: "trig_frame u st st'" by (simp add: trig_frame_def st'_def)
  have "addTrigger st u tid s ty amnt prc = (st', Some a)"
    using spec ex by (simp add: addTrigger_def st'_def tree_def gl case_prod_beta Let_def)
  moreover have "server_ok st'"
  proof (rule server_ok_trigs [OF ok fr])
    show "tree_ok (trg st') (sids st) v (tTree (usr st' v))" if "v < u_fresh st" for v
      using ok_tree [OF ok that] wt lt by (cases "v = u") (simp_all add: st'_def tree_ok_def)
    show "heap_ok (trg st') (t_fresh st') (u_fresh st) (s_fresh st)" using ok_heap [OF ok] by (simp add: st'_def)
    have "trig_ring st' = trig_ring st" by (simp add: trig_ring_def st'_def fun_eq_iff)
    then show "rings_ok (trg st') (trig_ring st')" using ok_rings [OF ok] by (simp add: st'_def)
  qed
  ultimately show thesis using fr that [of st'] by (simp add: st'_def)
qed

lemma tree_ok_heap:
  assumes "tree_ok heap sid u t"
    and "\<And>a tr. heap a = Some tr \<Longrightarrow> t_user tr = u \<Longrightarrow>
      \<exists>tr'. heap' a = Some tr' \<and> t_user tr' = u \<and> t_type tr' = t_type tr \<and> t_stock tr' = t_stock tr"
  shows "tree_ok heap' sid u t"
  unfolding tree_ok_def
proof (intro conjI allI impI)
  show "wf_trie (2 * STOCK_CHARS) t" using assms(1) by (simp add: tree_ok_def)
  fix p a assume "look t p = Some a"
  then obtain tr where "heap a = Some tr" "t_user tr = u" "p = trigger_path (t_type tr) (sid (t_stock tr))"
    using assms(1) unfolding tree_ok_def by blast
  with assms(2) [OF this(1,2)]
  show "\<exists>tr. heap' a = Some tr \<and> t_user tr = u \<and> p = trigger_path (t_type tr) (sid (t_stock tr))" by auto
qed

lemma tree_ok_insert:
  assumes t: "tree_ok heap sid u t" and none: "heap a = None" and wt: "wf_trie (2 * STOCK_CHARS) tree"
    and lt: "\<And>q. look tree q = (if q = trigger_path (t_type tr) (sid (t_stock tr)) then Some a else look t q)"
    and u: "t_user tr = u"
  shows "tree_ok (heap(a \<mapsto> tr)) sid u tree"
  unfolding tree_ok_def
proof (intro conjI allI impI wt)
  fix p b assume b: "look tree p = Some b"
  show "\<exists>tr'. (heap(a \<mapsto> tr)) b = Some tr' \<and> t_user tr' = u \<and> p = trigger_path (t_type tr') (sid (t_stock tr'))"
  proof (cases "p = trigger_path (t_type tr) (sid (t_stock tr))")
    case True
    with b u show ?thesis by (simp add: lt)
  next
    case False
    with b have "look t p = Some b" by (simp add: lt)
    with t obtain tr' where "heap b = Some tr'" "t_user tr' = u" "p = trigger_path (t_type tr') (sid (t_stock tr'))"
      unfolding tree_ok_def by blast
    moreover from this none have "b \<noteq> a" by auto
    ultimately show ?thesis by auto
  qed
qed

lemma rings_ok_insert:
  assumes ok: "rings_ok (trg st) (trig_ring st)" and none: "trg st a = None" and s: "t_stock tr = s"
  shows "rings_ok ((trg st)(a \<mapsto> tr)) (trig_ring (put_trig_ring s (ring_insert a (trig_ring st s)) st))"
proof -
  obtain as where as: "ring_list (trig_ring st s) as" "set as = watchers (trg st) s"
    using ok by (auto simp: rings_ok_def)
  have na: "a \<notin> set as" using as none by (auto simp: watchers_def)
  have w: "watchers ((trg st)(a \<mapsto> tr)) s' =
      (if s' = s then insert a (watchers (trg st) s) else watchers (trg st) s')" for s'
    using none s by (auto simp: watchers_def)
  show ?thesis
  proof (rule rings_ok_put [OF ok])
    show "ring_list (ring_insert a (trig_ring st s)) (as @ [a])" using as(1) na by (rule ring_list_insert)
    show "set (as @ [a]) = watchers ((trg st)(a \<mapsto> tr)) s" using as w by simp
    show "r_next (ring_insert a (trig_ring st s)) x = t_next st x \<and>
        r_prev (ring_insert a (trig_ring st s)) x = t_prev st x"
      if "x \<notin> watchers (trg st) s \<union> watchers ((trg st)(a \<mapsto> tr)) s" for x
      using ring_insert_frame [OF as(1), of x a] that as(2) w by (simp add: trig_ring_def)
  qed (simp add: w)
qed

text \<open>Setting a trigger that the user does not have yet.\<close>

lemma addTrigger_new:
  assumes ok: "server_ok st" and u: "u < u_fresh st" and s: "s < s_fresh st"
    and ty: "ty \<in> {CHR ''b'', CHR ''s''}" and fresh: "getTrigger st u s ty = None"
  obtains st' where "addTrigger st u tid s ty amnt prc = (st', Some (t_fresh st))" "server_ok st'"
    "trig_frame u st st'"
    "trg st' = (trg st)(t_fresh st \<mapsto> \<lparr>t_type = ty, trig = prc, amount = amnt, t_transID = tid, t_user = u, t_stock = s\<rparr>)"
    "\<And>q. look (tTree (usr st' u)) q =
       (if q = trigger_path ty (stockID (stk st s)) then Some (t_fresh st) else look (tTree (usr st u)) q)"
    "trg st (t_fresh st) = None"
proof -
  let ?sid = "stockID (stk st s)" and ?t = "tTree (usr st u)" and ?a = "t_fresh st"
  let ?tr = "\<lparr>t_type = ty, trig = prc, amount = amnt, t_transID = tid, t_user = u, t_stock = s\<rparr>"
  have k: "stock_key ?sid" using ok s by (rule known_key)
  have t: "tree_ok (trg st) (sids st) u ?t" using ok u by (rule ok_tree)
  then have wf: "wf_trie (2 * STOCK_CHARS) ?t" by (simp add: tree_ok_def)
  define tree where "tree = fst (trie_put (trigger_addr ty) (2 * STOCK_CHARS) ?t ?sid ?a)"
  have pt: "path_of (trigger_addr ty) ?sid = Some (trigger_path ty ?sid)"
    using path_of_trigger [OF k] ty by blast
  note spec = trie_put_spec [OF pt trigger_path_less [OF k] wf, of ?a]
  note gl = getTrigger_look [OF ok s ty, of u]
  have wt: "wf_trie (2 * STOCK_CHARS) tree"
    and lt: "\<And>q. look tree q = (if q = trigger_path ty ?sid then Some ?a else look ?t q)"
    using spec fresh by (simp_all add: tree_def gl)
  define st2 where "st2 = (upd_user u (\<lambda>x. x\<lparr>tTree := tree\<rparr>) st)\<lparr>trg := (trg st)(?a \<mapsto> ?tr), t_fresh := Suc ?a\<rparr>"
  define st' where "st' = put_trig_ring s (ring_insert ?a (trig_ring st s)) st2"
  have tr2: "trig_ring st2 = trig_ring st" "trig_ring (upd_user u (\<lambda>x. x\<lparr>tTree := tree\<rparr>) st) = trig_ring st"
    by (simp_all add: trig_ring_def st2_def fun_eq_iff)
  have eq: "addTrigger st u tid s ty amnt prc = (st', Some ?a)"
    using spec fresh tr2 by (simp add: addTrigger_def st'_def st2_def tree_def gl case_prod_beta Let_def)
  have fr: "trig_frame u st st'" by (simp add: trig_frame_def st'_def st2_def)
  have trg': "trg st' = (trg st)(?a \<mapsto> ?tr)" by (simp add: st'_def st2_def)
  have none: "trg st ?a = None"
    using ok_heap [OF ok] unfolding heap_ok_def by (metis less_irrefl not_None_eq)
  have sok: "server_ok st'"
  proof (rule server_ok_trigs [OF ok fr])
    show "tree_ok (trg st') (sids st) v (tTree (usr st' v))" if v: "v < u_fresh st" for v
    proof (cases "v = u")
      case True
      have "tree_ok ((trg st)(?a \<mapsto> ?tr)) (sids st) u tree"
        using t none wt by (rule tree_ok_insert) (simp_all add: lt sids_def)
      with True trg' show ?thesis by (simp add: st'_def st2_def)
    next
      case False
      have "tree_ok (trg st') (sids st) v (tTree (usr st v))"
        using ok_tree [OF ok v] by (rule tree_ok_heap) (use none in \<open>auto simp: trg'\<close>)
      with False show ?thesis by (simp add: st'_def st2_def)
    qed
    show "heap_ok (trg st') (t_fresh st') (u_fresh st) (s_fresh st)"
      using ok_heap [OF ok] u s ty unfolding heap_ok_def trg' by (auto simp: st'_def st2_def intro: less_SucI)
    have "rings_ok ((trg st)(?a \<mapsto> ?tr)) (trig_ring (put_trig_ring s (ring_insert ?a (trig_ring st s)) st))"
      using ok_rings [OF ok] none by (rule rings_ok_insert) simp
    moreover have "trig_ring st' = trig_ring (put_trig_ring s (ring_insert ?a (trig_ring st s)) st)"
      by (simp add: st'_def st2_def trig_ring_put fun_eq_iff)
    ultimately show "rings_ok (trg st') (trig_ring st')" by (simp add: trg')
  qed
  have "look (tTree (usr st' u)) q = (if q = trigger_path ty ?sid then Some ?a else look ?t q)" for q
    by (simp add: st'_def st2_def lt)
  with that eq sok fr trg' none show thesis by blast
qed

text \<open>
  Removing a trigger. Its index loop is off by one, so freeing the empty nodes above it clears
  the child with the index of the previous character: the triggers of the same type whose
  identifier continues a proper prefix of the removed one with its last character doubled.
\<close>

definition shadowed :: "string \<Rightarrow> string \<Rightarrow> bool" where
  "shadowed sid sid' \<longleftrightarrow>
     (\<exists>j < length sid - 1. prefix (take (Suc j) sid @ [sid ! j]) sid' \<and> sid ! j \<noteq> sid ! Suc j)"

lemma rings_ok_remove:
  assumes ok: "rings_ok (trg st) (trig_ring st)" and a: "trg st a = Some tr" and s: "t_stock tr = s"
  shows "rings_ok ((trg st)(a := None)) (trig_ring (put_trig_ring s (ring_remove a (trig_ring st s)) st))"
proof -
  obtain as where as: "ring_list (trig_ring st s) as" "set as = watchers (trg st) s"
    using ok by (auto simp: rings_ok_def)
  have ain: "a \<in> set as" using as a s by (auto simp: watchers_def)
  have w: "watchers ((trg st)(a := None)) s' =
      (if s' = s then watchers (trg st) s - {a} else watchers (trg st) s')" for s'
    using a s by (auto simp: watchers_def)
  have d: "distinct as" using as(1) by (simp add: ring_list_def)
  show ?thesis
  proof (rule rings_ok_put [OF ok])
    show "ring_list (ring_remove a (trig_ring st s)) (remove1 a as)" using as(1) ain by (rule ring_list_remove)
    show "set (remove1 a as) = watchers ((trg st)(a := None)) s" using as w d by simp
    show "r_next (ring_remove a (trig_ring st s)) x = t_next st x \<and>
        r_prev (ring_remove a (trig_ring st s)) x = t_prev st x"
      if "x \<notin> watchers (trg st) s \<union> watchers ((trg st)(a := None)) s" for x
      using ring_remove_frame [OF as(1) ain, of x] that as(2) by (simp add: trig_ring_def)
  qed (simp add: w)
qed

lemma trigger_path_prefix:
  assumes "stock_key s" "stock_key t" "s \<noteq> []" "ty \<in> {CHR ''b'', CHR ''s''}" "ty' \<in> {CHR ''b'', CHR ''s''}"
    and pre: "prefix (trigger_path ty s) (trigger_path ty' t)"
  shows "ty' = ty \<and> prefix s t"
proof -
  define t' where "t' = take (length s) t"
  have len: "length (trigger_path ty s) = length s" by (simp add: trigger_path_def)
  have "trigger_path ty s = take (length s) (trigger_path ty' t)"
    using pre len by (auto simp: prefix_def)
  also have "\<dots> = trigger_path ty' t'" by (simp add: trigger_path_def take_map t'_def)
  finally have "trigger_path ty s = trigger_path ty' t'" .
  moreover have "stock_key t'" using assms(2) set_take_subset [of "length s" t]
    unfolding stock_key_def t'_def by blast
  ultimately have "ty = ty' \<and> s = t'" using trigger_path_eq [OF assms(1) _ assms(3-5)] by blast
  then show ?thesis using take_is_prefix [of "length s" t] by (simp add: t'_def)
qed

lemma stock_key_take: "stock_key s \<Longrightarrow> j < length s \<Longrightarrow> stock_key (take n s @ [s ! j])"
  unfolding stock_key_def by (metis in_set_takeD nth_mem rotate1.simps(2) set_ConsD set_rotate1)

text \<open>What the removal loses in terms of identifiers.\<close>

lemma removal_lost:
  assumes k: "stock_key sid" "stock_key sid'" and ty: "ty \<in> {CHR ''b'', CHR ''s''}" "ty' \<in> {CHR ''b'', CHR ''s''}"
    and p: "p = trigger_path ty sid" and len: "len = length sid - 1"
    and ad: "\<And>i. ad i = nat (c_int (sid ! i) - (if ty = CHR ''b'' then 65 else 65 - int STOCK_CHARS))"
    and j: "j < len" "prefix (take (length p - len + j) p @ [ad j]) (trigger_path ty' sid')"
      "ad j \<noteq> p ! (length p - len + j)"
  shows "ty' = ty \<and> shadowed sid sid'"
proof -
  have lp: "length p - len + j = Suc j" "Suc j < length sid" using j(1) by (simp_all add: p len trigger_path_def)
  have adp: "ad i = p ! i" if "i < length sid" for i using that by (simp add: p ad trigger_path_def)
  have "take (Suc j) p @ [ad j] = trigger_path ty (take (Suc j) sid @ [sid ! j])"
    using lp adp by (simp add: p trigger_path_def take_map)
  then have "prefix (trigger_path ty (take (Suc j) sid @ [sid ! j])) (trigger_path ty' sid')"
    using j(2) lp by simp
  moreover have "stock_key (take (Suc j) sid @ [sid ! j])" using k(1) lp by (intro stock_key_take) simp_all
  ultimately have "ty' = ty \<and> prefix (take (Suc j) sid @ [sid ! j]) sid'"
    using trigger_path_prefix [OF _ k(2) _ ty] by blast
  moreover have "sid ! j \<noteq> sid ! Suc j" using j(3) lp adp by (auto simp: p trigger_path_def)
  moreover have "j < length sid - 1" using lp(2) by simp
  ultimately show ?thesis unfolding shadowed_def by blast
qed

lemma tree_ok_remove:
  assumes t: "tree_ok heap sid u t" and a: "heap a = Some tr" and wt: "wf_trie (2 * STOCK_CHARS) tree"
    and gone: "look tree (trigger_path (t_type tr) (sid (t_stock tr))) = None"
    and less: "\<And>q. look tree q = look t q \<or> look tree q = None"
  shows "tree_ok (heap(a := None)) sid u tree"
  unfolding tree_ok_def
proof (intro conjI allI impI wt)
  fix p b assume b: "look tree p = Some b"
  with less [of p] have "look t p = Some b" by simp
  with t obtain tr' where tr': "heap b = Some tr'" "t_user tr' = u" "p = trigger_path (t_type tr') (sid (t_stock tr'))"
    unfolding tree_ok_def by blast
  have "b \<noteq> a"
  proof
    assume "b = a"
    with tr' a have "p = trigger_path (t_type tr) (sid (t_stock tr))" by simp
    with gone b show False by simp
  qed
  with tr' show "\<exists>tr'. (heap(a := None)) b = Some tr' \<and> t_user tr' = u \<and>
      p = trigger_path (t_type tr') (sid (t_stock tr'))" by simp
qed

lemma removeTrigger_eq:
  assumes tr: "trg st a = Some tr" and ty: "t_type tr \<in> {CHR ''b'', CHR ''s''}"
    and inn: "look (tTree (usr st (t_user tr))) (trigger_path (t_type tr) (stockID (stk st (t_stock tr)))) = Some a"
    and rem: "trie_remove (\<lambda>i. nat (c_int (stockID (stk st (t_stock tr)) ! i) -
        (if t_type tr = CHR ''b'' then 65 else 65 - int STOCK_CHARS)))
      (length (stockID (stk st (t_stock tr))) - 1) (tTree (usr st (t_user tr)))
      (trigger_path (t_type tr) (stockID (stk st (t_stock tr)))) = Some tree"
  shows "removeTrigger st a =
    (upd_user (t_user tr) (\<lambda>x. x\<lparr>tTree := tree\<rparr>)
      (put_trig_ring (t_stock tr) (ring_remove a (trig_ring st (t_stock tr))) st))\<lparr>trg := (trg st)(a := None)\<rparr>"
  using assms by (auto simp: removeTrigger_def Let_def)

lemma removeTrigger_spec:
  assumes ok: "server_ok st" and tr: "trg st a = Some tr"
    and inn: "getTrigger st (t_user tr) (t_stock tr) (t_type tr) = Some a"
  shows "server_ok (removeTrigger st a)" "trig_frame (t_user tr) st (removeTrigger st a)"
    "trg (removeTrigger st a) = (trg st)(a := None)"
    "look (tTree (usr (removeTrigger st a) (t_user tr))) (trigger_path (t_type tr) (stockID (stk st (t_stock tr)))) = None"
    "stock_key sid' \<Longrightarrow> ty' \<in> {CHR ''b'', CHR ''s''} \<Longrightarrow> (ty', sid') \<noteq> (t_type tr, stockID (stk st (t_stock tr))) \<Longrightarrow>
       look (tTree (usr (removeTrigger st a) (t_user tr))) (trigger_path ty' sid') \<noteq>
         look (tTree (usr st (t_user tr))) (trigger_path ty' sid') \<Longrightarrow>
       look (tTree (usr (removeTrigger st a) (t_user tr))) (trigger_path ty' sid') = None \<and>
       ty' = t_type tr \<and> shadowed (stockID (stk st (t_stock tr))) sid'"
proof -
  let ?u = "t_user tr" and ?s = "t_stock tr" and ?ty = "t_type tr"
  let ?sid = "stockID (stk st ?s)"
  let ?p = "trigger_path ?ty ?sid"
  define ad where "ad = (\<lambda>i. nat (c_int (?sid ! i) - (if ?ty = CHR ''b'' then 65 else 65 - int STOCK_CHARS)))"
  define len where "len = length ?sid - 1"
  have h: "?u < u_fresh st" "?s < s_fresh st" "?ty \<in> {CHR ''b'', CHR ''s''}"
    using ok_heap [OF ok] tr unfolding heap_ok_def by blast+
  note gl = getTrigger_look [OF ok h(2,3), of ?u]
  have lk: "look (tTree (usr st ?u)) ?p = Some a" using inn gl by simp
  then obtain tree where rem: "trie_remove ad len (tTree (usr st ?u)) ?p = Some tree"
    using trie_remove_some [OF lk, of ad len] by (elim exE)
  have lenp: "len \<le> length ?p" by (simp add: len_def trigger_path_def)
  have t: "tree_ok (trg st) (sids st) ?u (tTree (usr st ?u))" using ok h(1) by (rule ok_tree)
  then have wt: "wf_trie (2 * STOCK_CHARS) tree" using wf_trie_remove [OF rem lenp] by (simp add: tree_ok_def)
  note tl = trie_remove_look [OF rem lenp]
  have gone: "look tree ?p = None" and less: "look tree q = look (tTree (usr st ?u)) q \<or> look tree q = None" for q
    using tl by metis+
  define st' where "st' = (upd_user ?u (\<lambda>x. x\<lparr>tTree := tree\<rparr>)
      (put_trig_ring ?s (ring_remove a (trig_ring st ?s)) st))\<lparr>trg := (trg st)(a := None)\<rparr>"
  have eq: "removeTrigger st a = st'"
    unfolding st'_def using tr h(3) lk rem [unfolded ad_def len_def] by (rule removeTrigger_eq)
  have fr: "trig_frame ?u st st'" by (simp add: trig_frame_def st'_def)
  have trg': "trg st' = (trg st)(a := None)" by (simp add: st'_def)
  have sok: "server_ok st'"
  proof (rule server_ok_trigs [OF ok fr])
    show "tree_ok (trg st') (sids st) v (tTree (usr st' v))" if v: "v < u_fresh st" for v
    proof (cases "v = ?u")
      case True
      have "tree_ok ((trg st)(a := None)) (sids st) ?u tree"
        using t tr wt gone less by (intro tree_ok_remove [of _ _ _ "tTree (usr st ?u)" _ tr]) (simp_all add: sids_def)
      with True trg' show ?thesis by (simp add: st'_def)
    next
      case False
      have "tree_ok (trg st') (sids st) v (tTree (usr st v))"
        using ok_tree [OF ok v] by (rule tree_ok_heap) (use tr False in \<open>auto simp: trg'\<close>)
      with False show ?thesis by (simp add: st'_def)
    qed
    show "heap_ok (trg st') (t_fresh st') (u_fresh st) (s_fresh st)"
      using ok_heap [OF ok] unfolding heap_ok_def trg' by (auto simp: st'_def)
    have "rings_ok ((trg st)(a := None)) (trig_ring (put_trig_ring ?s (ring_remove a (trig_ring st ?s)) st))"
      using ok_rings [OF ok] tr by (rule rings_ok_remove) simp
    moreover have "trig_ring st' = trig_ring (put_trig_ring ?s (ring_remove a (trig_ring st ?s)) st)"
      by (simp add: st'_def trig_ring_def fun_eq_iff)
    ultimately show "rings_ok (trg st') (trig_ring st')" by (simp add: trg')
  qed
  have tt: "tTree (usr st' ?u) = tree" by (simp add: st'_def)
  show "server_ok (removeTrigger st a)" "trig_frame ?u st (removeTrigger st a)"
    "trg (removeTrigger st a) = (trg st)(a := None)"
    "look (tTree (usr (removeTrigger st a) ?u)) ?p = None"
    using sok fr trg' tt gone by (simp_all only: eq)
  assume k': "stock_key sid'" and ty': "ty' \<in> {CHR ''b'', CHR ''s''}" and ne: "(ty', sid') \<noteq> (?ty, ?sid)"
    and diff: "look (tTree (usr (removeTrigger st a) ?u)) (trigger_path ty' sid') \<noteq>
      look (tTree (usr st ?u)) (trigger_path ty' sid')"
  let ?q = "trigger_path ty' sid'"
  have "?q \<noteq> ?p"
    using trigger_path_eq [OF known_key [OF ok h(2)] k' known_nonempty [OF ok h(2)] h(3) ty'] ne by auto
  moreover have "look tree ?q \<noteq> look (tTree (usr st ?u)) ?q" using diff by (simp only: eq tt not_False_eq_True)
  ultimately obtain j where j: "j < len" "prefix (take (length ?p - len + j) ?p @ [ad j]) ?q"
      "ad j \<noteq> ?p ! (length ?p - len + j)" and n: "look tree ?q = None"
    using tl by metis
  have adi: "ad i = nat (c_int (?sid ! i) - (if ?ty = CHR ''b'' then 65 else 65 - int STOCK_CHARS))" for i
    by (simp add: ad_def)
  have "ty' = ?ty \<and> shadowed ?sid sid'"
    using known_key [OF ok h(2)] k' h(3) ty' refl len_def adi j by (rule removal_lost)
  with n show "look (tTree (usr (removeTrigger st a) ?u)) ?q = None \<and> ty' = ?ty \<and> shadowed ?sid sid'"
    by (simp only: eq tt simp_thms)
qed

lemma ok_set_trig:
  assumes ok: "server_ok st" and a: "trg st a \<noteq> None"
  shows "server_ok (set_trig a prc st)"
proof -
  obtain tr where tr: "trg st a = Some tr" using a by auto
  define st' where "st' = st\<lparr>trg := (trg st)(a \<mapsto> tr\<lparr>trig := prc\<rparr>)\<rparr>"
  have fr: "trig_frame 0 st st'" by (simp add: trig_frame_def st'_def)
  have trg': "trg st' = (trg st)(a \<mapsto> tr\<lparr>trig := prc\<rparr>)" by (simp add: st'_def)
  have "server_ok st'"
  proof (rule server_ok_trigs [OF ok fr])
    show "tree_ok (trg st') (sids st) v (tTree (usr st' v))" if v: "v < u_fresh st" for v
    proof -
      have "tree_ok (trg st') (sids st) v (tTree (usr st v))"
        using ok_tree [OF ok v] by (rule tree_ok_heap) (use tr in \<open>auto simp: trg'\<close>)
      then show ?thesis by (simp add: st'_def)
    qed
    show "heap_ok (trg st') (t_fresh st') (u_fresh st) (s_fresh st)"
      using ok_heap [OF ok] tr unfolding heap_ok_def trg' by (auto simp: st'_def)
    have "watchers (trg st') = watchers (trg st)" using tr by (auto simp: watchers_def trg' fun_eq_iff)
    moreover have "trig_ring st' = trig_ring st" by (simp add: trig_ring_def st'_def fun_eq_iff)
    ultimately show "rings_ok (trg st') (trig_ring st')" using ok_rings [OF ok] by (simp add: rings_ok_def)
  qed
  with tr show ?thesis by (simp add: set_trig_def st'_def)
qed

end
