(* ===== verification/Accounts.thy ===== *)
theory Accounts
  imports Server_Ops
begin

text \<open>
  What the trading commands promise: an account with exact integers, and for every command the
  new account and the body of the response. A user of the server state represents an account;
  \<open>account_of\<close> reads it off the object, its two trees and the trigger heap. The amounts are not
  negative; \<open>cdiv\<close> is then the integer quotient.
\<close>

section \<open>The abstract account\<close>

datatype side = Buying | Selling

datatype pending = Pending (p_side: side) (p_stock: string) (p_count: int) (p_cash: int) (p_time: int)

record account =
  a_bal :: int
  a_pend :: "pending option"
  a_held :: "string \<rightharpoonup> int"
  a_order :: "char \<times> string \<rightharpoonup> int \<times> int"

abbreviation holding :: "account \<Rightarrow> string \<Rightarrow> int" where
  "holding a sid \<equiv> (case a_held a sid of None \<Rightarrow> 0 | Some n \<Rightarrow> n)"

definition refuse :: "int \<Rightarrow> string" where
  "refuse code = ''FAIL,'' @ show_long code"

definition offer :: "string \<Rightarrow> int \<Rightarrow> int \<Rightarrow> string" where
  "offer body p t = body @ '','' @ show_long p @ '','' @ show_long t"

definition add_spec :: "int \<Rightarrow> account \<Rightarrow> account \<times> string" where
  "add_spec m a = (a\<lparr>a_bal := a_bal a + m\<rparr>, ''SUCC'')"

definition buy_spec :: "string \<Rightarrow> int \<Rightarrow> int \<Rightarrow> int \<Rightarrow> account \<Rightarrow> account \<times> string" where
  "buy_spec sid m p t a =
     (if a_pend a \<noteq> None then (a, refuse (- 10))
      else if a_bal a < m then (a, refuse (- 14))
      else if p < 1 then (a, refuse (- 21))
      else if m < p then (a, offer (refuse (- 11)) p t)
      else (a\<lparr>a_pend := Some (Pending Buying sid (m div p) (p * (m div p)) t)\<rparr>,
            offer (''SUCC,'' @ show_long (m div p)) p t))"

definition commit_buy_spec :: "int \<Rightarrow> account \<Rightarrow> account \<times> string" where
  "commit_buy_spec now a =
     (case a_pend a of
        Some (Pending Buying sid n cash t) \<Rightarrow>
          if now - t > quoteTo then (a\<lparr>a_pend := None\<rparr>, refuse (- 13))
          else (a\<lparr>a_bal := a_bal a - cash, a_held := (a_held a)(sid \<mapsto> holding a sid + n), a_pend := None\<rparr>, ''SUCC'')
      | _ \<Rightarrow> (a, refuse (- 12)))"

definition cancel_spec :: "side \<Rightarrow> account \<Rightarrow> account \<times> string" where
  "cancel_spec sd a =
     (if map_option p_side (a_pend a) = Some sd then (a\<lparr>a_pend := None\<rparr>, ''SUCC'')
      else (a, refuse (- 12)))"

definition sell_spec :: "string \<Rightarrow> int \<Rightarrow> int \<Rightarrow> int \<Rightarrow> account \<Rightarrow> account \<times> string" where
  "sell_spec sid m p t a =
     (if holding a sid = 0 then (a, refuse (- 15))
      else if a_pend a \<noteq> None then (a, refuse (- 10))
      else if p < 1 then (a, refuse (- 21))
      else (let n = min (holding a sid) (m div p + 1) in
        (a\<lparr>a_pend := Some (Pending Selling sid n (p * n) t)\<rparr>,
         offer (''SUCC,'' @ show_long n) p t)))"

definition commit_sell_spec :: "int \<Rightarrow> account \<Rightarrow> account \<times> string" where
  "commit_sell_spec now a =
     (case a_pend a of
        Some (Pending Selling sid n cash t) \<Rightarrow>
          if now - t > quoteTo then (a\<lparr>a_pend := None\<rparr>, refuse (- 13))
          else (case a_held a sid of
                  None \<Rightarrow> (a, refuse (- 15))
                | Some k \<Rightarrow>
                    (a\<lparr>a_bal := a_bal a + cash, a_held := (a_held a)(sid \<mapsto> k - n), a_pend := None\<rparr>, ''SUCC''))
      | _ \<Rightarrow> (a, refuse (- 12)))"

definition set_buy_spec :: "string \<Rightarrow> int \<Rightarrow> account \<Rightarrow> account \<times> string" where
  "set_buy_spec sid m a =
     (if a_pend a \<noteq> None then (a, refuse (- 10))
      else if a_bal a < m then (a, refuse (- 14))
      else if a_order a (CHR ''b'', sid) \<noteq> None then (a, refuse (- 16))
      else (a\<lparr>a_bal := a_bal a - m, a_order := (a_order a)((CHR ''b'', sid) \<mapsto> (m, 0))\<rparr>, ''SUCC''))"

definition cancel_set_buy_spec :: "string \<Rightarrow> account \<Rightarrow> account \<times> string" where
  "cancel_set_buy_spec sid a =
     (case a_order a (CHR ''b'', sid) of
        None \<Rightarrow> (a, refuse (- 22))
      | Some (m, _) \<Rightarrow>
          (a\<lparr>a_bal := a_bal a + m, a_order := (a_order a)((CHR ''b'', sid) := None)\<rparr>, ''SUCC''))"

definition set_trigger_spec :: "char \<Rightarrow> string \<Rightarrow> int \<Rightarrow> account \<Rightarrow> account \<times> string" where
  "set_trigger_spec ty sid p a =
     (case a_order a (ty, sid) of
        None \<Rightarrow> (a, refuse (- 22))
      | Some (m, _) \<Rightarrow> (a\<lparr>a_order := (a_order a)((ty, sid) \<mapsto> (m, p))\<rparr>, ''SUCC''))"

definition set_sell_spec :: "string \<Rightarrow> int \<Rightarrow> account \<Rightarrow> account \<times> string" where
  "set_sell_spec sid m a =
     (if a_pend a \<noteq> None then (a, refuse (- 10))
      else if a_held a sid = None then (a, refuse (- 15))
      else if a_order a (CHR ''s'', sid) \<noteq> None then (a, refuse (- 16))
      else (a\<lparr>a_order := (a_order a)((CHR ''s'', sid) \<mapsto> (m, 0))\<rparr>, ''SUCC''))"

definition cancel_set_sell_spec :: "string \<Rightarrow> account \<Rightarrow> account \<times> string" where
  "cancel_set_sell_spec sid a =
     (case a_order a (CHR ''s'', sid) of
        None \<Rightarrow> (a, refuse (- 22))
      | Some _ \<Rightarrow> (a\<lparr>a_order := (a_order a)((CHR ''s'', sid) := None)\<rparr>, ''SUCC''))"

text \<open>
  Cancelling when other orders may be lost with the cancelled one: \<open>ord\<close> are the orders that remain.
\<close>

definition cancel_buy_losing :: "(char \<times> string \<rightharpoonup> int \<times> int) \<Rightarrow> string \<Rightarrow> account \<Rightarrow> account \<times> string" where
  "cancel_buy_losing ord sid a =
     (case a_order a (CHR ''b'', sid) of
        None \<Rightarrow> (a, refuse (- 22))
      | Some (m, _) \<Rightarrow> (a\<lparr>a_bal := a_bal a + m, a_order := ord\<rparr>, ''SUCC''))"

definition cancel_sell_losing :: "(char \<times> string \<rightharpoonup> int \<times> int) \<Rightarrow> string \<Rightarrow> account \<Rightarrow> account \<times> string" where
  "cancel_sell_losing ord sid a =
     (case a_order a (CHR ''s'', sid) of
        None \<Rightarrow> (a, refuse (- 22))
      | Some _ \<Rightarrow> (a\<lparr>a_order := ord\<rparr>, ''SUCC''))"

lemma cancel_losing_exact:
  "cancel_buy_losing ((a_order a)((CHR ''b'', sid) := None)) sid a = cancel_set_buy_spec sid a"
  "cancel_sell_losing ((a_order a)((CHR ''s'', sid) := None)) sid a = cancel_set_sell_spec sid a"
  by (simp_all add: cancel_buy_losing_def cancel_set_buy_spec_def cancel_sell_losing_def cancel_set_sell_spec_def)

section \<open>Sound accounts\<close>

text \<open>
  No debt: the balance covers a pending buy, nothing negative is held, pending or on order.
\<close>

fun pend_ok :: "account \<Rightarrow> pending option \<Rightarrow> bool" where
  "pend_ok a None \<longleftrightarrow> True"
| "pend_ok a (Some (Pending Buying sid n cash t)) \<longleftrightarrow> 0 < n \<and> 0 < cash \<and> cash \<le> a_bal a"
| "pend_ok a (Some (Pending Selling sid n cash t)) \<longleftrightarrow> 0 < n \<and> 0 < cash \<and> n \<le> holding a sid"

definition sound :: "account \<Rightarrow> bool" where
  "sound a \<longleftrightarrow>
     0 \<le> a_bal a \<and> (\<forall>sid n. a_held a sid = Some n \<longrightarrow> 0 \<le> n) \<and>
     (\<forall>k m p. a_order a k = Some (m, p) \<longrightarrow> 0 \<le> m) \<and> pend_ok a (a_pend a)"

lemma pend_ok_mono:
  "pend_ok a p \<Longrightarrow> a_bal a \<le> a_bal b \<Longrightarrow> a_held b = a_held a \<Longrightarrow> pend_ok b p"
  by (induction a p rule: pend_ok.induct) auto

lemma pend_ok_fields [simp]:
  "pend_ok (a\<lparr>a_order := x\<rparr>) p \<longleftrightarrow> pend_ok a p" "pend_ok (a\<lparr>a_pend := q\<rparr>) p \<longleftrightarrow> pend_ok a p"
  by (induction a p rule: pend_ok.induct) simp_all

lemma sound_drop_order: "sound a \<Longrightarrow> sound (a\<lparr>a_order := (a_order a)(k := None)\<rparr>)"
  by (simp add: sound_def)

lemma sound_new_order: "sound a \<Longrightarrow> 0 \<le> m \<Longrightarrow> sound (a\<lparr>a_order := (a_order a)(k \<mapsto> (m, p))\<rparr>)"
  by (simp add: sound_def)

lemma sound_credit:
  assumes "sound a" "0 \<le> m"
  shows "sound (a\<lparr>a_bal := a_bal a + m\<rparr>)"
  using assms pend_ok_mono [of a "a_pend a" "a\<lparr>a_bal := a_bal a + m\<rparr>"] by (simp add: sound_def)

lemma sound_order: "sound a \<Longrightarrow> a_order a k = Some (m, p) \<Longrightarrow> 0 \<le> m"
  unfolding sound_def by blast

lemma sound_holding: "sound a \<Longrightarrow> 0 \<le> holding a sid"
  by (auto simp: sound_def split: option.splits)

lemma sound_no_pend: "sound a \<Longrightarrow> sound (a\<lparr>a_pend := None\<rparr>)"
  by (simp add: sound_def)

lemma sound_add: "sound a \<Longrightarrow> 0 \<le> m \<Longrightarrow> sound (fst (add_spec m a))"
  by (simp add: add_spec_def sound_credit)

lemma sound_buy:
  assumes "sound a"
  shows "sound (fst (buy_spec sid m p t a))"
proof -
  have "0 < m div p \<and> 0 < p * (m div p) \<and> p * (m div p) \<le> m" if "1 \<le> p" "p \<le> m"
  proof -
    have "0 < m div p" using that pos_imp_zdiv_pos_iff [of p m] by simp
    moreover have "p * (m div p) \<le> m"
      using that mult_div_mod_eq [of p m] pos_mod_sign [of p m] by linarith
    ultimately show ?thesis using that by simp
  qed
  with assms show ?thesis by (auto simp: sound_def buy_spec_def)
qed

lemma pend_cases:
  obtains "a_pend a = None" | sid n cash t where "a_pend a = Some (Pending Buying sid n cash t)"
  | sid n cash t where "a_pend a = Some (Pending Selling sid n cash t)"
  by (metis (full_types) not_None_eq pending.exhaust side.exhaust)

lemma sound_commit_buy:
  assumes "sound a"
  shows "sound (fst (commit_buy_spec now a))"
proof (cases rule: pend_cases [of a])
  case (2 sid n cash t)
  with assms sound_holding [OF assms, of sid] show ?thesis
    by (auto simp: sound_def commit_buy_spec_def)
qed (use assms in \<open>simp_all add: commit_buy_spec_def\<close>)

lemma sound_cancel: "sound a \<Longrightarrow> sound (fst (cancel_spec sd a))"
  by (simp add: cancel_spec_def sound_no_pend)

lemma sound_sell:
  assumes "sound a" "0 \<le> m"
  shows "sound (fst (sell_spec sid m p t a))"
proof -
  have "0 \<le> m div p" if "1 \<le> p" using that assms(2) by (simp add: pos_imp_zdiv_nonneg_iff)
  moreover have "0 \<le> holding a sid" using assms(1) by (rule sound_holding)
  ultimately have "0 < min (holding a sid) (m div p + 1)" if "1 \<le> p" "holding a sid \<noteq> 0"
    using that by (simp add: min_def)
  with assms show ?thesis by (auto simp: sound_def sell_spec_def Let_def)
qed

lemma sound_commit_sell:
  assumes "sound a"
  shows "sound (fst (commit_sell_spec now a))"
proof (cases rule: pend_cases [of a])
  case (3 sid n cash t)
  with assms show ?thesis by (auto simp: sound_def commit_sell_spec_def split: option.splits)
qed (use assms in \<open>simp_all add: commit_sell_spec_def\<close>)

lemma sound_set_buy:
  assumes "sound a" "0 \<le> m"
  shows "sound (fst (set_buy_spec sid m a))"
  using assms by (simp add: sound_def set_buy_spec_def)

lemma sound_cancel_set_buy:
  assumes "sound a"
  shows "sound (fst (cancel_set_buy_spec sid a))"
proof (cases "a_order a (CHR ''b'', sid)")
  case (Some mp)
  then have "0 \<le> fst mp" using sound_order [OF assms, of _ "fst mp" "snd mp"] by simp
  with assms have "sound (a\<lparr>a_bal := a_bal a + fst mp\<rparr>)" by (rule sound_credit)
  from sound_drop_order [OF this, of "(CHR ''b'', sid)"] Some show ?thesis
    by (simp add: cancel_set_buy_spec_def split_beta)
qed (use assms in \<open>simp add: cancel_set_buy_spec_def\<close>)

lemma sound_set_trigger:
  assumes "sound a"
  shows "sound (fst (set_trigger_spec ty sid p a))"
proof (cases "a_order a (ty, sid)")
  case (Some mp)
  then have "0 \<le> fst mp" using sound_order [OF assms, of _ "fst mp" "snd mp"] by simp
  with assms Some show ?thesis by (simp add: set_trigger_spec_def split_beta sound_new_order)
qed (use assms in \<open>simp add: set_trigger_spec_def\<close>)

lemma sound_set_sell: "sound a \<Longrightarrow> 0 \<le> m \<Longrightarrow> sound (fst (set_sell_spec sid m a))"
  by (simp add: set_sell_spec_def sound_new_order)

lemma sound_cancel_set_sell: "sound a \<Longrightarrow> sound (fst (cancel_set_sell_spec sid a))"
  by (cases "a_order a (CHR ''s'', sid)") (simp_all add: cancel_set_sell_spec_def sound_drop_order)

end
