(* ===== verification/Refinement.thy ===== *)
theory Refinement
  imports Accounts
begin

text \<open>
  The abstraction of a user to an account, the effect of every state operation on it, and the
  relation between a command and its abstract specification.
\<close>

section \<open>The account of a user\<close>

definition pending_of :: "server \<Rightarrow> user \<Rightarrow> pending option" where
  "pending_of st x =
     (if buysell x = 0 then None
      else map_option (\<lambda>s. Pending (if buysell x = 1 then Buying else Selling) (stockID (stk st s))
             (no x) (reserve x) (prompt_time x)) (stockObj x))"

definition held_of :: "user_stock trie \<Rightarrow> string \<rightharpoonup> int" where
  "held_of t sid = (if validStockID (Some sid) then map_option num (trie_get stock_addr t sid) else None)"

definition orders_of :: "(addr \<rightharpoonup> trigger) \<Rightarrow> addr trie \<Rightarrow> char \<times> string \<rightharpoonup> int \<times> int" where
  "orders_of heap t k =
     (if fst k \<in> {CHR ''b'', CHR ''s''} \<and> validStockID (Some (snd k))
      then Option.bind (trie_get (trigger_addr (fst k)) t (snd k))
             (\<lambda>a. map_option (\<lambda>tr. (amount tr, trig tr)) (heap a))
      else None)"

definition account_of :: "server \<Rightarrow> addr \<Rightarrow> account" where
  "account_of st u =
     \<lparr>a_bal = balance (usr st u), a_pend = pending_of st (usr st u), a_held = held_of (usTree (usr st u)),
      a_order = orders_of (trg st) (tTree (usr st u))\<rparr>"

lemma account_sel [simp]:
  "a_bal (account_of st u) = balance (usr st u)"
  "a_pend (account_of st u) = pending_of st (usr st u)"
  "a_held (account_of st u) = held_of (usTree (usr st u))"
  "a_order (account_of st u) = orders_of (trg st) (tTree (usr st u))"
  by (simp_all add: account_of_def)

lemma held_known:
  "server_ok st \<Longrightarrow> s < s_fresh st \<Longrightarrow>
   held_of (usTree (usr st u)) (stockID (stk st s)) = map_option num (getUserStock st u s)"
  using getStock_known [of st s] by (simp add: held_of_def getUserStock_def)

lemma orders_known:
  assumes "server_ok st" "u < u_fresh st" "s < s_fresh st" "ty \<in> {CHR ''b'', CHR ''s''}"
  shows "orders_of (trg st) (tTree (usr st u)) (ty, stockID (stk st s)) =
    map_option (\<lambda>a. (amount (the (trg st a)), trig (the (trg st a)))) (getTrigger st u s ty)"
proof (cases "getTrigger st u s ty")
  case None
  then show ?thesis by (simp add: orders_of_def getTrigger_def)
next
  case (Some a)
  obtain tr where "trg st a = Some tr" using getTrigger_some [OF assms Some] by metis
  with Some assms(4) getStock_known [OF assms(1,3)] show ?thesis
    by (simp add: orders_of_def getTrigger_def)
qed

section \<open>Quiet steps\<close>

text \<open>
  Steps that leave every account and the responses alone: log lines, clock reads, statements,
  quotes, new stocks.
\<close>

definition quiet :: "server \<Rightarrow> server \<Rightarrow> bool" where
  "quiet st st' \<longleftrightarrow>
     server_ok st' \<and> u_fresh st' = u_fresh st \<and> usr st' = usr st \<and> trg st' = trg st \<and>
     t_fresh st' = t_fresh st \<and> replies st' = replies st \<and> s_fresh st \<le> s_fresh st' \<and>
     (\<forall>s < s_fresh st. stockID (stk st' s) = stockID (stk st s))"

lemma quiet_ok: "quiet st st' \<Longrightarrow> server_ok st'"
  by (simp add: quiet_def)

lemma quiet_simps:
  assumes "quiet st st'"
  shows "u_fresh st' = u_fresh st" "usr st' = usr st" "trg st' = trg st" "t_fresh st' = t_fresh st"
    "replies st' = replies st"
  using assms by (simp_all add: quiet_def)

lemma quiet_known:
  "quiet st st' \<Longrightarrow> s < s_fresh st \<Longrightarrow> s < s_fresh st' \<and> stockID (stk st' s) = stockID (stk st s)"
  by (simp add: quiet_def)

lemma quiet_refl: "server_ok st \<Longrightarrow> quiet st st"
  by (simp add: quiet_def)

lemma quiet_trans: "quiet st st' \<Longrightarrow> quiet st' st'' \<Longrightarrow> quiet st st''"
  unfolding quiet_def by auto

lemma quiet_pending:
  assumes "server_ok st" "u < u_fresh st" "quiet st st'"
  shows "pending_of st' (usr st u) = pending_of st (usr st u)"
proof -
  have "stockID (stk st' s) = stockID (stk st s)" if "stockObj (usr st u) = Some s" for s
    using ok_user_wf [OF assms(1,2)] that quiet_known [OF assms(3)] by (simp add: user_wf_def)
  then show ?thesis by (cases "stockObj (usr st u)") (auto simp: pending_of_def)
qed

lemma quiet_account:
  assumes "server_ok st" "u < u_fresh st" "quiet st st'"
  shows "account_of st' u = account_of st u"
  using quiet_pending [OF assms] quiet_simps [OF assms(3)] by (simp add: account_of_def)

lemma quiet_getmTS: "server_ok st \<Longrightarrow> quiet st (snd (getmTS e st))"
  using ok_output(1) [of st] by (simp add: quiet_def)

lemma quiet_log_userCmd: "server_ok st \<Longrightarrow> quiet st (log_userCmd e tid cmd uid sid file funds st)"
  using ok_output'(1) [of st] by (simp add: quiet_def)

lemma quiet_log_accTrans: "server_ok st \<Longrightarrow> quiet st (log_accTrans e tid action uid funds st)"
  using ok_output'(2) [of st] by (simp add: quiet_def)

lemma quiet_log_line: "server_ok st \<Longrightarrow> quiet st (log_line l st)"
  using ok_output(2) [of st] by (simp add: quiet_def)

lemma quiet_db_write: "server_ok st \<Longrightarrow> quiet st (db_write stmts db st)"
  using ok_output(3) [of st] by (simp add: quiet_def)

lemma quiet_ask_quote: "server_ok st \<Longrightarrow> quiet st (ask_quote e c s st)"
  using ok_ask_quote [of st] by (simp add: quiet_def)

lemma quiet_refresh_quote: "server_ok st \<Longrightarrow> quiet st (refresh_quote e c s st)"
  using ok_refresh_quote [of st] by (simp add: quiet_def)

lemma quiet_ensureStock:
  assumes "server_ok st" "validStockID (Some sid)"
  obtains st' s where "ensureStock st sid = (st', Some s)" "quiet st st'" "s < s_fresh st'"
    "stockID (stk st' s) = sid"
proof -
  obtain st' s where "ensureStock st sid = (st', Some s)" "server_ok st'" "s < s_fresh st'"
      "stockID (stk st' s) = sid" "stock_frame st st'"
    using ensureStock_spec [OF assms] by metis
  with that [of st' s] show thesis by (simp add: quiet_def stock_frame_def)
qed

section \<open>Steps on one account\<close>

text \<open>\<open>turns st u acc st'\<close>: a step of user \<open>u\<close> makes its account \<open>acc\<close> and changes no other.\<close>

definition turns :: "server \<Rightarrow> addr \<Rightarrow> account \<Rightarrow> server \<Rightarrow> bool" where
  "turns st u acc st' \<longleftrightarrow>
     server_ok st' \<and> u_fresh st' = u_fresh st \<and> replies st' = replies st \<and> s_fresh st \<le> s_fresh st' \<and>
     (\<forall>s < s_fresh st. stockID (stk st' s) = stockID (stk st s)) \<and>
     account_of st' u = acc \<and> (\<forall>v < u_fresh st. v \<noteq> u \<longrightarrow> account_of st' v = account_of st v) \<and>
     userID (usr st' u) = userID (usr st u)"

lemma turns_quiet:
  assumes "server_ok st" "u < u_fresh st" "quiet st st'"
  shows "turns st u (account_of st u) st'"
  using assms(3) quiet_account [OF assms(1) _ assms(3)] assms(2) by (simp add: turns_def quiet_def)

lemma turnsD:
  assumes "turns st u acc st'"
  shows "server_ok st'" "u_fresh st' = u_fresh st" "replies st' = replies st" "s_fresh st \<le> s_fresh st'"
    "s < s_fresh st \<Longrightarrow> stockID (stk st' s) = stockID (stk st s)" "account_of st' u = acc"
    "v < u_fresh st \<Longrightarrow> v \<noteq> u \<Longrightarrow> account_of st' v = account_of st v"
    "userID (usr st' u) = userID (usr st u)"
  using assms unfolding turns_def by blast+

lemma turns_trans:
  assumes "turns st u a st'" "turns st' u b st''"
  shows "turns st u b st''"
proof -
  note d = turnsD [OF assms(1)] and d' = turnsD [OF assms(2)]
  have "stockID (stk st'' s) = stockID (stk st s)" if "s < s_fresh st" for s
    using d'(5) [OF less_le_trans [OF that d(4)]] d(5) [OF that] by (rule trans)
  moreover have "account_of st'' v = account_of st v" if "v < u_fresh st" "v \<noteq> u" for v
  proof -
    have "v < u_fresh st'" using that(1) d(2) by (simp only:)
    from d'(7) [OF this that(2)] d(7) [OF that] show ?thesis by (rule trans)
  qed
  moreover have "u_fresh st'' = u_fresh st" using d'(2) d(2) by (rule trans)
  moreover have "replies st'' = replies st" using d'(3) d(3) by (rule trans)
  moreover have "s_fresh st \<le> s_fresh st''" using d(4) d'(4) by (rule le_trans)
  moreover have "userID (usr st'' u) = userID (usr st u)" using d'(8) d(8) by (rule trans)
  ultimately show ?thesis using d'(1) d'(6) unfolding turns_def by blast
qed

lemma turns_then_quiet:
  assumes "turns st u a st'" "quiet st' st''" "u < u_fresh st"
  shows "turns st u a st''"
proof -
  have "turns st' u (account_of st' u) st''"
    using turnsD(1,2) [OF assms(1)] assms(2,3) by (intro turns_quiet) simp_all
  then have "turns st u (account_of st' u) st''" by (rule turns_trans [OF assms(1)])
  then show ?thesis using turnsD(6) [OF assms(1)] by (simp only:)
qed

lemma quiet_then_turns:
  assumes "server_ok st" "u < u_fresh st" "quiet st st'" "turns st' u a st''"
  shows "turns st u a st''"
  using turns_trans [OF turns_quiet [OF assms(1-3)] assms(4)] .

lemma turns_upd_user:
  assumes "server_ok (upd_user u f st)" "\<And>x. userID (f x) = userID x" "account_of (upd_user u f st) u = acc"
  shows "turns st u acc (upd_user u f st)"
proof -
  have "account_of (upd_user u f st) v = account_of st v" if "v \<noteq> u" for v
    using that by (simp add: account_of_def pending_of_def)
  with assms show ?thesis unfolding turns_def by simp
qed

lemma turns_balance:
  assumes "server_ok st" "u < u_fresh st"
  shows "turns st u ((account_of st u)\<lparr>a_bal := f (usr st u)\<rparr>) (upd_user u (\<lambda>x. x\<lparr>balance := f x\<rparr>) st)"
proof (rule turns_upd_user)
  show "server_ok (upd_user u (\<lambda>x. x\<lparr>balance := f x\<rparr>) st)"
    using assms by (intro ok_upd_user) (simp_all add: ok_user_wf)
qed (simp_all add: account_of_def pending_of_def)

lemma turns_clear:
  assumes "server_ok st" "u < u_fresh st"
  shows "turns st u ((account_of st u)\<lparr>a_pend := None\<rparr>) (upd_user u clear_pending st)"
proof (rule turns_upd_user)
  have "userID (clear_pending x) = userID x \<and> tTree (clear_pending x) = tTree x" for x
    by (simp add: clear_pending_def)
  then show "server_ok (upd_user u clear_pending st)"
    using assms(1) ok_user_wf [OF assms] by (intro ok_upd_user user_wf_clear)
qed (simp_all add: account_of_def pending_of_def clear_pending_def)

lemma turns_pending:
  assumes "server_ok st" "u < u_fresh st" "s < s_fresh st" "b \<in> {1, - 1}"
  shows "turns st u ((account_of st u)\<lparr>a_pend := Some (Pending (if b = 1 then Buying else Selling)
      (stockID (stk st s)) k r t)\<rparr>)
    (upd_user u (\<lambda>x. x\<lparr>prompt_time := t, stockObj := Some s, reserve := r, no := k, buysell := b\<rparr>) st)"
proof (rule turns_upd_user)
  show "server_ok (upd_user u (\<lambda>x. x\<lparr>prompt_time := t, stockObj := Some s, reserve := r, no := k, buysell := b\<rparr>) st)"
    using assms by (intro ok_upd_user) (auto intro!: user_wf_pending ok_user_wf)
qed (use assms in \<open>auto simp: account_of_def pending_of_def\<close>)

lemma held_of_path:
  "held_of t sid = (if validStockID (Some sid) then map_option num (look t (stock_path sid)) else None)"
  using stock_key_valid [of sid] by (simp add: held_of_def trie_get_look path_of_stock)

lemma valid_path_inj:
  "validStockID (Some sid) \<Longrightarrow> validStockID (Some sid') \<Longrightarrow> stock_path sid = stock_path sid' \<longleftrightarrow> sid = sid'"
  by (simp add: stock_path_inj stock_key_valid)

lemma turns_hold_new:
  assumes ok: "server_ok st" and u: "u < u_fresh st" and s: "s < s_fresh st" and none: "getUserStock st u s = None"
  obtains st' where "addUserStock st u s n = (st', Some \<lparr>num = n, us_stock = s\<rparr>)"
    "turns st u ((account_of st u)\<lparr>a_held := (held_of (usTree (usr st u)))(stockID (stk st s) \<mapsto> n)\<rparr>) st'"
    "balance (usr st' u) = balance (usr st u)" "reserve (usr st' u) = reserve (usr st u)"
proof -
  obtain tree where t: "addUserStock st u s n = (upd_user u (\<lambda>x. x\<lparr>usTree := tree\<rparr>) st, Some \<lparr>num = n, us_stock = s\<rparr>)"
      "server_ok (upd_user u (\<lambda>x. x\<lparr>usTree := tree\<rparr>) st)"
      "\<And>q. look tree q = (if q = stock_path (stockID (stk st s)) then Some \<lparr>num = n, us_stock = s\<rparr>
        else look (usTree (usr st u)) q)"
    using addUserStock_spec [OF ok u s, of n thesis] none by simp
  have v: "validStockID (Some (stockID (stk st s)))" using getStock_known [OF ok s] by blast
  have "held_of tree = (held_of (usTree (usr st u)))(stockID (stk st s) \<mapsto> n)"
    using v by (auto simp: fun_eq_iff held_of_path t(3) valid_path_inj)
  then have "turns st u ((account_of st u)\<lparr>a_held := (held_of (usTree (usr st u)))(stockID (stk st s) \<mapsto> n)\<rparr>)
      (upd_user u (\<lambda>x. x\<lparr>usTree := tree\<rparr>) st)"
    by (intro turns_upd_user t(2)) (simp_all add: account_of_def pending_of_def)
  with t(1) that show thesis by simp
qed

lemma turns_hold_set:
  assumes ok: "server_ok st" and u: "u < u_fresh st" and s: "s < s_fresh st" and us: "getUserStock st u s \<noteq> None"
  shows "turns st u ((account_of st u)\<lparr>a_held := (held_of (usTree (usr st u)))(stockID (stk st s) \<mapsto> n)\<rparr>)
    (setUserStock st u s n)"
proof -
  define tree where "tree = trie_upd (usTree (usr st u)) (stock_path (stockID (stk st s))) (set_num n)"
  have eq: "setUserStock st u s n = upd_user u (\<lambda>x. x\<lparr>usTree := tree\<rparr>) st"
    by (simp add: setUserStock_def upd_user_def tree_def)
  have v: "validStockID (Some (stockID (stk st s)))" using getStock_known [OF ok s] by blast
  obtain w where "look (usTree (usr st u)) (stock_path (stockID (stk st s))) = Some w"
    using us getUserStock_look [OF ok s, of u] by auto
  then have h: "held_of tree = (held_of (usTree (usr st u)))(stockID (stk st s) \<mapsto> n)"
    using v by (auto simp: fun_eq_iff held_of_path tree_def look_set_num valid_path_inj)
  have "server_ok (upd_user u (\<lambda>x. x\<lparr>usTree := tree\<rparr>) st)" using ok_setUserStock [OF ok, of u s n] by (simp add: eq)
  with h show ?thesis unfolding eq by (intro turns_upd_user) (simp_all add: account_of_def pending_of_def)
qed

lemma orders_of_path:
  "orders_of heap t (ty, sid) =
     (if ty \<in> {CHR ''b'', CHR ''s''} \<and> validStockID (Some sid)
      then Option.bind (look t (trigger_path ty sid)) (\<lambda>a. map_option (\<lambda>tr. (amount tr, trig tr)) (heap a))
      else None)"
proof (cases "ty \<in> {CHR ''b'', CHR ''s''} \<and> validStockID (Some sid)")
  case True
  then have "path_of (trigger_addr ty) sid = Some (trigger_path ty sid)"
    by (intro path_of_trigger stock_key_valid) auto
  with True show ?thesis by (simp add: orders_of_def trie_get_look)
next
  case False
  then show ?thesis unfolding orders_of_def fst_conv snd_conv by (simp only: if_False)
qed

text \<open>Two trees and heaps that agree on the triggers of a user give the same orders.\<close>

lemma orders_of_cong:
  assumes "tree_ok heap sid u t"
    "\<And>a tr. heap a = Some tr \<Longrightarrow> t_user tr = u \<Longrightarrow> heap' a = Some tr"
  shows "orders_of heap' t = orders_of heap t"
proof
  fix k :: "char \<times> string"
  obtain ty s where k: "k = (ty, s)" by (cases k)
  show "orders_of heap' t k = orders_of heap t k"
  proof (cases "look t (trigger_path ty s)")
    case (Some a)
    then obtain tr where "heap a = Some tr" "t_user tr = u" using assms(1) unfolding tree_ok_def by blast
    with assms(2) Some show ?thesis by (simp add: k orders_of_path)
  qed (simp add: k orders_of_path)
qed

lemma turns_trig_frame:
  assumes ok: "server_ok st" and ok': "server_ok st'" and fr: "trig_frame u st st'"
    and o': "orders_of (trg st') (tTree (usr st' u)) = ord"
    and other: "\<And>a tr. trg st a = Some tr \<Longrightarrow> t_user tr \<noteq> u \<Longrightarrow> trg st' a = Some tr"
  shows "turns st u ((account_of st u)\<lparr>a_order := ord\<rparr>) st'"
proof -
  have st: "stk st' = stk st" "u_fresh st' = u_fresh st" "replies st' = replies st" "s_fresh st' = s_fresh st"
    using fr by (simp_all add: trig_frame_def)
  note f = trig_frame_fields [OF fr]
  have pend: "pending_of st' (usr st' v) = pending_of st (usr st v)" for v
    by (simp add: pending_of_def f st)
  have "account_of st' v = account_of st v" if "v < u_fresh st" "v \<noteq> u" for v
  proof -
    have "orders_of (trg st') (tTree (usr st v)) = orders_of (trg st) (tTree (usr st v))"
      using ok_tree [OF ok that(1)] other that(2) by (intro orders_of_cong) auto
    then show ?thesis using trig_frame_other [OF fr that(2)] pend [of v] by (simp add: account_of_def)
  qed
  moreover have "account_of st' u = (account_of st u)\<lparr>a_order := ord\<rparr>"
    using o' pend [of u] by (simp add: account_of_def f)
  ultimately show ?thesis using ok' st f(1) unfolding turns_def by simp
qed

lemma valid_trigger_path_inj:
  assumes "validStockID (Some sid)" "validStockID (Some sid')" "ty \<in> {CHR ''b'', CHR ''s''}" "ty' \<in> {CHR ''b'', CHR ''s''}"
  shows "trigger_path ty sid = trigger_path ty' sid' \<longleftrightarrow> ty = ty' \<and> sid = sid'"
proof -
  have "sid \<noteq> []" using assms(1) by (auto simp: validStockID_iff)
  then show ?thesis using assms by (intro trigger_path_eq) (simp_all add: stock_key_valid)
qed

text \<open>The path of a trigger in its owner's tree is the one of its own type and stock.\<close>

lemma tree_addr_unique:
  assumes "tree_ok heap sid u t" "look t p = Some a" "look t q = Some a"
  shows "p = q"
  using assms unfolding tree_ok_def by (metis option.inject)

lemma turns_order_new:
  assumes ok: "server_ok st" and u: "u < u_fresh st" and s: "s < s_fresh st"
    and ty: "ty \<in> {CHR ''b'', CHR ''s''}" and fresh: "getTrigger st u s ty = None"
  shows "turns st u ((account_of st u)\<lparr>a_order :=
      (orders_of (trg st) (tTree (usr st u)))((ty, stockID (stk st s)) \<mapsto> (amnt, prc))\<rparr>)
    (fst (addTrigger st u tid s ty amnt prc))"
proof -
  obtain st' where add: "addTrigger st u tid s ty amnt prc = (st', Some (t_fresh st))" and ok': "server_ok st'"
    and fr: "trig_frame u st st'"
    and trg': "trg st' = (trg st)(t_fresh st \<mapsto> \<lparr>t_type = ty, trig = prc, amount = amnt, t_transID = tid, t_user = u, t_stock = s\<rparr>)"
    and lt: "\<And>q. look (tTree (usr st' u)) q =
       (if q = trigger_path ty (stockID (stk st s)) then Some (t_fresh st) else look (tTree (usr st u)) q)"
    and none: "trg st (t_fresh st) = None"
    using addTrigger_new [OF ok u s ty fresh, of tid amnt prc] by metis
  have v: "validStockID (Some (stockID (stk st s)))" using getStock_known [OF ok s] by blast
  have "orders_of (trg st') (tTree (usr st' u)) =
      (orders_of (trg st) (tTree (usr st u)))((ty, stockID (stk st s)) \<mapsto> (amnt, prc))"
  proof
    fix k :: "char \<times> string"
    obtain ty' sid' where k: "k = (ty', sid')" by (cases k)
    have "look (tTree (usr st u)) q \<noteq> Some (t_fresh st)" for q
      using ok_tree [OF ok u] none unfolding tree_ok_def by (metis option.distinct(1))
    then show "orders_of (trg st') (tTree (usr st' u)) k =
        ((orders_of (trg st) (tTree (usr st u)))((ty, stockID (stk st s)) \<mapsto> (amnt, prc))) k"
      using valid_trigger_path_inj [OF _ v _ ty, of sid' ty'] v ty
      by (cases "look (tTree (usr st u)) (trigger_path ty' sid')") (auto simp: k orders_of_path lt trg')
  qed
  then have "turns st u ((account_of st u)\<lparr>a_order :=
      (orders_of (trg st) (tTree (usr st u)))((ty, stockID (stk st s)) \<mapsto> (amnt, prc))\<rparr>) st'"
    using none by (intro turns_trig_frame [OF ok ok' fr]) (auto simp: trg')
  with add show ?thesis by simp
qed

text \<open>An order of the account is a trigger in the tree.\<close>

lemma order_trigger:
  assumes "server_ok st" "u < u_fresh st" "s < s_fresh st" "ty \<in> {CHR ''b'', CHR ''s''}"
    "getTrigger st u s ty = Some a"
  obtains tr where "trg st a = Some tr" "t_user tr = u" "t_stock tr = s" "t_type tr = ty"
    "orders_of (trg st) (tTree (usr st u)) (ty, stockID (stk st s)) = Some (amount tr, trig tr)"
    "look (tTree (usr st u)) (trigger_path ty (stockID (stk st s))) = Some a"
proof -
  obtain tr where tr: "trg st a = Some tr" "t_user tr = u" "t_stock tr = s" "t_type tr = ty"
    using getTrigger_some [OF assms] by metis
  have "look (tTree (usr st u)) (trigger_path ty (stockID (stk st s))) = Some a"
    using getTrigger_look [OF assms(1,3,4), of u] assms(5) by simp
  moreover have "validStockID (Some (stockID (stk st s)))" using getStock_known [OF assms(1,3)] by blast
  ultimately show thesis using tr assms(4) that [of tr] by (simp add: orders_of_path)
qed

lemma no_order:
  "server_ok st \<Longrightarrow> s < s_fresh st \<Longrightarrow> ty \<in> {CHR ''b'', CHR ''s''} \<Longrightarrow> getTrigger st u s ty = None \<Longrightarrow>
   orders_of (trg st) (tTree (usr st u)) (ty, stockID (stk st s)) = None"
  using getTrigger_look [of st s ty u] by (simp add: orders_of_path)

lemma turns_order_set:
  assumes ok: "server_ok st" and u: "u < u_fresh st" and s: "s < s_fresh st"
    and ty: "ty \<in> {CHR ''b'', CHR ''s''}" and a: "getTrigger st u s ty = Some a" and tr: "trg st a = Some tr"
  shows "turns st u ((account_of st u)\<lparr>a_order :=
      (orders_of (trg st) (tTree (usr st u)))((ty, stockID (stk st s)) \<mapsto> (amount tr, prc))\<rparr>) (set_trig a prc st)"
proof -
  define st' where "st' = st\<lparr>trg := (trg st)(a \<mapsto> tr\<lparr>trig := prc\<rparr>)\<rparr>"
  have eq: "set_trig a prc st = st'" using tr by (simp add: set_trig_def st'_def)
  have ok': "server_ok st'" using ok_set_trig [OF ok, of a prc] tr by (simp add: eq)
  have fr: "trig_frame u st st'" by (simp add: trig_frame_def st'_def)
  have v: "validStockID (Some (stockID (stk st s)))" using getStock_known [OF ok s] by blast
  have own: "t_user tr = u" and lk: "look (tTree (usr st u)) (trigger_path ty (stockID (stk st s))) = Some a"
    using order_trigger [OF ok u s ty a] tr by auto
  have "orders_of (trg st') (tTree (usr st' u)) =
      (orders_of (trg st) (tTree (usr st u)))((ty, stockID (stk st s)) \<mapsto> (amount tr, prc))"
  proof
    fix k :: "char \<times> string"
    obtain ty' sid' where k: "k = (ty', sid')" by (cases k)
    have uniq: "q = trigger_path ty (stockID (stk st s))" if "look (tTree (usr st u)) q = Some a" for q
      using ok_tree [OF ok u] that lk by (rule tree_addr_unique)
    show "orders_of (trg st') (tTree (usr st' u)) k =
        ((orders_of (trg st) (tTree (usr st u)))((ty, stockID (stk st s)) \<mapsto> (amount tr, prc))) k"
      using valid_trigger_path_inj [OF _ v _ ty, of sid' ty'] v ty lk uniq [of "trigger_path ty' sid'"]
      by (cases "look (tTree (usr st u)) (trigger_path ty' sid')") (auto simp: k orders_of_path st'_def)
  qed
  then show ?thesis
    unfolding eq by (intro turns_trig_frame [OF ok ok' fr]) (use own tr in \<open>auto simp: st'_def\<close>)
qed

text \<open>
  Removing a trigger also loses the orders its identifier shadows: \<open>ord\<close> is what is left of the
  orders of \<open>a\<close>. Without any shadowed order it is exact.
\<close>

definition loses :: "account \<Rightarrow> char \<Rightarrow> string \<Rightarrow> (char \<times> string \<rightharpoonup> int \<times> int) \<Rightarrow> bool" where
  "loses a ty sid ord \<longleftrightarrow> ord (ty, sid) = None \<and>
     (\<forall>k. ord k \<noteq> a_order a k \<longrightarrow> ord k = None \<and> fst k = ty \<and> (snd k = sid \<or> shadowed sid (snd k)))"

definition shadows_none :: "account \<Rightarrow> char \<Rightarrow> string \<Rightarrow> bool" where
  "shadows_none a ty sid \<longleftrightarrow> (\<forall>sid'. a_order a (ty, sid') \<noteq> None \<longrightarrow> sid' \<noteq> sid \<longrightarrow> \<not> shadowed sid sid')"

lemma loses_exact:
  assumes "loses a ty sid ord" "shadows_none a ty sid"
  shows "ord = (a_order a)((ty, sid) := None)"
proof
  fix k
  consider "k = (ty, sid)" | "k \<noteq> (ty, sid)" "ord k = a_order a k"
    | "k \<noteq> (ty, sid)" "ord k = None" "fst k = ty" "shadowed sid (snd k)"
    using assms(1) unfolding loses_def by (metis prod.collapse)
  then show "ord k = ((a_order a)((ty, sid) := None)) k"
  proof cases
    case 3
    then have k: "k = (ty, snd k)" "snd k \<noteq> sid" by auto
    with 3(4) assms(2) have "a_order a (ty, snd k) = None" unfolding shadows_none_def by blast
    with 3 k(1) show ?thesis by simp
  qed (use assms(1) in \<open>simp_all add: loses_def\<close>)
qed

lemma loses_sub: "loses a ty sid ord \<Longrightarrow> ord k = Some v \<Longrightarrow> a_order a k = Some v"
  unfolding loses_def by (metis option.distinct(1))

lemma turns_order_lost:
  assumes ok: "server_ok st" and u: "u < u_fresh st" and s: "s < s_fresh st"
    and ty: "ty \<in> {CHR ''b'', CHR ''s''}" and a: "getTrigger st u s ty = Some a"
  obtains ord where "loses (account_of st u) ty (stockID (stk st s)) ord"
    "turns st u ((account_of st u)\<lparr>a_order := ord\<rparr>) (removeTrigger st a)"
proof -
  let ?sid = "stockID (stk st s)"
  obtain tr where tr: "trg st a = Some tr" "t_user tr = u" "t_stock tr = s" "t_type tr = ty"
    and lk: "look (tTree (usr st u)) (trigger_path ty ?sid) = Some a"
    using order_trigger [OF ok u s ty a] by metis
  have inn: "getTrigger st (t_user tr) (t_stock tr) (t_type tr) = Some a" using a tr by simp
  note rem = removeTrigger_spec [OF ok tr(1) inn, unfolded tr(2-4)]
  have v: "validStockID (Some ?sid)" using getStock_known [OF ok s] by blast
  let ?t = "tTree (usr st u)" and ?t' = "tTree (usr (removeTrigger st a) u)"
  let ?ord = "orders_of (trg (removeTrigger st a)) ?t'"
  have gone: "?ord (ty, ?sid) = None" using rem(4) v ty by (simp add: orders_of_path)
  have "?ord k = None \<and> fst k = ty \<and> (snd k = ?sid \<or> shadowed ?sid (snd k))"
    if d: "?ord k \<noteq> orders_of (trg st) ?t k" for k
  proof -
    obtain ty' sid' where k: "k = (ty', sid')" by (cases k)
    let ?q = "trigger_path ty' sid'"
    have val: "ty' \<in> {CHR ''b'', CHR ''s''} \<and> validStockID (Some sid')"
      using d by (auto simp: k orders_of_path split: if_splits)
    show ?thesis
    proof (cases "(ty', sid') = (ty, ?sid)")
      case True
      with gone show ?thesis by (simp add: k)
    next
      case False
      have ne: "look ?t ?q \<noteq> Some a"
      proof
        assume "look ?t ?q = Some a"
        with lk ok_tree [OF ok u] have "?q = trigger_path ty ?sid" by (intro tree_addr_unique)
        with False val v ty show False by (auto simp: valid_trigger_path_inj)
      qed
      have "look ?t' ?q \<noteq> look ?t ?q"
      proof
        assume eq: "look ?t' ?q = look ?t ?q"
        have "Option.bind (look ?t ?q) (\<lambda>b. map_option (\<lambda>x. (amount x, trig x)) (((trg st)(a := None)) b)) =
            Option.bind (look ?t ?q) (\<lambda>b. map_option (\<lambda>x. (amount x, trig x)) (trg st b))"
          using ne by (cases "look ?t ?q") auto
        then have "?ord k = orders_of (trg st) ?t k"
          unfolding k orders_of_path rem(3) eq by (simp only:)
        with d show False by (rule notE)
      qed
      with val False have "look ?t' ?q = None \<and> ty' = ty \<and> shadowed ?sid sid'"
        by (intro rem(5)) (auto simp: stock_key_valid)
      then show ?thesis by (elim conjE) (simp add: k orders_of_path)
    qed
  qed
  with gone have "loses (account_of st u) ty ?sid ?ord" by (simp add: loses_def)
  moreover have "turns st u ((account_of st u)\<lparr>a_order := ?ord\<rparr>) (removeTrigger st a)"
    by (intro turns_trig_frame [OF ok rem(1,2)]) (use tr in \<open>auto simp: rem(3)\<close>)
  ultimately show thesis by (rule that)
qed

end
