(* ===== verification/Commands_Spec.thy ===== *)
theory Commands_Spec
  imports Refinement
begin

text \<open>
  Every trading command implements its abstract specification: in a well-formed state, with
  amounts that are not negative and sums that fit into 64 bits, the handler keeps the state well
  formed, turns the account of its user into the specified one, leaves the accounts of all other
  users alone, and records exactly one response, with the specified body.
\<close>

section \<open>The relation of a handler to its specification\<close>

definition does :: "ctx \<Rightarrow> server \<Rightarrow> account \<times> string \<Rightarrow> server \<Rightarrow> bool" where
  "does c st r st' \<longleftrightarrow>
     server_ok st' \<and> u_fresh st' = u_fresh st \<and> account_of st' (c_user c) = fst r \<and>
     (\<forall>v < u_fresh st. v \<noteq> c_user c \<longrightarrow> account_of st' v = account_of st v) \<and>
     replies st' = replies st @ [(c_sock c, ''WSR|'' @ c_tid c @ ''|'' @ c_cmd c @ ''|'' @ snd r)]"

lemma account_of_reply [simp]: "account_of (reply c body st) v = account_of st v"
  by (simp add: account_of_def pending_of_def)

lemma does_reply:
  assumes "turns st (c_user c) acc st'" "acc = fst r" "body = snd r"
  shows "does c st r (reply c body st')"
  using turnsD(1-4,6-8) [OF assms(1)] assms(2,3) ok_output(5) [OF turnsD(1) [OF assms(1)], of c body]
  unfolding does_def by (simp add: reply_def [of c body st'] quickSend_def)
    (simp add: reply_def quickSend_def account_of_def pending_of_def)

lemma does_fail:
  "turns st (c_user c) acc st' \<Longrightarrow> acc = fst r \<Longrightarrow> snd r = refuse k \<Longrightarrow> does c st r (fail c k st')"
  unfolding fail_def by (rule does_reply) (simp_all add: refuse_def)

lemma does_succ:
  "turns st (c_user c) acc st' \<Longrightarrow> acc = fst r \<Longrightarrow> snd r = ''SUCC'' \<Longrightarrow> does c st r (succ c st')"
  unfolding succ_def by (rule does_reply) simp_all

lemma turns_start: "server_ok st \<Longrightarrow> turns st u (account_of st u) st"
  by (simp add: turns_def)

named_theorems turns_intros "chaining of steps on one account"

lemma turns_steps [turns_intros]:
  assumes "turns st u a st'" "u < u_fresh st"
  shows "turns st u a (log_userCmd e tid cmd uid sid file funds st')"
    "turns st u a (log_accTrans e tid action uid funds st')"
    "turns st u a (log_line l st')"
    "turns st u a (db_write stmts db st')"
    "turns st u a (snd (getmTS e st'))"
    "turns st u a (ask_quote e c s st')"
    "turns st u a (refresh_quote e c s st')"
  using assms turnsD(1) [OF assms(1)]
  by (blast intro: turns_then_quiet quiet_log_userCmd quiet_log_accTrans quiet_log_line quiet_db_write
      quiet_getmTS quiet_ask_quote quiet_refresh_quote)+

lemma turns_balance' [turns_intros]:
  assumes "turns st u a st'" "u < u_fresh st"
  shows "turns st u (a\<lparr>a_bal := f (usr st' u)\<rparr>) (upd_user u (\<lambda>x. x\<lparr>balance := f x\<rparr>) st')"
proof -
  have "turns st' u ((account_of st' u)\<lparr>a_bal := f (usr st' u)\<rparr>) (upd_user u (\<lambda>x. x\<lparr>balance := f x\<rparr>) st')"
    using turnsD(1,2) [OF assms(1)] assms(2) by (intro turns_balance) simp_all
  then show ?thesis using turns_trans [OF assms(1)] turnsD(6) [OF assms(1)] by simp
qed

lemma turns_clear' [turns_intros]:
  assumes "turns st u a st'" "u < u_fresh st"
  shows "turns st u (a\<lparr>a_pend := None\<rparr>) (upd_user u clear_pending st')"
proof -
  have "turns st' u ((account_of st' u)\<lparr>a_pend := None\<rparr>) (upd_user u clear_pending st')"
    using turnsD(1,2) [OF assms(1)] assms(2) by (intro turns_clear) simp_all
  then show ?thesis using turns_trans [OF assms(1)] turnsD(6) [OF assms(1)] by simp
qed

lemma turns_pending':
  assumes "turns st u a st'" "u < u_fresh st" "s < s_fresh st'" "b \<in> {1, - 1}"
  shows "turns st u (a\<lparr>a_pend := Some (Pending (if b = 1 then Buying else Selling) (stockID (stk st' s)) k r t)\<rparr>)
    (upd_user u (\<lambda>x. x\<lparr>prompt_time := t, stockObj := Some s, reserve := r, no := k, buysell := b\<rparr>) st')"
proof -
  have "u < u_fresh st'" using turnsD(2) [OF assms(1)] assms(2) by simp
  from turns_pending [OF turnsD(1) [OF assms(1)] this assms(3,4), of k r t]
  show ?thesis using turns_trans [OF assms(1)] turnsD(6) [OF assms(1)] by simp
qed

text \<open>The first steps of a handler: log the command, look the stock up.\<close>

lemma turns_logged:
  "server_ok st \<Longrightarrow> u < u_fresh st \<Longrightarrow> turns st u (account_of st u) (log_userCmd e tid cmd uid sid file funds st)"
  by (intro turns_intros turns_start)

lemma turns_ensure:
  assumes "turns st u a st'" "u < u_fresh st" "validStockID (Some sid)"
  obtains st'' s where "ensureStock st' sid = (st'', Some s)" "turns st u a st''" "s < s_fresh st''"
    "stockID (stk st'' s) = sid" "usr st'' = usr st'"  "trg st'' = trg st'"
proof -
  obtain st'' s where st'': "ensureStock st' sid = (st'', Some s)" "quiet st' st''" "s < s_fresh st''"
      "stockID (stk st'' s) = sid"
    using quiet_ensureStock [OF turnsD(1) [OF assms(1)] assms(3)] by metis
  with turns_then_quiet [OF assms(1) st''(2) assms(2)] quiet_simps [OF st''(2)] that show thesis by metis
qed

section \<open>Add and quote\<close>

lemma add_refines:
  assumes ok: "server_ok st" and u: "c_user c < u_fresh st"
    and m: "str2price (arg c 0) = m" "m \<noteq> - 1" and fit: "fits64 (balance (cuser c st) + m)"
  shows "does c st (add_spec m (account_of st (c_user c))) (cmd_add e c st)"
proof -
  have "s64 (balance (cuser c st) + m) = balance (cuser c st) + m" using fit by (rule s64_id)
  then show ?thesis
    unfolding cmd_add_def Let_def m(1) split_beta if_not_P [OF m(2)]
    by (intro does_succ) ((rule turns_intros turns_start ok u)+, simp_all add: add_spec_def)
qed

text \<open>A quote is answered with the price the stock has after asking, when it had none.\<close>

lemma quote_refines:
  assumes ok: "server_ok st" and u: "c_user c < u_fresh st" and v: "validStockID (arg c 0)"
  shows "\<exists>p t. does c st (account_of st (c_user c), offer ''SUCC'' p t) (cmd_quote e c st)"
proof -
  let ?st = "log_userCmd e (c_tid c) (c_cmd c) (cuid c st) (sarg c 0) spc spc st"
  obtain sid where sid: "arg c 0 = Some sid" using v by (cases "arg c 0") (auto simp: validStockID_def)
  then obtain st' s where st': "ensureStock ?st (sarg c 0) = (st', Some s)"
      "turns st (c_user c) (account_of st (c_user c)) st'"
    using turns_ensure [OF turns_logged [OF ok u] u, of sid] v by (metis sarg_def option.simps(5))
  define st'' where "st'' = (if ts (stk st' s) = 0 then ask_quote e c s st' else st')"
  have "turns st (c_user c) (account_of st (c_user c)) st''"
    using st'(2) u by (auto simp: st''_def intro: turns_intros)
  then have "does c st (account_of st (c_user c), offer ''SUCC'' (price (stk st'' s)) (ts (stk st'' s)))
      (reply c (''SUCC,'' @ show_long (price (stk st'' s)) @ '','' @ show_long (ts (stk st'' s))) st'')"
    by (rule does_reply) (simp_all add: offer_def)
  moreover have "cmd_quote e c st =
      reply c (''SUCC,'' @ show_long (price (stk st'' s)) @ '','' @ show_long (ts (stk st'' s))) st''"
    using v st'(1) by (simp add: cmd_quote_def Let_def st''_def)
  ultimately show ?thesis by metis
qed

section \<open>Buying\<close>

text \<open>The price and time of a stock after a refresh.\<close>

lemma validStockID_some: "validStockID x \<Longrightarrow> \<exists>sid. x = Some sid"
  by (cases x) (simp_all add: validStockID_def)

lemma sarg_some: "arg c k = Some s \<Longrightarrow> sarg c k = s"
  by (simp add: sarg_def)

lemma pend_of_zero:
  assumes "server_ok st" "u < u_fresh st"
  shows "pending_of st (usr st u) = None \<longleftrightarrow> buysell (usr st u) = 0"
  using ok_user_wf [OF assms] by (auto simp: pending_of_def user_wf_def)

lemma cdiv_div: "0 \<le> a \<Longrightarrow> 0 < b \<Longrightarrow> cdiv a b = a div b"
  by (rule cdiv_nonneg) simp_all

definition quote_in :: "server \<Rightarrow> string \<Rightarrow> int \<times> int" where
  "quote_in st sid = (case getStock st sid of None \<Rightarrow> (0, 0) | Some s \<Rightarrow> (price (stk st s), ts (stk st s)))"

lemma quote_in_known:
  assumes "server_ok st" "s < s_fresh st" "stockID (stk st s) = sid" "stocks st' = stocks st" "stk st' = stk st"
  shows "quote_in st' sid = (price (stk st s), ts (stk st s))"
proof -
  have "getStock st (stockID (stk st s)) = Some s" using getStock_known [OF assms(1,2)] by blast
  then have "getStock st' sid = Some s" using assms(3,4) by (simp add: getStock_def)
  then show ?thesis using assms(5) by (simp add: quote_in_def)
qed

lemmas branch_simps = simp_thms if_True if_False prod.case option.case
lemmas handler_simps = Let_def simp_thms if_True if_False prod.case option.case upd_user_frame split_beta fst_conv snd_conv

lemma buy_refines:
  assumes ok: "server_ok st" and u: "c_user c < u_fresh st" and v: "validStockID (arg c 0)"
    and m: "str2price (arg c 1) = m" "0 \<le> m" "fits64 m"
  shows "does c st (buy_spec (sarg c 0) m (fst (quote_in (cmd_buy e c st) (sarg c 0)))
    (snd (quote_in (cmd_buy e c st) (sarg c 0))) (account_of st (c_user c))) (cmd_buy e c st)"
proof -
  let ?u = "c_user c" and ?a = "account_of st (c_user c)"
  have mne: "(m = - 1) = False" using m(2) by simp
  define st1 where "st1 = log_userCmd e (c_tid c) (c_cmd c) (cuid c st) (sarg c 0) spc (sarg c 1) st"
  have t1: "turns st ?u ?a st1" unfolding st1_def using ok u by (rule turns_logged)
  have usr1: "usr st1 = usr st" by (simp add: st1_def)
  note pz = pend_of_zero [OF ok u]
  obtain sid where sid: "arg c 0 = Some sid" using validStockID_some [OF v] ..
  obtain st2 s where st2: "ensureStock st1 (sarg c 0) = (st2, Some s)" "turns st ?u ?a st2" "s < s_fresh st2"
      "stockID (stk st2 s) = sarg c 0" "usr st2 = usr st1"
    using turns_ensure [OF t1 u, of sid] v sid sarg_some [OF sid] by metis
  define st3 where "st3 = refresh_quote e c s st2"
  have t3: "turns st ?u ?a st3" unfolding st3_def using st2(2) u by (rule turns_intros)
  have s3: "s < s_fresh st3" "stockID (stk st3 s) = sarg c 0" "usr st3 = usr st"
    using st2(3-5) usr1 by (simp_all add: st3_def)
  define p t where "p = price (stk st3 s)" and "t = ts (stk st3 s)"
  have cmd: "cmd_buy e c st =
     (if buysell (cuser c st) \<noteq> 0 then fail c (- 10) st1
      else if balance (cuser c st) < m then fail c (- 14) st1
      else if p < 1 then fail c (- 21) st3
      else if cdiv m p = 0 then reply c (''FAIL,'' @ show_long (- 11) @ '','' @ show_long p @ '','' @ show_long t) st3
      else reply c (''SUCC,'' @ show_long (cdiv m p) @ '','' @ show_long p @ '','' @ show_long t)
        (upd_user ?u (\<lambda>x. x\<lparr>prompt_time := t, stockObj := Some s, reserve := s64 (p * cdiv m p),
            no := cdiv m p, buysell := 1\<rparr>) st3))"
    by (simp only: cmd_buy_def handler_simps v m(1) mne st1_def [symmetric] usr1 st2(1) st3_def [symmetric]
        p_def [symmetric] t_def [symmetric])
  have q: "quote_in (cmd_buy e c st) (sarg c 0) = (p, t)"
    if "stocks (cmd_buy e c st) = stocks st3" "stk (cmd_buy e c st) = stk st3"
    using quote_in_known [OF turnsD(1) [OF t3] s3(1,2) that] by (simp add: p_def t_def)
  let ?q = "quote_in (cmd_buy e c st) (sarg c 0)"
  let ?r = "buy_spec (sarg c 0) m (fst ?q) (snd ?q) ?a"
  consider "buysell (cuser c st) \<noteq> 0" | "buysell (cuser c st) = 0" "balance (cuser c st) < m"
    | "buysell (cuser c st) = 0" "m \<le> balance (cuser c st)" "p < 1"
    | "buysell (cuser c st) = 0" "m \<le> balance (cuser c st)" "1 \<le> p" by linarith
  then show "does c st ?r (cmd_buy e c st)"
  proof cases
    case 1
    with pz have "cmd_buy e c st = fail c (- 10) st1" "?r = (?a, refuse (- 10))" by (simp_all add: cmd buy_spec_def)
    then show ?thesis by (simp only:) (rule does_fail [OF t1], simp_all)
  next
    case 2
    with pz have "cmd_buy e c st = fail c (- 14) st1" "?r = (?a, refuse (- 14))" by (simp_all add: cmd buy_spec_def)
    then show ?thesis by (simp only:) (rule does_fail [OF t1], simp_all)
  next
    case 3
    then have eq: "cmd_buy e c st = fail c (- 21) st3" by (simp add: cmd)
    then have "?q = (p, t)" by (intro q) simp_all
    with 3 pz have "?r = (?a, refuse (- 21))" by (simp add: buy_spec_def)
    then show ?thesis by (simp only: eq) (rule does_fail [OF t3], simp_all)
  next
    case 4
    then have d: "cdiv m p = m div p" using m(2) by (simp add: cdiv_div)
    show ?thesis
    proof (cases "m < p")
      case True
      then have "m div p = 0" using m(2) by simp
      with 4 d have eq: "cmd_buy e c st =
          reply c (''FAIL,'' @ show_long (- 11) @ '','' @ show_long p @ '','' @ show_long t) st3"
        by (simp add: cmd)
      then have "?q = (p, t)" by (intro q) simp_all
      with 4 pz True have "?r = (?a, offer (refuse (- 11)) p t)" by (simp add: buy_spec_def)
      then show ?thesis by (simp only: eq) (rule does_reply [OF t3], simp_all add: offer_def refuse_def)
    next
      case False
      then have pos: "m div p \<noteq> 0" using 4 pos_imp_zdiv_pos_iff [of p m] by simp
      have "0 \<le> p * (m div p)" "p * (m div p) \<le> m"
        using 4 m(2) mult_div_mod_eq [of p m] pos_mod_sign [of p m]
        by (simp add: pos_imp_zdiv_nonneg_iff, linarith)
      then have "s64 (p * (m div p)) = p * (m div p)" using m(3) by (intro s64_id) (simp add: fits64_def)
      with 4 d pos have eq: "cmd_buy e c st =
          reply c (''SUCC,'' @ show_long (m div p) @ '','' @ show_long p @ '','' @ show_long t)
            (upd_user ?u (\<lambda>x. x\<lparr>prompt_time := t, stockObj := Some s, reserve := p * (m div p),
               no := m div p, buysell := 1\<rparr>) st3)"
        by (simp add: cmd)
      then have "?q = (p, t)" by (intro q) simp_all
      with 4 pz False have "?r = (?a\<lparr>a_pend := Some (Pending Buying (sarg c 0) (m div p) (p * (m div p)) t)\<rparr>,
            offer (''SUCC,'' @ show_long (m div p)) p t)" by (simp add: buy_spec_def)
      then show ?thesis
        by (simp only: eq) (rule does_reply [OF turns_pending' [OF t3 u s3(1)]], simp_all add: offer_def s3)
    qed
  qed
qed

lemma turns_chain:
  assumes "turns st u a st'" "turns st' u (f (account_of st' u)) st''"
  shows "turns st u (f a) st''"
  using turns_trans [OF assms] turnsD(6) [OF assms(1)] by simp

lemma cancel_buy_refines:
  assumes ok: "server_ok st" and u: "c_user c < u_fresh st"
  shows "does c st (cancel_spec Buying (account_of st (c_user c))) (cmd_cancel_buy e c st)"
proof -
  let ?st = "log_userCmd e (c_tid c) (c_cmd c) (cuid c st) spc spc spc st"
  note t = turns_logged [OF ok u, of e "c_tid c" "c_cmd c" "cuid c st" spc spc spc]
  have w: "user_wf (sids st) (s_fresh st) (cuser c st)" using ok u by (rule ok_user_wf)
  have pz: "map_option p_side (pending_of st (cuser c st)) = Some Buying \<longleftrightarrow> buysell (cuser c st) = 1"
    using w by (auto simp: pending_of_def user_wf_def)
  have spec: "cancel_spec Buying (account_of st (c_user c)) =
      (if buysell (cuser c st) = 1 then ((account_of st (c_user c))\<lparr>a_pend := None\<rparr>, ''SUCC'')
       else (account_of st (c_user c), refuse (- 12)))"
    by (simp only: cancel_spec_def account_sel pz)
  show ?thesis
  proof (cases "buysell (cuser c st) = 1")
    case True
    then have "cmd_cancel_buy e c st = succ c (upd_user (c_user c) clear_pending ?st)"
      by (simp add: cmd_cancel_buy_def Let_def)
    then show ?thesis
      using spec True by (simp only:) (rule does_succ [OF turns_clear' [OF t u]], simp_all)
  next
    case False
    then have "cmd_cancel_buy e c st = fail c (- 12) ?st" by (simp add: cmd_cancel_buy_def Let_def)
    then show ?thesis
      using spec False by (simp only:) (rule does_fail [OF t], simp_all)
  qed
qed

lemma cancel_sell_refines:
  assumes ok: "server_ok st" and u: "c_user c < u_fresh st"
  shows "does c st (cancel_spec Selling (account_of st (c_user c))) (cmd_cancel_sell e c st)"
proof -
  let ?st = "log_userCmd e (c_tid c) (c_cmd c) (cuid c st) spc spc spc st"
  note t = turns_logged [OF ok u, of e "c_tid c" "c_cmd c" "cuid c st" spc spc spc]
  have w: "user_wf (sids st) (s_fresh st) (cuser c st)" using ok u by (rule ok_user_wf)
  have pz: "map_option p_side (pending_of st (cuser c st)) = Some Selling \<longleftrightarrow> buysell (cuser c st) = - 1"
    using w by (auto simp: pending_of_def user_wf_def)
  have spec: "cancel_spec Selling (account_of st (c_user c)) =
      (if buysell (cuser c st) = - 1 then ((account_of st (c_user c))\<lparr>a_pend := None\<rparr>, ''SUCC'')
       else (account_of st (c_user c), refuse (- 12)))"
    by (simp only: cancel_spec_def account_sel pz)
  show ?thesis
  proof (cases "buysell (cuser c st) = - 1")
    case True
    then have "cmd_cancel_sell e c st = succ c (upd_user (c_user c) clear_pending ?st)"
      by (simp add: cmd_cancel_sell_def Let_def)
    then show ?thesis
      using spec True by (simp only:) (rule does_succ [OF turns_clear' [OF t u]], simp_all)
  next
    case False
    then have "cmd_cancel_sell e c st = fail c (- 12) ?st" by (simp add: cmd_cancel_sell_def Let_def)
    then show ?thesis
      using spec False by (simp only:) (rule does_fail [OF t], simp_all)
  qed
qed

text \<open>Storing the new number of shares, through \<open>addUserStock\<close> or the existing holding.\<close>

lemma stored_shares:
  assumes t: "turns st0 u a st" and u: "u < u_fresh st0" and s: "s < s_fresh st"
    and n: "n = (case getUserStock st u s of None \<Rightarrow> k | Some us \<Rightarrow> s64 (num us + k))"
  obtains st' where "(case getUserStock st u s of
          None \<Rightarrow> (case addUserStock st u s k of
                     (st, None) \<Rightarrow> (None, st)
                   | (st, Some us) \<Rightarrow> (Some (InsertStk uid sid (num us)), st))
        | Some us \<Rightarrow>
            (let n = s64 (num us + k) in (Some (UpdateStk n uid sid), setUserStock st u s n)))
      = (Some (if getUserStock st u s = None then InsertStk uid sid n else UpdateStk n uid sid), st')"
    "turns st0 u (a\<lparr>a_held := (a_held a)(stockID (stk st s) \<mapsto> n)\<rparr>) st'"
    "balance (usr st' u) = balance (usr st u)" "reserve (usr st' u) = reserve (usr st u)"
proof (cases "getUserStock st u s")
  case None
  have ok: "server_ok st" and u': "u < u_fresh st" using turnsD(1,2) [OF t] u by simp_all
  obtain st' where st': "addUserStock st u s k = (st', Some \<lparr>num = k, us_stock = s\<rparr>)"
      "turns st u ((account_of st u)\<lparr>a_held := (a_held (account_of st u))(stockID (stk st s) \<mapsto> k)\<rparr>) st'"
      "balance (usr st' u) = balance (usr st u)" "reserve (usr st' u) = reserve (usr st u)"
    using turns_hold_new [OF ok u' s None, of k] by (metis account_sel(3))
  have "turns st0 u (a\<lparr>a_held := (a_held a)(stockID (stk st s) \<mapsto> k)\<rparr>) st'"
    using t st'(2) by (rule turns_chain)
  with that [of st'] st' None n show thesis by simp
next
  case (Some us)
  have ok: "server_ok st" and u': "u < u_fresh st" using turnsD(1,2) [OF t] u by simp_all
  have "turns st u ((account_of st u)\<lparr>a_held := (a_held (account_of st u))(stockID (stk st s) \<mapsto> n)\<rparr>)
      (setUserStock st u s n)"
    using turns_hold_set [OF ok u' s, of n] Some by simp
  with t have "turns st0 u (a\<lparr>a_held := (a_held a)(stockID (stk st s) \<mapsto> n)\<rparr>) (setUserStock st u s n)"
    by (rule turns_chain)
  with that [of "setUserStock st u s n"] Some n show thesis by (simp add: Let_def)
qed

lemma commit_buy_body_refines:
  assumes t: "turns st0 (c_user c) a st" and u: "c_user c < u_fresh st0" and s: "s < s_fresh st"
    and fit: "fits64 (a_bal a - reserve (cuser c st))" "fits64 (holding a (stockID (stk st s)) + no (cuser c st))"
    and r: "r = (a\<lparr>a_bal := a_bal a - reserve (cuser c st),
        a_held := (a_held a)(stockID (stk st s) \<mapsto> holding a (stockID (stk st s)) + no (cuser c st)),
        a_pend := None\<rparr>, ''SUCC'')"
  shows "does c st0 r (commit_buy_body e c s st)"
proof -
  let ?u = "c_user c"
  have ok: "server_ok st" and acc: "account_of st ?u = a" using turnsD(1,6) [OF t] by simp_all
  define st1 where "st1 = upd_user ?u (\<lambda>x. x\<lparr>balance := s64 (balance x - reserve x)\<rparr>) st"
  have t1: "turns st0 ?u (a\<lparr>a_bal := a_bal a - reserve (cuser c st)\<rparr>) st1"
    using turns_balance' [OF t u, of "\<lambda>x. s64 (balance x - reserve x)"] fit(1) acc
    by (auto simp: st1_def s64_id)
  have s1: "s < s_fresh st1" "stk st1 = stk st" "no (cuser c st1) = no (cuser c st)" using s by (simp_all add: st1_def)
  define n where "n = (case getUserStock st1 ?u s of None \<Rightarrow> no (cuser c st1) | Some us \<Rightarrow> s64 (num us + no (cuser c st1)))"
  have "getUserStock st1 ?u s = getUserStock st ?u s" by (simp add: getUserStock_def st1_def)
  then have n': "n = holding a (stockID (stk st s)) + no (cuser c st)"
    using held_known [OF ok s, of ?u] acc fit(2) s1(3)
    by (cases "getUserStock st ?u s") (auto simp: n_def s64_id add.commute)
  let ?a1 = "a\<lparr>a_bal := a_bal a - reserve (cuser c st)\<rparr>"
  obtain st2 where st2: "(case getUserStock st1 ?u s of
          None \<Rightarrow> (case addUserStock st1 ?u s (no (cuser c st1)) of
                     (x, None) \<Rightarrow> (None, x)
                   | (x, Some us) \<Rightarrow> (Some (InsertStk (cuid c st) (stockID (stk st1 s)) (num us)), x))
        | Some us \<Rightarrow>
            (let n = s64 (num us + no (cuser c st1))
             in (Some (UpdateStk n (cuid c st) (stockID (stk st1 s))), setUserStock st1 ?u s n)))
      = (Some (if getUserStock st1 ?u s = None then InsertStk (cuid c st) (stockID (stk st1 s)) n
          else UpdateStk n (cuid c st) (stockID (stk st1 s))), st2)"
    "turns st0 ?u (?a1\<lparr>a_held := (a_held ?a1)(stockID (stk st1 s) \<mapsto> n)\<rparr>) st2"
    by (rule stored_shares [OF t1 u s1(1) n_def, of "cuid c st" "stockID (stk st1 s)"]) (rule that)
  show ?thesis
    unfolding commit_buy_body_def Let_def [of "c_user c"] Let_def [of "cuid c st"] Let_def [of "price2str x" for x]
      st1_def [symmetric] Let_def [of st1] Let_def [of "stockID x" for x] st2(1)
    unfolding Let_def split_beta fst_conv snd_conv option.case
    by (rule does_succ, (rule turns_intros st2(2) u)+) (simp_all add: r n' s1(2))
qed

lemma ticks_log_userCmd [simp]:
  "ticks (log_userCmd e tid cmd uid sid file funds st) = Suc (ticks st)"
  by (simp add: log_userCmd_eq getmTS_def)

text \<open>What a pending buy or sell of the account says about the user's fields.\<close>

lemma pending_fields:
  assumes "server_ok st" "u < u_fresh st" "pending_of st (usr st u) = Some (Pending sd sid n cash t)"
  obtains s where "stockObj (usr st u) = Some s" "s < s_fresh st" "stockID (stk st s) = sid"
    "no (usr st u) = n" "reserve (usr st u) = cash" "prompt_time (usr st u) = t"
    "buysell (usr st u) = (if sd = Buying then 1 else - 1)"
proof -
  have w: "user_wf (sids st) (s_fresh st) (usr st u)" using assms(1,2) by (rule ok_user_wf)
  obtain s where s: "stockObj (usr st u) = Some s" using assms(3) by (auto simp: pending_of_def split: if_splits)
  with w have "s < s_fresh st" by (simp add: user_wf_def)
  with that [OF s] assms(3) s w show thesis by (auto simp: pending_of_def user_wf_def split: if_splits)
qed

lemma side_pending:
  assumes "map_option p_side x = Some sd"
  obtains sid n cash t where "x = Some (Pending sd sid n cash t)"
proof -
  obtain y where "x = Some y" "p_side y = sd" using assms by auto
  with that show thesis by (cases y) auto
qed

lemma no_pending_side:
  assumes "server_ok st" "u < u_fresh st" "map_option p_side (pending_of st (usr st u)) \<noteq> Some sd"
  shows "buysell (usr st u) \<noteq> (if sd = Buying then 1 else - 1)"
  using ok_user_wf [OF assms(1,2)] assms(3) by (cases sd) (auto simp: pending_of_def user_wf_def)

text \<open>
  The time at which a commit sees its reservation: its age is a 64-bit difference, which may wrap.
\<close>

definition commit_time :: "env \<Rightarrow> server \<Rightarrow> addr \<Rightarrow> int" where
  "commit_time e st u =
     prompt_time (usr st u) + s64 (clock e (Suc (ticks st)) - prompt_time (usr st u))"

lemma commit_time_fits:
  assumes "server_ok st" "u < u_fresh st" "pending_of st (usr st u) = Some (Pending sd sid n cash t)"
    "fits64 (clock e (Suc (ticks st)) - t)"
  shows "commit_time e st u = clock e (Suc (ticks st))"
proof -
  have "prompt_time (usr st u) = t" by (rule pending_fields [OF assms(1-3)])
  with assms(4) show ?thesis by (simp add: commit_time_def)
qed

lemma commit_buy_at:
  assumes ok: "server_ok st" and u: "c_user c < u_fresh st"
    and fit: "\<And>sid n cash t. a_pend (account_of st (c_user c)) = Some (Pending Buying sid n cash t) \<Longrightarrow>
      fits64 (balance (cuser c st) - cash) \<and> fits64 (holding (account_of st (c_user c)) sid + n)"
  shows "does c st (commit_buy_spec (commit_time e st (c_user c)) (account_of st (c_user c))) (cmd_commit_buy e c st)"
proof -
  let ?u = "c_user c" and ?a = "account_of st (c_user c)" and ?now = "commit_time e st (c_user c)"
  define st1 where "st1 = log_userCmd e (c_tid c) (c_cmd c) (cuid c st) spc spc spc st"
  have t1: "turns st ?u ?a st1" unfolding st1_def using ok u by (rule turns_logged)
  define st2 where "st2 = snd (getmTS e st1)"
  have t2: "turns st ?u ?a st2" unfolding st2_def using t1 u by (rule turns_intros)
  have fr: "usr st1 = usr st" "usr st2 = usr st" "stk st2 = stk st" "s_fresh st2 = s_fresh st"
    by (simp_all add: st1_def st2_def)
  have now: "fst (getmTS e st1) = clock e (Suc (ticks st))" by (simp add: st1_def)
  show ?thesis
  proof (cases "map_option p_side (pending_of st (cuser c st)) = Some Buying")
    case False
    then have "cmd_commit_buy e c st = fail c (- 12) st1"
      using no_pending_side [OF ok u False] by (simp add: cmd_commit_buy_def Let_def st1_def)
    moreover have "commit_buy_spec ?now ?a = (?a, refuse (- 12))"
      using False by (auto simp: commit_buy_spec_def split: option.splits pending.splits side.splits)
    ultimately show ?thesis by (simp only:) (rule does_fail [OF t1], simp_all)
  next
    case True
    then obtain sid n cash t where p: "pending_of st (cuser c st) = Some (Pending Buying sid n cash t)"
      by (rule side_pending)
    obtain s where s: "stockObj (cuser c st) = Some s" "s < s_fresh st" "stockID (stk st s) = sid"
        "no (cuser c st) = n" "reserve (cuser c st) = cash" "prompt_time (cuser c st) = t"
        "buysell (cuser c st) = 1"
      by (rule pending_fields [OF ok u p]) simp
    have f: "fits64 (balance (cuser c st) - cash)" "fits64 (holding ?a sid + n)"
      using fit [of sid n cash t] p by simp_all
    have age: "s64 (clock e (Suc (ticks st)) - t) = ?now - t" by (simp add: commit_time_def s(6))
    have cmd: "cmd_commit_buy e c st =
        (if ?now - t > quoteTo then fail c (- 13) (upd_user ?u clear_pending st2) else commit_buy_body e c s st2)"
      unfolding cmd_commit_buy_def Let_def st1_def [symmetric] split_beta now st2_def [symmetric] fr
      by (simp only: s age simp_thms if_False option.case)
    show ?thesis
    proof (cases "?now - t > quoteTo")
      case True
      then have "cmd_commit_buy e c st = fail c (- 13) (upd_user ?u clear_pending st2)" by (simp add: cmd)
      moreover have "commit_buy_spec ?now ?a = (?a\<lparr>a_pend := None\<rparr>, refuse (- 13))"
        using True p by (simp add: commit_buy_spec_def)
      ultimately show ?thesis by (simp only:) (rule does_fail [OF turns_clear' [OF t2 u]], simp_all)
    next
      case False
      then have c: "cmd_commit_buy e c st = commit_buy_body e c s st2" by (simp add: cmd)
      show ?thesis unfolding c
        by (rule commit_buy_body_refines [OF t2 u])
          (use s f p False in \<open>simp_all add: fr commit_buy_spec_def\<close>)
    qed
  qed
qed

lemma commit_buy_refines:
  assumes ok: "server_ok st" and u: "c_user c < u_fresh st"
    and fit: "\<And>sid n cash t. a_pend (account_of st (c_user c)) = Some (Pending Buying sid n cash t) \<Longrightarrow>
      fits64 (clock e (Suc (ticks st)) - t) \<and> fits64 (balance (cuser c st) - cash) \<and>
      fits64 (holding (account_of st (c_user c)) sid + n)"
  shows "does c st (commit_buy_spec (clock e (Suc (ticks st))) (account_of st (c_user c))) (cmd_commit_buy e c st)"
proof -
  have "commit_buy_spec (clock e (Suc (ticks st))) (account_of st (c_user c)) =
      commit_buy_spec (commit_time e st (c_user c)) (account_of st (c_user c))"
    using commit_time_fits [OF ok u] fit
    by (auto simp: commit_buy_spec_def split: option.splits pending.splits side.splits)
  with commit_buy_at [OF ok u] fit show ?thesis by simp
qed

section \<open>Selling\<close>

text \<open>What the handler reads of a holding.\<close>

lemma holding_known:
  assumes "server_ok st" "s < s_fresh st" "stockID (stk st s) = sid"
  shows "a_held (account_of st u) sid = map_option num (getUserStock st u s)"
  using held_known [OF assms(1,2), of u] assms(3) by simp

lemma sell_arith:
  fixes m p h :: int
  assumes "0 \<le> m" "1 \<le> p" "0 \<le> h" "fits64 (m + p)"
  shows "s64 (cdiv m p + 1) = m div p + 1" "s64 (p * min h (m div p + 1)) = p * min h (m div p + 1)"
proof -
  have d: "cdiv m p = m div p" using assms by (simp add: cdiv_div)
  have le: "p * (m div p) \<le> m" "0 \<le> m div p"
    using assms mult_div_mod_eq [of p m] pos_mod_sign [of p m]
    by (linarith, simp add: pos_imp_zdiv_nonneg_iff)
  have "m div p \<le> p * (m div p)" using mult_right_mono [OF assms(2) le(2)] by simp
  with le assms(2,4) have "fits64 (m div p + 1)" by (simp add: fits64_def)
  then show "s64 (cdiv m p + 1) = m div p + 1" by (simp add: d s64_id)
  have "p * min h (m div p + 1) \<le> p * (m div p + 1)" using assms(2) by (intro mult_left_mono) simp_all
  also have "\<dots> \<le> m + p" using le(1) by (simp add: distrib_left)
  finally have "p * min h (m div p + 1) \<le> m + p" .
  moreover have "0 \<le> p * min h (m div p + 1)" using assms(2,3) le(2) by simp
  ultimately show "s64 (p * min h (m div p + 1)) = p * min h (m div p + 1)"
    using assms(4) by (intro s64_id) (simp add: fits64_def)
qed

lemma sell_refines:
  assumes ok: "server_ok st" and u: "c_user c < u_fresh st" and v: "validStockID (arg c 0)"
    and m: "str2price (arg c 1) = m" "0 \<le> m" "0 \<le> holding (account_of st (c_user c)) (sarg c 0)"
      "fits64 (m + fst (quote_in (cmd_sell e c st) (sarg c 0)))"
  shows "does c st (sell_spec (sarg c 0) m (fst (quote_in (cmd_sell e c st) (sarg c 0)))
    (snd (quote_in (cmd_sell e c st) (sarg c 0))) (account_of st (c_user c))) (cmd_sell e c st)"
proof -
  let ?u = "c_user c" and ?a = "account_of st (c_user c)" and ?sid = "sarg c 0"
  have mne: "(m = - 1) = False" using m(2) by simp
  define st1 where "st1 = log_userCmd e (c_tid c) (c_cmd c) (cuid c st) (sarg c 0) spc (sarg c 1) st"
  have t1: "turns st ?u ?a st1" unfolding st1_def using ok u by (rule turns_logged)
  have usr1: "usr st1 = usr st" by (simp add: st1_def)
  note pz = pend_of_zero [OF ok u]
  obtain sid where sid: "arg c 0 = Some sid" using validStockID_some [OF v] ..
  obtain st2 s where st2: "ensureStock st1 (sarg c 0) = (st2, Some s)" "turns st ?u ?a st2" "s < s_fresh st2"
      "stockID (stk st2 s) = sarg c 0" "usr st2 = usr st1"
    using turns_ensure [OF t1 u, of sid] v sid sarg_some [OF sid] by metis
  define st3 where "st3 = refresh_quote e c s st2"
  have t3: "turns st ?u ?a st3" unfolding st3_def using st2(2) u by (rule turns_intros)
  have s3: "s < s_fresh st3" "stockID (stk st3 s) = sarg c 0" "usr st3 = usr st" "usr st2 = usr st"
    using st2(3-5) usr1 by (simp_all add: st3_def)
  define p t where "p = price (stk st3 s)" and "t = ts (stk st3 s)"
  have held: "a_held ?a ?sid = map_option num (getUserStock st2 ?u s)"
    using holding_known [OF turnsD(1) [OF st2(2)] st2(3,4), of ?u] turnsD(6) [OF st2(2)] by simp
  have q: "quote_in (cmd_sell e c st) (sarg c 0) = (p, t)"
    if "stocks (cmd_sell e c st) = stocks st3" "stk (cmd_sell e c st) = stk st3"
    using quote_in_known [OF turnsD(1) [OF t3] s3(1,2) that] by (simp add: p_def t_def)
  let ?q = "quote_in (cmd_sell e c st) (sarg c 0)"
  let ?r = "sell_spec (sarg c 0) m (fst ?q) (snd ?q) ?a"
  have cmd: "cmd_sell e c st =
     (case getUserStock st2 ?u s of
        None \<Rightarrow> fail c (- 15) st2
      | Some us \<Rightarrow>
          if num us = 0 then fail c (- 15) st2
          else if buysell (cuser c st) \<noteq> 0 then fail c (- 10) st2
          else if p < 1 then fail c (- 21) st3
          else (let n = (if num us < s64 (cdiv m p + 1) then num us else s64 (cdiv m p + 1)) in
            reply c (''SUCC,'' @ show_long n @ '','' @ show_long p @ '','' @ show_long t)
              (upd_user ?u (\<lambda>x. x\<lparr>prompt_time := t, stockObj := Some s, reserve := s64 (p * n),
                 no := n, buysell := - 1\<rparr>) st3)))"
    by (simp only: cmd_sell_def handler_simps v m(1) mne st1_def [symmetric] st2(1) s3(4) st3_def [symmetric]
        p_def [symmetric] t_def [symmetric])
  show ?thesis
  proof (cases "holding ?a ?sid = 0")
    case True
    then have "cmd_sell e c st = fail c (- 15) st2" using held
      by (cases "getUserStock st2 ?u s") (simp_all add: cmd)
    moreover have "?r = (?a, refuse (- 15))" using True by (simp add: sell_spec_def)
    ultimately show ?thesis by (simp only:) (rule does_fail [OF st2(2)], simp_all)
  next
    case False
    then obtain us where us: "getUserStock st2 ?u s = Some us" "holding ?a ?sid = num us" "num us \<noteq> 0"
      using held by (cases "getUserStock st2 ?u s") auto
    then have cmd': "cmd_sell e c st =
       (if buysell (cuser c st) \<noteq> 0 then fail c (- 10) st2
        else if p < 1 then fail c (- 21) st3
        else (let n = (if num us < s64 (cdiv m p + 1) then num us else s64 (cdiv m p + 1)) in
            reply c (''SUCC,'' @ show_long n @ '','' @ show_long p @ '','' @ show_long t)
              (upd_user ?u (\<lambda>x. x\<lparr>prompt_time := t, stockObj := Some s, reserve := s64 (p * n),
                 no := n, buysell := - 1\<rparr>) st3)))"
      by (simp only: cmd option.case if_False)
    consider "buysell (cuser c st) \<noteq> 0" | "buysell (cuser c st) = 0" "p < 1" | "buysell (cuser c st) = 0" "1 \<le> p"
      by linarith
    then show ?thesis
    proof cases
      case 1
      then have "cmd_sell e c st = fail c (- 10) st2" by (simp add: cmd')
      moreover have "?r = (?a, refuse (- 10))" using 1 pz False by (simp add: sell_spec_def)
      ultimately show ?thesis by (simp only:) (rule does_fail [OF st2(2)], simp_all)
    next
      case 2
      then have eq: "cmd_sell e c st = fail c (- 21) st3" by (simp add: cmd')
      then have "?q = (p, t)" by (intro q) simp_all
      with 2 pz False have "?r = (?a, refuse (- 21))" by (simp add: sell_spec_def)
      then show ?thesis by (simp only: eq) (rule does_fail [OF t3], simp_all)
    next
      case 3
      then have qq: "?q = (p, t)" by (intro q) (simp_all add: cmd' Let_def)
      define n where "n = min (num us) (m div p + 1)"
      have "fits64 (m + p)" using m(4) qq by simp
      moreover have "0 \<le> num us" using m(3) us(2) by simp
      ultimately have ar: "s64 (cdiv m p + 1) = m div p + 1" "s64 (p * n) = p * n"
        using sell_arith [of m p "num us"] m(2) 3(2) by (simp_all add: n_def)
      have nif: "(if num us < m div p + 1 then num us else m div p + 1) = n" by (simp add: n_def min_def)
      have c3: "(buysell (cuser c st) \<noteq> 0) = False" "(p < 1) = False" using 3 by simp_all
      have eq: "cmd_sell e c st =
          reply c (''SUCC,'' @ show_long n @ '','' @ show_long p @ '','' @ show_long t)
            (upd_user ?u (\<lambda>x. x\<lparr>prompt_time := t, stockObj := Some s, reserve := p * n, no := n,
               buysell := - 1\<rparr>) st3)"
        unfolding cmd' ar(1) Let_def nif ar(2) c3 if_False ..
      have "?r = (?a\<lparr>a_pend := Some (Pending Selling ?sid n (p * n) t)\<rparr>, offer (''SUCC,'' @ show_long n) p t)"
        using 3 pz False us(2) qq by (simp add: sell_spec_def n_def Let_def)
      then show ?thesis
        by (simp only: eq) (rule does_reply [OF turns_pending' [OF t3 u s3(1)]], simp_all add: offer_def s3)
    qed
  qed
qed

lemma commit_sell_body_refines:
  assumes t: "turns st0 (c_user c) a st" and u: "c_user c < u_fresh st0" and s: "s < s_fresh st"
    and us: "getUserStock st (c_user c) s = Some us"
    and fit: "fits64 (a_bal a + reserve (cuser c st))" "fits64 (num us - no (cuser c st))"
    and r: "r = (a\<lparr>a_bal := a_bal a + reserve (cuser c st),
        a_held := (a_held a)(stockID (stk st s) \<mapsto> num us - no (cuser c st)), a_pend := None\<rparr>, ''SUCC'')"
  shows "does c st0 r (commit_sell_body e c s us st)"
proof -
  let ?u = "c_user c"
  have ok: "server_ok st" and acc: "account_of st ?u = a" using turnsD(1,6) [OF t] by simp_all
  define st1 where "st1 = upd_user ?u (\<lambda>x. x\<lparr>balance := s64 (balance x + reserve x)\<rparr>) st"
  have t1: "turns st0 ?u (a\<lparr>a_bal := a_bal a + reserve (cuser c st)\<rparr>) st1"
    using turns_balance' [OF t u, of "\<lambda>x. s64 (balance x + reserve x)"] fit(1) acc
    by (auto simp: st1_def s64_id)
  define st2 where "st2 = log_accTrans e (c_tid c) ''add'' (cuid c st) (price2str (reserve (cuser c st))) st1"
  have t2: "turns st0 ?u (a\<lparr>a_bal := a_bal a + reserve (cuser c st)\<rparr>) st2"
    unfolding st2_def by (rule turns_intros t1 u)+
  have s2: "s < s_fresh st2" "stk st2 = stk st" "no (cuser c st2) = no (cuser c st)"
    using s by (simp_all add: st1_def st2_def)
  have us2: "getUserStock st2 ?u s \<noteq> None" using us by (simp add: getUserStock_def st1_def st2_def)
  define n where "n = num us - no (cuser c st)"
  have n: "s64 (num us - no (cuser c st2)) = n" using fit(2) by (simp add: s2(3) n_def s64_id)
  let ?a1 = "a\<lparr>a_bal := a_bal a + reserve (cuser c st)\<rparr>"
  have ok2: "server_ok st2" and u2: "?u < u_fresh st2" using turnsD(1,2) [OF t2] u by simp_all
  have "turns st2 ?u ((account_of st2 ?u)\<lparr>a_held := (a_held (account_of st2 ?u))(stockID (stk st2 s) \<mapsto> n)\<rparr>)
      (setUserStock st2 ?u s n)"
    using turns_hold_set [OF ok2 u2 s2(1) us2, of n] by simp
  with t2 have t3: "turns st0 ?u (?a1\<lparr>a_held := (a_held ?a1)(stockID (stk st2 s) \<mapsto> n)\<rparr>) (setUserStock st2 ?u s n)"
    by (rule turns_chain)
  show ?thesis
    unfolding commit_sell_body_def Let_def [of "c_user c"] Let_def [of "cuid c st"] Let_def [of "price2str x" for x]
      st1_def [symmetric] Let_def [of st1] Let_def [of "stockID x" for x] st2_def [symmetric] Let_def [of st2] n
    unfolding Let_def split_beta fst_conv snd_conv
    by (rule does_succ, (rule turns_intros t3 u)+) (simp_all add: r n_def s2(2))
qed

lemma commit_sell_at:
  assumes ok: "server_ok st" and u: "c_user c < u_fresh st"
    and fit: "\<And>sid n cash t k. a_pend (account_of st (c_user c)) = Some (Pending Selling sid n cash t) \<Longrightarrow>
      fits64 (balance (cuser c st) + cash) \<and> (a_held (account_of st (c_user c)) sid = Some k \<longrightarrow> fits64 (k - n))"
  shows "does c st (commit_sell_spec (commit_time e st (c_user c)) (account_of st (c_user c))) (cmd_commit_sell e c st)"
proof -
  let ?u = "c_user c" and ?a = "account_of st (c_user c)" and ?now = "commit_time e st (c_user c)"
  define st1 where "st1 = log_userCmd e (c_tid c) (c_cmd c) (cuid c st) spc spc spc st"
  have t1: "turns st ?u ?a st1" unfolding st1_def using ok u by (rule turns_logged)
  define st2 where "st2 = snd (getmTS e st1)"
  have t2: "turns st ?u ?a st2" unfolding st2_def using t1 u by (rule turns_intros)
  have fr: "usr st1 = usr st" "usr st2 = usr st" "stk st2 = stk st" "s_fresh st2 = s_fresh st"
    by (simp_all add: st1_def st2_def)
  have now: "fst (getmTS e st1) = clock e (Suc (ticks st))" by (simp add: st1_def)
  have gu: "getUserStock st2 ?u s = getUserStock st ?u s" for s by (simp add: getUserStock_def fr)
  show ?thesis
  proof (cases "map_option p_side (pending_of st (cuser c st)) = Some Selling")
    case False
    then have "cmd_commit_sell e c st = fail c (- 12) st1"
      using no_pending_side [OF ok u False] by (simp add: cmd_commit_sell_def Let_def st1_def)
    moreover have "commit_sell_spec ?now ?a = (?a, refuse (- 12))"
      using False by (auto simp: commit_sell_spec_def split: option.splits pending.splits side.splits)
    ultimately show ?thesis by (simp only:) (rule does_fail [OF t1], simp_all)
  next
    case True
    then obtain sid n cash t where p: "pending_of st (cuser c st) = Some (Pending Selling sid n cash t)"
      by (rule side_pending)
    obtain s where s: "stockObj (cuser c st) = Some s" "s < s_fresh st" "stockID (stk st s) = sid"
        "no (cuser c st) = n" "reserve (cuser c st) = cash" "prompt_time (cuser c st) = t"
        "buysell (cuser c st) = - 1"
      by (rule pending_fields [OF ok u p]) simp
    have f: "fits64 (balance (cuser c st) + cash)"
      and fk: "a_held ?a sid = Some k \<Longrightarrow> fits64 (k - n)" for k
      using fit [of sid n cash t] p by simp_all
    have age: "s64 (clock e (Suc (ticks st)) - t) = ?now - t" by (simp add: commit_time_def s(6))
    have held: "a_held ?a sid = map_option num (getUserStock st ?u s)" using ok s(2,3) by (rule holding_known)
    have cmd: "cmd_commit_sell e c st =
        (if ?now - t > quoteTo then fail c (- 13) (upd_user ?u clear_pending st2)
         else (case getUserStock st ?u s of
                 None \<Rightarrow> fail c (- 15) st2
               | Some us \<Rightarrow> commit_sell_body e c s us st2))"
      unfolding cmd_commit_sell_def Let_def st1_def [symmetric] split_beta now st2_def [symmetric] fr
      by (simp only: s gu age simp_thms if_False option.case)
    show ?thesis
    proof (cases "?now - t > quoteTo")
      case True
      then have "cmd_commit_sell e c st = fail c (- 13) (upd_user ?u clear_pending st2)" by (simp add: cmd)
      moreover have "commit_sell_spec ?now ?a = (?a\<lparr>a_pend := None\<rparr>, refuse (- 13))"
        using True p by (simp add: commit_sell_spec_def)
      ultimately show ?thesis by (simp only:) (rule does_fail [OF turns_clear' [OF t2 u]], simp_all)
    next
      case late: False
      show ?thesis
      proof (cases "getUserStock st ?u s")
        case None
        then have "cmd_commit_sell e c st = fail c (- 15) st2" using late by (simp add: cmd)
        moreover have "commit_sell_spec ?now ?a = (?a, refuse (- 15))"
          using late p held None by (simp add: commit_sell_spec_def)
        ultimately show ?thesis by (simp only:) (rule does_fail [OF t2], simp_all)
      next
        case (Some us)
        then have c: "cmd_commit_sell e c st = commit_sell_body e c s us st2" using late by (simp add: cmd)
        show ?thesis unfolding c
          by (rule commit_sell_body_refines [OF t2 u])
            (use s f fk p late held Some in \<open>simp_all add: fr gu commit_sell_spec_def\<close>)
      qed
    qed
  qed
qed

lemma commit_sell_refines:
  assumes ok: "server_ok st" and u: "c_user c < u_fresh st"
    and fit: "\<And>sid n cash t k. a_pend (account_of st (c_user c)) = Some (Pending Selling sid n cash t) \<Longrightarrow>
      fits64 (clock e (Suc (ticks st)) - t) \<and> fits64 (balance (cuser c st) + cash) \<and>
      (a_held (account_of st (c_user c)) sid = Some k \<longrightarrow> fits64 (k - n))"
  shows "does c st (commit_sell_spec (clock e (Suc (ticks st))) (account_of st (c_user c))) (cmd_commit_sell e c st)"
proof -
  have "commit_sell_spec (clock e (Suc (ticks st))) (account_of st (c_user c)) =
      commit_sell_spec (commit_time e st (c_user c)) (account_of st (c_user c))"
    using commit_time_fits [OF ok u] fit
    by (auto simp: commit_sell_spec_def split: option.splits pending.splits side.splits)
  with commit_sell_at [OF ok u] fit show ?thesis by simp
qed

section \<open>Orders\<close>

lemma order_known:
  assumes "server_ok st" "u < u_fresh st" "s < s_fresh st" "stockID (stk st s) = sid" "ty \<in> {CHR ''b'', CHR ''s''}"
  shows "a_order (account_of st u) (ty, sid) =
    map_option (\<lambda>a. (amount (the (trg st a)), trig (the (trg st a)))) (getTrigger st u s ty)"
  using orders_known [OF assms(1-3,5)] assms(4) by simp

text \<open>The common front of the order commands: log, then find or add the stock.\<close>

lemma turns_order_new':
  assumes "turns st0 u a st" "u < u_fresh st0" "s < s_fresh st" "stockID (stk st s) = sid"
    "ty \<in> {CHR ''b'', CHR ''s''}" "getTrigger st u s ty = None"
  shows "turns st0 u (a\<lparr>a_order := (a_order a)((ty, sid) \<mapsto> (m, p))\<rparr>) (fst (addTrigger st u tid s ty m p))"
proof -
  have u: "u < u_fresh st" using turnsD(2) [OF assms(1)] assms(2) by simp
  have "turns st u ((account_of st u)\<lparr>a_order := (a_order (account_of st u))((ty, sid) \<mapsto> (m, p))\<rparr>)
      (fst (addTrigger st u tid s ty m p))"
    using turns_order_new [OF turnsD(1) [OF assms(1)] u assms(3,5,6), of m p tid] assms(4) by simp
  with assms(1) show ?thesis by (rule turns_chain)
qed

lemma turns_order_set':
  assumes "turns st0 u a st" "u < u_fresh st0" "s < s_fresh st" "stockID (stk st s) = sid"
    "ty \<in> {CHR ''b'', CHR ''s''}" "getTrigger st u s ty = Some t" "trg st t = Some tr"
  shows "turns st0 u (a\<lparr>a_order := (a_order a)((ty, sid) \<mapsto> (amount tr, p))\<rparr>) (set_trig t p st)"
proof -
  have u: "u < u_fresh st" using turnsD(2) [OF assms(1)] assms(2) by simp
  have "turns st u ((account_of st u)\<lparr>a_order := (a_order (account_of st u))((ty, sid) \<mapsto> (amount tr, p))\<rparr>)
      (set_trig t p st)"
    using turns_order_set [OF turnsD(1) [OF assms(1)] u assms(3,5-7), of p] assms(4) by simp
  with assms(1) show ?thesis by (rule turns_chain)
qed

lemma turns_order_lost':
  assumes "turns st0 u a st" "u < u_fresh st0" "s < s_fresh st" "stockID (stk st s) = sid"
    "ty \<in> {CHR ''b'', CHR ''s''}" "getTrigger st u s ty = Some t"
  obtains ord where "loses a ty sid ord" "turns st0 u (a\<lparr>a_order := ord\<rparr>) (removeTrigger st t)"
proof -
  have u: "u < u_fresh st" using turnsD(2) [OF assms(1)] assms(2) by simp
  obtain ord where ord: "loses (account_of st u) ty (stockID (stk st s)) ord"
      "turns st u ((account_of st u)\<lparr>a_order := ord\<rparr>) (removeTrigger st t)"
    by (rule turns_order_lost [OF turnsD(1) [OF assms(1)] u assms(3,5,6)])
  have "turns st0 u (a\<lparr>a_order := ord\<rparr>) (removeTrigger st t)"
    using assms(1) ord(2) by (rule turns_chain)
  with ord(1) that show thesis by (simp add: turnsD(6) [OF assms(1)] assms(4))
qed

lemma turns_order_drop':
  assumes "turns st0 u a st" "u < u_fresh st0" "s < s_fresh st" "stockID (stk st s) = sid"
    "ty \<in> {CHR ''b'', CHR ''s''}" "getTrigger st u s ty = Some t" "shadows_none a ty sid"
  shows "turns st0 u (a\<lparr>a_order := (a_order a)((ty, sid) := None)\<rparr>) (removeTrigger st t)"
proof -
  obtain ord where ord: "loses a ty sid ord" "turns st0 u (a\<lparr>a_order := ord\<rparr>) (removeTrigger st t)"
    by (rule turns_order_lost' [OF assms(1-6)])
  from ord(2) show ?thesis unfolding loses_exact [OF ord(1) assms(7)] .
qed

lemma ensured:
  assumes ok: "server_ok st" and u: "c_user c < u_fresh st" and v: "validStockID (arg c 0)"
  obtains st' s where
    "ensureStock (log_userCmd e (c_tid c) (c_cmd c) (cuid c st) (sarg c 0) file funds st) (sarg c 0) = (st', Some s)"
    "turns st (c_user c) (account_of st (c_user c)) st'" "s < s_fresh st'" "stockID (stk st' s) = sarg c 0"
    "usr st' = usr st" "account_of st' (c_user c) = account_of st (c_user c)" "server_ok st'" "c_user c < u_fresh st'"
proof -
  obtain sid where sid: "arg c 0 = Some sid" using validStockID_some [OF v] ..
  then have v': "validStockID (Some (sarg c 0))" using v by (simp add: sarg_def)
  let ?st = "log_userCmd e (c_tid c) (c_cmd c) (cuid c st) (sarg c 0) file funds st"
  obtain st' s where st': "ensureStock ?st (sarg c 0) = (st', Some s)"
      "turns st (c_user c) (account_of st (c_user c)) st'" "s < s_fresh st'" "stockID (stk st' s) = sarg c 0"
      "usr st' = usr ?st"
    using turns_ensure [OF turns_logged [OF ok u] u v'] by metis
  with that [OF st'(1-4)] turnsD(1,2,6) [OF st'(2)] u show thesis by simp
qed

lemma set_buy_amount_refines:
  assumes ok: "server_ok st" and u: "c_user c < u_fresh st" and v: "validStockID (arg c 0)"
    and m: "str2price (arg c 1) = m" "0 \<le> m" "fits64 (balance (cuser c st) - m)"
  shows "does c st (set_buy_spec (sarg c 0) m (account_of st (c_user c))) (cmd_set_buy_amount e c st)"
proof -
  let ?u = "c_user c" and ?a = "account_of st (c_user c)" and ?sid = "sarg c 0"
  have mne: "(m = - 1) = False" using m(2) by simp
  define st1 where "st1 = log_userCmd e (c_tid c) (c_cmd c) (cuid c st) (sarg c 0) spc (sarg c 1) st"
  have t1: "turns st ?u ?a st1" unfolding st1_def using ok u by (rule turns_logged)
  have usr1: "usr st1 = usr st" by (simp add: st1_def)
  obtain st2 s where st2: "ensureStock st1 ?sid = (st2, Some s)" "turns st ?u ?a st2" "s < s_fresh st2"
      "stockID (stk st2 s) = ?sid" "usr st2 = usr st" "account_of st2 ?u = ?a" "server_ok st2" "?u < u_fresh st2"
    using ensured [OF ok u v, of e spc "sarg c 1"] unfolding st1_def by metis
  define st3 where "st3 = upd_user ?u (\<lambda>x. x\<lparr>balance := s64 (balance x - m)\<rparr>) st2"
  define st4 where "st4 = log_accTrans e (c_tid c) ''remove'' (cuid c st) (sarg c 1) st3"
  have t4: "turns st ?u (?a\<lparr>a_bal := a_bal ?a - m\<rparr>) st4"
    using turns_balance' [OF st2(2) u, of "\<lambda>x. s64 (balance x - m)"] m(3) st2(5) u
    by (auto simp: st3_def st4_def s64_id intro: turns_intros)
  have g4: "getTrigger st4 ?u s (CHR ''b'') = getTrigger st2 ?u s (CHR ''b'')" "s < s_fresh st4"
    "stockID (stk st4 s) = ?sid"
    using st2(3,4) by (simp_all add: st3_def st4_def getTrigger_def)
  have cmd: "cmd_set_buy_amount e c st =
     (if buysell (cuser c st) \<noteq> 0 then fail c (- 10) st1
      else if balance (cuser c st) < m then fail c (- 14) st1
      else if getTrigger st2 ?u s (CHR ''b'') \<noteq> None then fail c (- 16) st2
      else succ c (db_write [UpdateBal (price2str (balance (cuser c st3))) (cuid c st),
               InsertTrig (cuid c st) (c_tid c) ?sid (CHR ''b'') (sarg c 1) ''0.00'']
             (dbID (cuser c (fst (addTrigger st4 ?u (c_tid c) s (CHR ''b'') m 0))))
             (fst (addTrigger st4 ?u (c_tid c) s (CHR ''b'') m 0))))"
    unfolding cmd_set_buy_amount_def Let_def
    by (simp only: branch_simps v m(1) mne st1_def [symmetric] usr1 st2(1) st3_def [symmetric] st4_def [symmetric])
  note pz = pend_of_zero [OF ok u]
  have ord: "a_order ?a (CHR ''b'', ?sid) = None \<longleftrightarrow> getTrigger st2 ?u s (CHR ''b'') = None"
    using order_known [OF st2(7,8,3,4), of "CHR ''b''"] st2(6) by simp
  consider "buysell (cuser c st) \<noteq> 0" | "buysell (cuser c st) = 0" "balance (cuser c st) < m"
    | "buysell (cuser c st) = 0" "m \<le> balance (cuser c st)" "getTrigger st2 ?u s (CHR ''b'') \<noteq> None"
    | "buysell (cuser c st) = 0" "m \<le> balance (cuser c st)" "getTrigger st2 ?u s (CHR ''b'') = None" by linarith
  then show ?thesis
  proof cases
    case 1
    then have "cmd_set_buy_amount e c st = fail c (- 10) st1" by (simp add: cmd)
    moreover have "set_buy_spec ?sid m ?a = (?a, refuse (- 10))" using 1 pz by (simp add: set_buy_spec_def)
    ultimately show ?thesis by (simp only:) (rule does_fail [OF t1], simp_all)
  next
    case 2
    then have "cmd_set_buy_amount e c st = fail c (- 14) st1" by (simp add: cmd)
    moreover have "set_buy_spec ?sid m ?a = (?a, refuse (- 14))" using 2 pz by (simp add: set_buy_spec_def)
    ultimately show ?thesis by (simp only:) (rule does_fail [OF t1], simp_all)
  next
    case 3
    then have "cmd_set_buy_amount e c st = fail c (- 16) st2" by (simp add: cmd)
    moreover have "set_buy_spec ?sid m ?a = (?a, refuse (- 16))"
      using 3 pz ord by (simp add: set_buy_spec_def del: not_None_eq)
    ultimately show ?thesis by (simp only:) (rule does_fail [OF st2(2)], simp_all)
  next
    case 4
    then have n: "(buysell (cuser c st) \<noteq> 0) = False" "(balance (cuser c st) < m) = False"
      "(getTrigger st2 ?u s (CHR ''b'') \<noteq> None) = False" by simp_all
    have r: "set_buy_spec ?sid m ?a = (?a\<lparr>a_bal := a_bal ?a - m, a_order := (a_order ?a)((CHR ''b'', ?sid) \<mapsto> (m, 0))\<rparr>, ''SUCC'')"
      using 4 pz ord by (simp add: set_buy_spec_def)
    have "turns st ?u (?a\<lparr>a_bal := a_bal ?a - m, a_order := (a_order ?a)((CHR ''b'', ?sid) \<mapsto> (m, 0))\<rparr>)
        (fst (addTrigger st4 ?u (c_tid c) s (CHR ''b'') m 0))"
      using turns_order_new' [OF t4 u g4(2,3), of "CHR ''b''" m 0 "c_tid c"] 4(3) g4(1) by simp
    then show ?thesis unfolding cmd n if_False r
      by (intro does_succ) ((rule turns_intros u | assumption)+, simp_all)
  qed
qed

end
