(* ===== verification/Orders_Spec.thy ===== *)
theory Orders_Spec
  imports Commands_Spec
begin

text \<open>
  The order commands that arm and cancel triggers, against their specifications. Cancelling is
  exact when the cancelled identifier shadows no other order of the account.
\<close>

section \<open>Cancelling and arming orders\<close>

lemma cancel_set_buy_loses:
  assumes ok: "server_ok st" and u: "c_user c < u_fresh st" and v: "validStockID (arg c 0)"
    and fit: "\<And>m p. a_order (account_of st (c_user c)) (CHR ''b'', sarg c 0) = Some (m, p) \<Longrightarrow>
      fits64 (balance (cuser c st) + m)"
  obtains ord where "loses (account_of st (c_user c)) (CHR ''b'') (sarg c 0) ord"
    "does c st (cancel_buy_losing ord (sarg c 0) (account_of st (c_user c))) (cmd_cancel_set_buy e c st)"
proof -
  let ?u = "c_user c" and ?a = "account_of st (c_user c)" and ?sid = "sarg c 0"
  define st1 where "st1 = log_userCmd e (c_tid c) (c_cmd c) (cuid c st) (sarg c 0) spc spc st"
  obtain st2 s where st2: "ensureStock st1 ?sid = (st2, Some s)" "turns st ?u ?a st2" "s < s_fresh st2"
      "stockID (stk st2 s) = ?sid" "usr st2 = usr st" "account_of st2 ?u = ?a" "server_ok st2" "?u < u_fresh st2"
    using ensured [OF ok u v, of e spc spc] unfolding st1_def by metis
  have ord: "a_order ?a (CHR ''b'', ?sid) =
      map_option (\<lambda>a. (amount (the (trg st2 a)), trig (the (trg st2 a)))) (getTrigger st2 ?u s (CHR ''b''))"
    using order_known [OF st2(7,8,3,4), of "CHR ''b''"] st2(6) by simp
  show thesis
  proof (cases "getTrigger st2 ?u s (CHR ''b'')")
    case None
    then have "cmd_cancel_set_buy e c st = fail c (- 22) st2"
      unfolding cmd_cancel_set_buy_def Let_def by (simp only: branch_simps v st1_def [symmetric] st2(1))
    moreover have "cancel_buy_losing (a_order ?a) ?sid ?a = (?a, refuse (- 22))"
      using ord None by (simp add: cancel_buy_losing_def)
    ultimately have "does c st (cancel_buy_losing (a_order ?a) ?sid ?a) (cmd_cancel_set_buy e c st)"
      by (simp only:) (rule does_fail [OF st2(2)], simp_all)
    moreover have "loses ?a (CHR ''b'') ?sid (a_order ?a)" using ord None by (simp add: loses_def)
    ultimately show thesis by (intro that)
  next
    case (Some t)
    obtain tr where tr: "trg st2 t = Some tr"
      by (rule getTrigger_some [OF st2(7,8,3) _ Some]) auto
    define st3 where "st3 = upd_user ?u (\<lambda>x. x\<lparr>balance := s64 (balance x + amount tr)\<rparr>) st2"
    have o: "a_order ?a (CHR ''b'', ?sid) = Some (amount tr, trig tr)" using ord Some tr by simp
    have t3: "turns st ?u (?a\<lparr>a_bal := a_bal ?a + amount tr\<rparr>) st3"
      using turns_balance' [OF st2(2) u, of "\<lambda>x. s64 (balance x + amount tr)"] fit [OF o] st2(5)
      by (simp add: st3_def s64_id)
    have g3: "getTrigger st3 ?u s (CHR ''b'') = Some t" "s < s_fresh st3" "stockID (stk st3 s) = ?sid"
      using st2(3,4) Some by (simp_all add: st3_def getTrigger_def)
    have cmd: "cmd_cancel_set_buy e c st = succ c (db_write
        [UpdateBal (price2str (balance (cuser c st3))) (cuid c st), DeleteTrig (cuid c st) ?sid (CHR ''b'')]
        (dbID (cuser c (log_accTrans e (c_tid c) ''add'' (cuid c st) (price2str (amount tr)) (removeTrigger st3 t))))
        (log_accTrans e (c_tid c) ''add'' (cuid c st) (price2str (amount tr)) (removeTrigger st3 t)))"
      unfolding cmd_cancel_set_buy_def Let_def
      by (simp only: branch_simps v st1_def [symmetric] st2(1) Some tr st3_def [symmetric])
    obtain ord' where l: "loses (?a\<lparr>a_bal := a_bal ?a + amount tr\<rparr>) (CHR ''b'') ?sid ord'"
        "turns st ?u (?a\<lparr>a_bal := a_bal ?a + amount tr, a_order := ord'\<rparr>) (removeTrigger st3 t)"
      by (rule turns_order_lost' [OF t3 u g3(2,3) _ g3(1)]) simp_all
    moreover have "cancel_buy_losing ord' ?sid ?a = (?a\<lparr>a_bal := a_bal ?a + amount tr, a_order := ord'\<rparr>, ''SUCC'')"
      using o by (simp add: cancel_buy_losing_def)
    ultimately have "does c st (cancel_buy_losing ord' ?sid ?a) (cmd_cancel_set_buy e c st)" unfolding cmd
      by (intro does_succ) ((rule turns_intros u | assumption)+, simp_all)
    moreover have "loses ?a (CHR ''b'') ?sid ord'" using l(1) by (simp add: loses_def)
    ultimately show thesis by (intro that)
  qed
qed

lemma cancel_set_buy_refines:
  assumes ok: "server_ok st" and u: "c_user c < u_fresh st" and v: "validStockID (arg c 0)"
    and sh: "shadows_none (account_of st (c_user c)) (CHR ''b'') (sarg c 0)"
    and fit: "\<And>m p. a_order (account_of st (c_user c)) (CHR ''b'', sarg c 0) = Some (m, p) \<Longrightarrow>
      fits64 (balance (cuser c st) + m)"
  shows "does c st (cancel_set_buy_spec (sarg c 0) (account_of st (c_user c))) (cmd_cancel_set_buy e c st)"
  proof -
  obtain ord where ord: "loses (account_of st (c_user c)) (CHR ''b'') (sarg c 0) ord"
      "does c st (cancel_buy_losing ord (sarg c 0) (account_of st (c_user c))) (cmd_cancel_set_buy e c st)"
    by (rule cancel_set_buy_loses [OF ok u v, where e = e]) (erule fit, rule that)
  show ?thesis using ord(2) unfolding loses_exact [OF ord(1) sh] cancel_losing_exact .
qed

text \<open>Arming a buy or a sell order with its trigger price.\<close>

lemma set_trigger_refines:
  assumes ok: "server_ok st" and u: "c_user c < u_fresh st" and v: "validStockID (arg c 0)"
    and m: "str2price (arg c 1) = m" "m \<noteq> - 1"
  shows "does c st (set_trigger_spec (CHR ''b'') (sarg c 0) m (account_of st (c_user c))) (cmd_set_buy_trigger e c st)"
    "does c st (set_trigger_spec (CHR ''s'') (sarg c 0) m (account_of st (c_user c))) (cmd_set_sell_trigger e c st)"
proof -
  let ?u = "c_user c" and ?a = "account_of st (c_user c)" and ?sid = "sarg c 0"
  have mne: "(m = - 1) = False" using m(2) by simp
  define st1 where "st1 = log_userCmd e (c_tid c) (c_cmd c) (cuid c st) (sarg c 0) spc (sarg c 1) st"
  obtain st2 s where st2: "ensureStock st1 ?sid = (st2, Some s)" "turns st ?u ?a st2" "s < s_fresh st2"
      "stockID (stk st2 s) = ?sid" "usr st2 = usr st" "account_of st2 ?u = ?a" "server_ok st2" "?u < u_fresh st2"
    using ensured [OF ok u v, of e spc "sarg c 1"] unfolding st1_def by metis
  define result where "result ty = (case getTrigger st2 ?u s ty of
      None \<Rightarrow> fail c (- 22) st2
    | Some a \<Rightarrow> succ c (db_write [UpdateTrig (sarg c 1) (cuid c st) ?sid ty]
        (dbID (cuser c (set_trig a m st2))) (set_trig a m st2)))" for ty
  have "does c st (set_trigger_spec ty ?sid m ?a) (result ty)" if ty: "ty \<in> {CHR ''b'', CHR ''s''}" for ty
  proof -
    have ord: "a_order ?a (ty, ?sid) =
        map_option (\<lambda>a. (amount (the (trg st2 a)), trig (the (trg st2 a)))) (getTrigger st2 ?u s ty)"
      using order_known [OF st2(7,8,3,4) ty] st2(6) by simp
    show ?thesis
    proof (cases "getTrigger st2 ?u s ty")
      case None
      then have "set_trigger_spec ty ?sid m ?a = (?a, refuse (- 22))" using ord by (simp add: set_trigger_spec_def)
      then show ?thesis using None by (simp only: result_def option.case) (rule does_fail [OF st2(2)], simp_all)
    next
      case (Some t)
      obtain tr where tr: "trg st2 t = Some tr" by (rule getTrigger_some [OF st2(7,8,3) ty Some])
      have r: "set_trigger_spec ty ?sid m ?a = (?a\<lparr>a_order := (a_order ?a)((ty, ?sid) \<mapsto> (amount tr, m))\<rparr>, ''SUCC'')"
        using ord Some tr by (simp add: set_trigger_spec_def)
      note turns_order_set' [OF st2(2) u st2(3,4) ty Some tr, of m]
      then show ?thesis using Some unfolding result_def r
        by (simp only: option.case) (intro does_succ, (rule turns_intros u | assumption)+, simp_all)
    qed
  qed
  moreover have "cmd_set_buy_trigger e c st = result (CHR ''b'')"
    unfolding cmd_set_buy_trigger_def Let_def result_def
    by (simp only: branch_simps v m(1) mne st1_def [symmetric] st2(1))
  moreover have "cmd_set_sell_trigger e c st = result (CHR ''s'')"
    unfolding cmd_set_sell_trigger_def Let_def result_def
    by (simp only: branch_simps v m(1) mne st1_def [symmetric] st2(1))
  ultimately show "does c st (set_trigger_spec (CHR ''b'') ?sid m ?a) (cmd_set_buy_trigger e c st)"
    "does c st (set_trigger_spec (CHR ''s'') ?sid m ?a) (cmd_set_sell_trigger e c st)"
    by simp_all
qed

lemma set_sell_amount_refines:
  assumes ok: "server_ok st" and u: "c_user c < u_fresh st" and v: "validStockID (arg c 0)"
    and m: "str2price (arg c 1) = m" "m \<noteq> - 1"
  shows "does c st (set_sell_spec (sarg c 0) m (account_of st (c_user c))) (cmd_set_sell_amount e c st)"
proof -
  let ?u = "c_user c" and ?a = "account_of st (c_user c)" and ?sid = "sarg c 0"
  have mne: "(m = - 1) = False" using m(2) by simp
  define st1 where "st1 = log_userCmd e (c_tid c) (c_cmd c) (cuid c st) (sarg c 0) spc (sarg c 1) st"
  have t1: "turns st ?u ?a st1" unfolding st1_def using ok u by (rule turns_logged)
  have usr1: "usr st1 = usr st" by (simp add: st1_def)
  obtain st2 s where st2: "ensureStock st1 ?sid = (st2, Some s)" "turns st ?u ?a st2" "s < s_fresh st2"
      "stockID (stk st2 s) = ?sid" "usr st2 = usr st" "account_of st2 ?u = ?a" "server_ok st2" "?u < u_fresh st2"
    using ensured [OF ok u v, of e spc "sarg c 1"] unfolding st1_def by metis
  note pz = pend_of_zero [OF ok u]
  have ord: "a_order ?a (CHR ''s'', ?sid) = None \<longleftrightarrow> getTrigger st2 ?u s (CHR ''s'') = None"
    using order_known [OF st2(7,8,3,4), of "CHR ''s''"] st2(6) by simp
  have held: "a_held ?a ?sid = None \<longleftrightarrow> getUserStock st2 ?u s = None"
    using holding_known [OF st2(7,3,4), of ?u] st2(6) by simp
  define st3 where "st3 = fst (addTrigger st2 ?u (c_tid c) s (CHR ''s'') m 0)"
  have cmd: "cmd_set_sell_amount e c st =
     (if buysell (cuser c st) \<noteq> 0 then fail c (- 10) st1
      else if getUserStock st2 ?u s = None then fail c (- 15) st2
      else if getTrigger st2 ?u s (CHR ''s'') \<noteq> None then fail c (- 16) st2
      else succ c (db_write [InsertTrig (cuid c st) (c_tid c) ?sid (CHR ''s'') (sarg c 1) ''0.00'']
             (dbID (cuser c st3)) st3))"
    unfolding cmd_set_sell_amount_def Let_def
    by (cases "getUserStock st2 ?u s")
      (simp_all only: branch_simps v m(1) mne st1_def [symmetric] usr1 st2(1) st3_def [symmetric] option.distinct)
  consider "buysell (cuser c st) \<noteq> 0" | "buysell (cuser c st) = 0" "getUserStock st2 ?u s = None"
    | "buysell (cuser c st) = 0" "getUserStock st2 ?u s \<noteq> None" "getTrigger st2 ?u s (CHR ''s'') \<noteq> None"
    | "buysell (cuser c st) = 0" "getUserStock st2 ?u s \<noteq> None" "getTrigger st2 ?u s (CHR ''s'') = None" by blast
  then show ?thesis
  proof cases
    case 1
    then have "cmd_set_sell_amount e c st = fail c (- 10) st1" by (simp add: cmd)
    moreover have "set_sell_spec ?sid m ?a = (?a, refuse (- 10))" using 1 pz by (simp add: set_sell_spec_def)
    ultimately show ?thesis by (simp only:) (rule does_fail [OF t1], simp_all)
  next
    case 2
    then have "cmd_set_sell_amount e c st = fail c (- 15) st2" by (simp add: cmd)
    moreover have "set_sell_spec ?sid m ?a = (?a, refuse (- 15))" using 2 pz held by (simp add: set_sell_spec_def)
    ultimately show ?thesis by (simp only:) (rule does_fail [OF st2(2)], simp_all)
  next
    case 3
    then have "cmd_set_sell_amount e c st = fail c (- 16) st2" by (simp add: cmd del: not_None_eq)
    moreover have "set_sell_spec ?sid m ?a = (?a, refuse (- 16))"
      using 3 pz held ord by (simp add: set_sell_spec_def del: not_None_eq)
    ultimately show ?thesis by (simp only:) (rule does_fail [OF st2(2)], simp_all)
  next
    case 4
    then have n: "(buysell (cuser c st) \<noteq> 0) = False" "(getUserStock st2 ?u s = None) = False"
      "(getTrigger st2 ?u s (CHR ''s'') \<noteq> None) = False" by simp_all
    have r: "set_sell_spec ?sid m ?a = (?a\<lparr>a_order := (a_order ?a)((CHR ''s'', ?sid) \<mapsto> (m, 0))\<rparr>, ''SUCC'')"
      using 4 pz held ord by (simp add: set_sell_spec_def del: not_None_eq)
    have "turns st ?u (?a\<lparr>a_order := (a_order ?a)((CHR ''s'', ?sid) \<mapsto> (m, 0))\<rparr>) st3"
      unfolding st3_def using turns_order_new' [OF st2(2) u st2(3,4), of "CHR ''s''" m 0 "c_tid c"] 4(3) by simp
    then show ?thesis unfolding cmd n if_False r
      by (intro does_succ) ((rule turns_intros u | assumption)+, simp_all)
  qed
qed

lemma cancel_set_sell_loses:
  assumes ok: "server_ok st" and u: "c_user c < u_fresh st" and v: "validStockID (arg c 0)"
  obtains ord where "loses (account_of st (c_user c)) (CHR ''s'') (sarg c 0) ord"
    "does c st (cancel_sell_losing ord (sarg c 0) (account_of st (c_user c))) (cmd_cancel_set_sell e c st)"
proof -
  let ?u = "c_user c" and ?a = "account_of st (c_user c)" and ?sid = "sarg c 0"
  define st1 where "st1 = log_userCmd e (c_tid c) (c_cmd c) (cuid c st) (sarg c 0) spc spc st"
  obtain st2 s where st2: "ensureStock st1 ?sid = (st2, Some s)" "turns st ?u ?a st2" "s < s_fresh st2"
      "stockID (stk st2 s) = ?sid" "usr st2 = usr st" "account_of st2 ?u = ?a" "server_ok st2" "?u < u_fresh st2"
    using ensured [OF ok u v, of e spc spc] unfolding st1_def by metis
  have ord: "a_order ?a (CHR ''s'', ?sid) =
      map_option (\<lambda>a. (amount (the (trg st2 a)), trig (the (trg st2 a)))) (getTrigger st2 ?u s (CHR ''s''))"
    using order_known [OF st2(7,8,3,4), of "CHR ''s''"] st2(6) by simp
  show thesis
  proof (cases "getTrigger st2 ?u s (CHR ''s'')")
    case None
    then have "cmd_cancel_set_sell e c st = fail c (- 22) st2"
      unfolding cmd_cancel_set_sell_def Let_def by (simp only: branch_simps v st1_def [symmetric] st2(1))
    moreover have "cancel_sell_losing (a_order ?a) ?sid ?a = (?a, refuse (- 22))"
      using ord None by (simp add: cancel_sell_losing_def)
    ultimately have "does c st (cancel_sell_losing (a_order ?a) ?sid ?a) (cmd_cancel_set_sell e c st)"
      by (simp only:) (rule does_fail [OF st2(2)], simp_all)
    moreover have "loses ?a (CHR ''s'') ?sid (a_order ?a)" using ord None by (simp add: loses_def)
    ultimately show thesis by (intro that)
  next
    case (Some t)
    have cmd: "cmd_cancel_set_sell e c st = succ c (db_write [DeleteTrig (cuid c st) ?sid (CHR ''s'')]
        (dbID (cuser c (removeTrigger st2 t))) (removeTrigger st2 t))"
      unfolding cmd_cancel_set_sell_def Let_def by (simp only: branch_simps v st1_def [symmetric] st2(1) Some)
    obtain ord' where l: "loses ?a (CHR ''s'') ?sid ord'"
        "turns st ?u (?a\<lparr>a_order := ord'\<rparr>) (removeTrigger st2 t)"
      by (rule turns_order_lost' [OF st2(2) u st2(3,4) _ Some]) simp_all
    have "cancel_sell_losing ord' ?sid ?a = (?a\<lparr>a_order := ord'\<rparr>, ''SUCC'')"
      using ord Some by (simp add: cancel_sell_losing_def)
    with l(2) have "does c st (cancel_sell_losing ord' ?sid ?a) (cmd_cancel_set_sell e c st)" unfolding cmd
      by (intro does_succ) ((rule turns_intros u | assumption)+, simp_all)
    with l(1) show thesis by (intro that)
  qed
qed

lemma cancel_set_sell_refines:
  assumes ok: "server_ok st" and u: "c_user c < u_fresh st" and v: "validStockID (arg c 0)"
    and sh: "shadows_none (account_of st (c_user c)) (CHR ''s'') (sarg c 0)"
  shows "does c st (cancel_set_sell_spec (sarg c 0) (account_of st (c_user c))) (cmd_cancel_set_sell e c st)"
  proof -
  obtain ord where ord: "loses (account_of st (c_user c)) (CHR ''s'') (sarg c 0) ord"
      "does c st (cancel_sell_losing ord (sarg c 0) (account_of st (c_user c))) (cmd_cancel_set_sell e c st)"
    by (rule cancel_set_sell_loses [OF ok u v, where e = e]) (rule that)
  show ?thesis using ord(2) unfolding loses_exact [OF ord(1) sh] cancel_losing_exact .
qed

end
