(* ===== verification/Safety.thy ===== *)
theory Safety
  imports Orders_Spec
begin

text \<open>
  The safety of every command of the transaction server: no handler follows a dangling pointer,
  whatever the arguments, the clock and the quotes are.
\<close>

section \<open>Safety of every command\<close>

text \<open>
  Whatever the arguments, clock readings and quotes: the state stays well formed (so nothing has
  faulted), no account but the user's changes, and exactly one response is recorded.
\<close>

definition safely :: "ctx \<Rightarrow> server \<Rightarrow> server \<Rightarrow> bool" where
  "safely c st st' \<longleftrightarrow>
     server_ok st' \<and> u_fresh st' = u_fresh st \<and>
     (\<forall>v < u_fresh st. v \<noteq> c_user c \<longrightarrow> account_of st' v = account_of st v) \<and>
     (\<exists>body. replies st' = replies st @ [(c_sock c, ''WSR|'' @ c_tid c @ ''|'' @ body)])"

definition safe :: "server \<Rightarrow> addr \<Rightarrow> server \<Rightarrow> bool" where
  "safe st u st' \<longleftrightarrow> (\<exists>a. turns st u a st')"

lemma does_safely: "does c st r st' \<Longrightarrow> safely c st st'"
  unfolding does_def safely_def by blast

named_theorems safe_intros "rules for the safety of handlers"

lemma safely_respond [safe_intros]:
  assumes "safe st (c_user c) st'"
  shows "safely c st (fail c k st')" "safely c st (succ c st')" "safely c st (reply c body st')"
proof -
  obtain a where a: "turns st (c_user c) a st'" using assms by (auto simp: safe_def)
  show "safely c st (fail c k st')" by (rule does_safely, rule does_fail [OF a, of "(a, refuse k)"]) simp_all
  show "safely c st (succ c st')" by (rule does_safely, rule does_succ [OF a, of "(a, ''SUCC'')"]) simp_all
  show "safely c st (reply c body st')" by (rule does_safely, rule does_reply [OF a, of "(a, body)"]) simp_all
qed

lemma safely_if [safe_intros]:
  "(b \<Longrightarrow> safely c st x) \<Longrightarrow> (\<not> b \<Longrightarrow> safely c st y) \<Longrightarrow> safely c st (if b then x else y)"
  by simp

lemma safe_start [safe_intros]: "server_ok st \<Longrightarrow> safe st u st"
  unfolding safe_def using turns_start by blast

lemma safe_steps [safe_intros]:
  assumes "safe st u st'" "u < u_fresh st"
  shows "safe st u (log_userCmd e tid cmd uid sid file funds st')"
    "safe st u (log_accTrans e tid action uid funds st')" "safe st u (log_line l st')"
    "safe st u (db_write stmts db st')" "safe st u (snd (getmTS e st'))"
    "safe st u (ask_quote e c s st')" "safe st u (refresh_quote e c s st')"
    "safe st u (upd_user u (\<lambda>x. x\<lparr>balance := f x\<rparr>) st')" "safe st u (upd_user u clear_pending st')"
proof -
  obtain a where a: "turns st u a st'" using assms(1) by (auto simp: safe_def)
  note s = turns_steps [OF a assms(2)] turns_balance' [OF a assms(2)] turns_clear' [OF a assms(2)]
  show "safe st u (log_userCmd e tid cmd uid sid file funds st')"
    "safe st u (log_accTrans e tid action uid funds st')" "safe st u (log_line l st')"
    "safe st u (db_write stmts db st')" "safe st u (snd (getmTS e st'))"
    "safe st u (ask_quote e c s st')" "safe st u (refresh_quote e c s st')"
    "safe st u (upd_user u (\<lambda>x. x\<lparr>balance := f x\<rparr>) st')" "safe st u (upd_user u clear_pending st')"
    unfolding safe_def by (rule exI, rule s)+
qed

lemma safe_ok: "safe st u st' \<Longrightarrow> server_ok st'"
  by (auto simp: safe_def dest: turnsD(1))

lemma safe_known: "safe st u st' \<Longrightarrow> u < u_fresh st \<Longrightarrow> u < u_fresh st'"
  by (auto simp: safe_def dest: turnsD(2))

lemma safe_pending [safe_intros]:
  assumes "safe st u st'" "u < u_fresh st" "s < s_fresh st'" "b \<in> {1, - 1}"
  shows "safe st u (upd_user u (\<lambda>x. x\<lparr>prompt_time := t, stockObj := Some s, reserve := r, no := k, buysell := b\<rparr>) st')"
  using assms turns_pending' [of st u _ st' s b k r t] unfolding safe_def by blast

lemma safe_trans: "safe st u st' \<Longrightarrow> safe st' u st'' \<Longrightarrow> safe st u st''"
  unfolding safe_def using turns_trans by blast

lemma safely_ensure [safe_intros]:
  assumes "safe st (c_user c) st'" "c_user c < u_fresh st" "validStockID (Some sid)"
    and step: "\<And>st'' s. safe st (c_user c) st'' \<Longrightarrow> s < s_fresh st'' \<Longrightarrow> usr st'' = usr st' \<Longrightarrow> safely c st (g st'' s)"
  shows "safely c st (case ensureStock st' sid of (x, None) \<Rightarrow> h x | (x, Some s) \<Rightarrow> g x s)"
proof -
  obtain a where a: "turns st (c_user c) a st'" using assms(1) by (auto simp: safe_def)
  obtain st'' s where "ensureStock st' sid = (st'', Some s)" "turns st (c_user c) a st''" "s < s_fresh st''"
      "usr st'' = usr st'"
    using turns_ensure [OF a assms(2,3)] by metis
  with step [of st'' s] show ?thesis by (auto simp: safe_def)
qed

lemma safely_trigger [safe_intros]:
  assumes "\<And>a. getTrigger st' u s ty = Some a \<Longrightarrow> safely c st (g a)"
    "getTrigger st' u s ty = None \<Longrightarrow> safely c st h"
  shows "safely c st (case getTrigger st' u s ty of None \<Rightarrow> h | Some a \<Rightarrow> g a)"
  using assms by (cases "getTrigger st' u s ty") auto

lemma safely_holding [safe_intros]:
  assumes "\<And>us. getUserStock st' u s = Some us \<Longrightarrow> safely c st (g us)" "safely c st h"
  shows "safely c st (case getUserStock st' u s of None \<Rightarrow> h | Some us \<Rightarrow> g us)"
  using assms by (cases "getUserStock st' u s") auto

lemma safe_setUserStock [safe_intros]:
  assumes "safe st u st'" "u < u_fresh st" "s < s_fresh st'" "getUserStock st' u s \<noteq> None"
  shows "safe st u (setUserStock st' u s n)"
proof (rule safe_trans [OF assms(1)])
  show "safe st' u (setUserStock st' u s n)"
    using turns_hold_set [OF safe_ok [OF assms(1)] safe_known [OF assms(1,2)] assms(3,4), of n]
    unfolding safe_def by blast
qed

lemma safe_set_trig [safe_intros]:
  assumes "safe st u st'" "u < u_fresh st" "s < s_fresh st'" "getTrigger st' u s ty = Some a" "ty \<in> {CHR ''b'', CHR ''s''}"
  shows "safe st u (set_trig a prc st')"
proof (rule safe_trans [OF assms(1)])
  have ok: "server_ok st'" and u: "u < u_fresh st'" using safe_ok safe_known assms(1,2) by blast+
  obtain tr where "trg st' a = Some tr" by (rule getTrigger_some [OF ok u assms(3,5,4)])
  from turns_order_set [OF ok u assms(3,5,4) this] show "safe st' u (set_trig a prc st')"
    unfolding safe_def by blast
qed

lemma safe_addTrigger [safe_intros]:
  assumes "safe st u st'" "u < u_fresh st" "s < s_fresh st'" "ty \<in> {CHR ''b'', CHR ''s''}" "getTrigger st' u s ty = None"
  shows "safe st u (fst (addTrigger st' u tid s ty m p))"
proof (rule safe_trans [OF assms(1)])
  have ok: "server_ok st'" and u: "u < u_fresh st'" using safe_ok safe_known assms(1,2) by blast+
  from turns_order_new [OF ok u assms(3-5)] show "safe st' u (fst (addTrigger st' u tid s ty m p))"
    unfolding safe_def by blast
qed

lemma safe_removeTrigger [safe_intros]:
  assumes "safe st u st'" "u < u_fresh st" "s < s_fresh st'" "getTrigger st' u s ty = Some a" "ty \<in> {CHR ''b'', CHR ''s''}"
  shows "safe st u (removeTrigger st' a)"
proof (rule safe_trans [OF assms(1)])
  have ok: "server_ok st'" and u: "u < u_fresh st'" using safe_ok safe_known assms(1,2) by blast+
  obtain tr where tr: "trg st' a = Some tr" "t_user tr = u" "t_stock tr = s" "t_type tr = ty"
    by (rule getTrigger_some [OF ok u assms(3,5,4)])
  have inn: "getTrigger st' (t_user tr) (t_stock tr) (t_type tr) = Some a" using assms(4) tr by simp
  note rem = removeTrigger_spec(1-3) [OF ok tr(1) inn, unfolded tr(2)]
  have "turns st' u ((account_of st' u)\<lparr>a_order := orders_of (trg (removeTrigger st' a))
      (tTree (usr (removeTrigger st' a) u))\<rparr>) (removeTrigger st' a)"
    by (rule turns_trig_frame [OF ok rem(1,2) refl]) (use tr in \<open>auto simp: rem(3)\<close>)
  then show "safe st' u (removeTrigger st' a)" unfolding safe_def by blast
qed

section \<open>The commands one by one\<close>

lemma sarg_valid: "validStockID (arg c k) \<Longrightarrow> validStockID (Some (sarg c k))"
  using validStockID_some [of "arg c k"] by (auto simp: sarg_def)

lemma lookups_frame [simp]:
  "getTrigger (log_accTrans e tid action uid funds st) u s ty = getTrigger st u s ty"
  "getTrigger (upd_user v (\<lambda>x. x\<lparr>balance := f x\<rparr>) st) u s ty = getTrigger st u s ty"
  "getUserStock (log_accTrans e tid action uid funds st) u s = getUserStock st u s"
  "getUserStock (upd_user v (\<lambda>x. x\<lparr>balance := f x\<rparr>) st) u s = getUserStock st u s"
  "getUserStock (snd (getmTS e st)) u s = getUserStock st u s"
  by (simp_all add: getTrigger_def getUserStock_def)

lemma safe_if [safe_intros]:
  "(b \<Longrightarrow> safe st u x) \<Longrightarrow> (\<not> b \<Longrightarrow> safe st u y) \<Longrightarrow> safe st u (if b then x else y)"
  by simp

lemma not_not_valid [safe_intros]: "\<not> \<not> validStockID (arg c k) \<Longrightarrow> validStockID (Some (sarg c k))"
  by (simp add: sarg_valid)

lemma cmd_add_safe:
  assumes "server_ok st" "c_user c < u_fresh st"
  shows "safely c st (cmd_add e c st)"
  unfolding cmd_add_def Let_def split_beta by (rule safe_intros assms | assumption)+

lemma cmd_quote_safe:
  assumes "server_ok st" "c_user c < u_fresh st"
  shows "safely c st (cmd_quote e c st)"
  unfolding cmd_quote_def Let_def by (rule safe_intros assms | assumption)+

lemma cmd_buy_safe:
  assumes "server_ok st" "c_user c < u_fresh st"
  shows "safely c st (cmd_buy e c st)"
  unfolding cmd_buy_def Let_def by (rule safe_intros assms | assumption | simp)+

lemma cmd_sell_safe:
  assumes "server_ok st" "c_user c < u_fresh st"
  shows "safely c st (cmd_sell e c st)"
  unfolding cmd_sell_def Let_def by (rule safe_intros assms | assumption | simp)+

lemma cmd_cancel_safe:
  assumes "server_ok st" "c_user c < u_fresh st"
  shows "safely c st (cmd_cancel_buy e c st)" "safely c st (cmd_cancel_sell e c st)"
  unfolding cmd_cancel_buy_def cmd_cancel_sell_def Let_def by (rule safe_intros assms | assumption | simp)+

lemma cmd_set_amount_safe:
  assumes "server_ok st" "c_user c < u_fresh st"
  shows "safely c st (cmd_set_buy_amount e c st)" "safely c st (cmd_set_sell_amount e c st)"
  unfolding cmd_set_buy_amount_def cmd_set_sell_amount_def Let_def
  by (rule safe_intros assms | assumption | simp)+

lemma cmd_set_trigger_safe:
  assumes "server_ok st" "c_user c < u_fresh st"
  shows "safely c st (cmd_set_buy_trigger e c st)" "safely c st (cmd_set_sell_trigger e c st)"
  unfolding cmd_set_buy_trigger_def cmd_set_sell_trigger_def Let_def
  by (rule safe_intros assms | assumption | simp)+

text \<open>A trigger found in the tree is allocated.\<close>

lemma safely_allocated:
  assumes "safe st u st'" "u < u_fresh st" "s < s_fresh st'" "getTrigger st' u s ty = Some a"
    "ty \<in> {CHR ''b'', CHR ''s''}" "\<And>tr. trg st' a = Some tr \<Longrightarrow> safely c st (g tr)"
  shows "safely c st (case trg st' a of None \<Rightarrow> h | Some tr \<Rightarrow> g tr)"
proof -
  obtain tr where "trg st' a = Some tr"
    by (rule getTrigger_some [OF safe_ok [OF assms(1)] safe_known [OF assms(1,2)] assms(3,5,4)])
  with assms(6) show ?thesis by simp
qed

lemma cmd_cancel_set_safe:
  assumes "server_ok st" "c_user c < u_fresh st"
  shows "safely c st (cmd_cancel_set_buy e c st)" "safely c st (cmd_cancel_set_sell e c st)"
  unfolding cmd_cancel_set_buy_def cmd_cancel_set_sell_def Let_def
  by (rule safe_intros safely_allocated assms | assumption | simp)+

lemma cmd_dumplog_safe:
  assumes "server_ok st" "c_user c < u_fresh st"
  shows "safely c st (cmd_dumplog e c st)"
  unfolding cmd_dumplog_def Let_def by (rule safe_intros assms | assumption)+

section \<open>Commits\<close>

lemma safely_stored:
  assumes "safe st u st'" "u < u_fresh st" "s < s_fresh st'" and step: "\<And>st'' stmt. safe st u st'' \<Longrightarrow> safely c st (g stmt st'')"
  shows "safely c st (case (case getUserStock st' u s of
          None \<Rightarrow> (case addUserStock st' u s k of
                     (x, None) \<Rightarrow> (None, x)
                   | (x, Some us) \<Rightarrow> (Some (InsertStk uid sid (num us)), x))
        | Some us \<Rightarrow>
            (let n = s64 (num us + k) in (Some (UpdateStk n uid sid), setUserStock st' u s n)))
      of (stmt, x) \<Rightarrow> (case stmt of None \<Rightarrow> crash x | Some stmt \<Rightarrow> g stmt x))"
proof -
  obtain a where a: "turns st u a st'" using assms(1) by (auto simp: safe_def)
  define n where "n = (case getUserStock st' u s of None \<Rightarrow> k | Some us \<Rightarrow> s64 (num us + k))"
  obtain st'' where eq: "(case getUserStock st' u s of
          None \<Rightarrow> (case addUserStock st' u s k of
                     (x, None) \<Rightarrow> (None, x)
                   | (x, Some us) \<Rightarrow> (Some (InsertStk uid sid (num us)), x))
        | Some us \<Rightarrow>
            (let n = s64 (num us + k) in (Some (UpdateStk n uid sid), setUserStock st' u s n)))
      = (Some (if getUserStock st' u s = None then InsertStk uid sid n else UpdateStk n uid sid), st'')"
    "turns st u (a\<lparr>a_held := (a_held a)(stockID (stk st' s) \<mapsto> n)\<rparr>) st''"
    by (rule stored_shares [OF a assms(2,3) n_def, of uid sid]) (rule that)
  have "safe st u st''" using eq(2) unfolding safe_def by blast
  then show ?thesis unfolding eq(1) prod.case option.case by (rule step)
qed

lemma commit_buy_body_safe:
  assumes "safe st0 (c_user c) st" "c_user c < u_fresh st0" "s < s_fresh st"
  shows "safely c st0 (commit_buy_body e c s st)"
proof -
  define st1 where "st1 = upd_user (c_user c) (\<lambda>x. x\<lparr>balance := s64 (balance x - reserve x)\<rparr>) st"
  have s1: "safe st0 (c_user c) st1" "s < s_fresh st1"
    using assms by (auto simp: st1_def intro: safe_intros)
  show ?thesis
    unfolding commit_buy_body_def st1_def [symmetric] Let_def [of "c_user c"] Let_def [of "cuid c st"]
      Let_def [of "price2str x" for x] Let_def [of st1] Let_def [of "stockID x" for x]
      Let_def [where f = "case_prod g" for g]
    by (rule safely_stored [OF s1(1) assms(2) s1(2)])
      (unfold Let_def split_beta, (rule safe_intros assms | assumption)+)
qed

lemma cmd_commit_buy_safe:
  assumes ok: "server_ok st" and u: "c_user c < u_fresh st"
  shows "safely c st (cmd_commit_buy e c st)"
proof -
  define st1 where "st1 = log_userCmd e (c_tid c) (c_cmd c) (cuid c st) spc spc spc st"
  define st2 where "st2 = snd (getmTS e st1)"
  have s: "safe st (c_user c) st1" "safe st (c_user c) st2"
    unfolding st2_def st1_def by (rule safe_intros ok u)+
  have fr: "usr st1 = usr st" "usr st2 = usr st" "s_fresh st2 = s_fresh st" by (simp_all add: st1_def st2_def)
  have w: "user_wf (sids st) (s_fresh st) (cuser c st)" using ok u by (rule ok_user_wf)
  show ?thesis
  proof (cases "stockObj (cuser c st)")
    case None
    then have "(buysell (cuser c st) \<noteq> 1) = True" using w by (auto simp: user_wf_def)
    then show ?thesis
      unfolding cmd_commit_buy_def Let_def st1_def [symmetric] fr if_True by (simp only: if_True) (rule safe_intros s)+
  next
    case (Some k)
    then have k: "k < s_fresh st2" using w fr by (simp add: user_wf_def)
    show ?thesis
      unfolding cmd_commit_buy_def Let_def st1_def [symmetric] split_beta st2_def [symmetric] fr Some option.case
      by (rule safe_intros s u k commit_buy_body_safe)+
  qed
qed

lemma cmd_commit_sell_safe:
  assumes ok: "server_ok st" and u: "c_user c < u_fresh st"
  shows "safely c st (cmd_commit_sell e c st)"
proof -
  define st1 where "st1 = log_userCmd e (c_tid c) (c_cmd c) (cuid c st) spc spc spc st"
  define st2 where "st2 = snd (getmTS e st1)"
  have s: "safe st (c_user c) st1" "safe st (c_user c) st2"
    unfolding st2_def st1_def by (rule safe_intros ok u)+
  have fr: "usr st1 = usr st" "usr st2 = usr st" "s_fresh st2 = s_fresh st" by (simp_all add: st1_def st2_def)
  have w: "user_wf (sids st) (s_fresh st) (cuser c st)" using ok u by (rule ok_user_wf)
  show ?thesis
  proof (cases "stockObj (cuser c st)")
    case None
    then have "(buysell (cuser c st) \<noteq> - 1) = True" using w by (auto simp: user_wf_def)
    then show ?thesis
      unfolding cmd_commit_sell_def Let_def st1_def [symmetric] fr if_True by (simp only: if_True) (rule safe_intros s)+
  next
    case (Some k)
    then have k: "k < s_fresh st2" using w fr by (simp add: user_wf_def)
    have body: "safely c st (commit_sell_body e c k us st2)" if "getUserStock st2 (c_user c) k = Some us" for us
      unfolding commit_sell_body_def Let_def split_beta
      by (rule safe_intros s u | simp add: k that)+
    show ?thesis
      unfolding cmd_commit_sell_def Let_def st1_def [symmetric] split_beta st2_def [symmetric] fr Some option.case
      by (rule safe_intros s u body | assumption)+
  qed
qed

section \<open>The summary\<close>

lemma objects_look:
  "x \<in> set (objects t) \<Longrightarrow> \<exists>p. look t p = Some x"
  "x \<in> set (objects_kids ks) \<Longrightarrow> \<exists>a p. a < length ks \<and> (case ks ! a of None \<Rightarrow> False | Some s \<Rightarrow> look s p = Some x)"
proof (induction t and ks rule: objects_objects_kids.induct)
  case (1 ob ks)
  show ?case
  proof (cases "ob = Some x")
    case True
    then show ?thesis by (intro exI [of _ "[]"]) (simp add: look_def)
  next
    case False
    with 1 obtain l where l: "ks = Some l" "x \<in> set (objects_kids l)" by (auto split: option.splits)
    with 1 obtain a p where ap: "a < length l" "case l ! a of None \<Rightarrow> False | Some s \<Rightarrow> look s p = Some x" by blast
    then obtain s where "l ! a = Some s" "look s p = Some x" by (auto split: option.splits)
    with l ap show ?thesis by (intro exI [of _ "a # p"]) (simp add: look_Cons kid_def)
  qed
next
  case 2
  then show ?case by simp
next
  case (3 k ks)
  show ?case
  proof (cases "\<exists>t. k = Some t \<and> x \<in> set (objects t)")
    case True
    then obtain t p where "k = Some t" "look t p = Some x" using 3 by blast
    then show ?thesis by (intro exI [of _ 0] exI [of _ p]) simp
  next
    case False
    with 3 have "x \<in> set (objects_kids ks)" by (auto split: option.splits)
    with 3 obtain a p where "a < length ks" "case ks ! a of None \<Rightarrow> False | Some s \<Rightarrow> look s p = Some x" by blast
    then show ?thesis by (intro exI [of _ "Suc a"] exI [of _ p]) simp
  qed
qed

lemma gather_objects:
  "gather getAllTriggers t = Some (map Some (objects t))"
  "gather getAllUserStocks t' = Some (map Some (objects t'))"
  using collect_fill(1) [of t "replicate (length (objects t)) None" "[]"]
    collect_fill(1) [of t' "replicate (length (objects t')) None" "[]"]
  by (simp_all add: gather_def getAllTriggers_def getAllUserStocks_def collect_count)

definition trigger_line :: "server \<Rightarrow> addr \<Rightarrow> string" where
  "trigger_line st a =
     (case trg st a of
        None \<Rightarrow> []
      | Some tr \<Rightarrow> commas [stockID (stk st (t_stock tr)), [t_type tr], show_long (amount tr),
          show_long (trig tr)] @ [CHR 0x0A])"

definition stock_line :: "server \<Rightarrow> user_stock \<Rightarrow> string" where
  "stock_line st us = commas [stockID (stk st (us_stock us)), show_long (num us)] @ [CHR 0x0A]"

lemma trigger_info_lines:
  "(\<And>a. a \<in> set as \<Longrightarrow> trg st a \<noteq> None) \<Longrightarrow>
   trigger_info st (map Some as) = Some (concat (map (trigger_line st) as))"
proof (induction as)
  case (Cons a as)
  then obtain tr where "trg st a = Some tr" by (metis list.set_intros(1) not_None_eq)
  with Cons show ?case by (simp add: trigger_line_def)
qed simp

lemma stock_info_lines: "stock_info st (map Some us) = Some (concat (map (stock_line st) us))"
  by (induction us) (simp_all add: stock_line_def)

lemma own_triggers_allocated:
  assumes "server_ok st" "u < u_fresh st" "a \<in> set (objects (tTree (usr st u)))"
  shows "trg st a \<noteq> None"
proof -
  obtain p where "look (tTree (usr st u)) p = Some a" using objects_look(1) [OF assms(3)] by blast
  then show ?thesis using ok_tree [OF assms(1,2)] unfolding tree_ok_def by (metis option.distinct(1))
qed

lemma summary_eq:
  assumes ok: "server_ok st" and u: "c_user c < u_fresh st"
  shows "cmd_display_summary e c st =
    (let st' = log_userCmd e (c_tid c) (c_cmd c) (cuid c st) spc spc spc st in
     reply c (''SUCC|'' @ show_long (balance (cuser c st)) @ ''|'' @
       concat (map (stock_line st) (objects (usTree (cuser c st)))) @ ''|'' @
       concat (map (trigger_line st) (objects (tTree (cuser c st))))) st')"
proof -
  define st1 where "st1 = log_userCmd e (c_tid c) (c_cmd c) (cuid c st) spc spc spc st"
  have fr: "usr st1 = usr st" "stk st1 = stk st" "trg st1 = trg st" by (simp_all add: st1_def)
  have lines: "trigger_line st1 = trigger_line st" "stock_line st1 = stock_line st"
    by (auto simp: fun_eq_iff trigger_line_def stock_line_def fr split: option.split)
  have "trigger_info st1 (map Some (objects (tTree (cuser c st)))) =
      Some (concat (map (trigger_line st) (objects (tTree (cuser c st)))))"
    using trigger_info_lines [of "objects (tTree (cuser c st))" st1] own_triggers_allocated [OF ok u]
    by (simp add: fr(3) lines)
  moreover have "stock_info st1 (map Some (objects (usTree (cuser c st)))) =
      Some (concat (map (stock_line st) (objects (usTree (cuser c st)))))"
    using stock_info_lines [of st1] by (simp add: lines)
  ultimately show ?thesis
    unfolding cmd_display_summary_def Let_def st1_def [symmetric] fr gather_objects
    by (simp only: prod.case option.case)
qed

lemma cmd_display_summary_safe:
  assumes "server_ok st" "c_user c < u_fresh st"
  shows "safely c st (cmd_display_summary e c st)"
  unfolding summary_eq [OF assms] Let_def by (rule safe_intros assms)+

lemma cmd_bad_safe:
  assumes ok: "server_ok st" and u: "c_user c < u_fresh st"
  shows "safely c st (cmd_bad c st)"
proof -
  have "account_of (cmd_bad c st) v = account_of st v" for v
    by (simp add: cmd_bad_def account_of_def pending_of_def)
  then show ?thesis
    using ok_output(4) [OF ok] by (simp add: safely_def cmd_bad_def) (simp add: quickSend_def)
qed

text \<open>No command faults.\<close>

lemma exec_command_safely:
  assumes "server_ok st" "c_user c < u_fresh st"
  shows "safely c st (exec_command e c st)"
  unfolding exec_command_def Let_def
  by (intro safely_if cmd_add_safe cmd_quote_safe cmd_buy_safe cmd_commit_buy_safe cmd_cancel_safe cmd_sell_safe
      cmd_commit_sell_safe cmd_set_amount_safe cmd_cancel_set_safe cmd_set_trigger_safe cmd_dumplog_safe
      cmd_display_summary_safe cmd_bad_safe assms)

end
