(* ===== verification/Users.thy ===== *)
theory Users
  imports Safety
begin

text \<open>
  \<open>addUser\<close> and \<open>getUser\<close>: a new user is linked into the tree and the ring of users and filled
  from the rows of its database.
\<close>

section \<open>Linking a new user\<close>

definition link_user :: "server \<Rightarrow> string \<Rightarrow> server" where
  "link_user st uid =
     st\<lparr>users := fst (trie_put user_addr USER_CHARS (users st) uid (u_fresh st)),
        usr := (usr st)(u_fresh st := new_user uid), u_fresh := Suc (u_fresh st),
        u_ring := ring_insert (u_fresh st) (u_ring st), ul_num := ul_num st + 1\<rparr>"

lemma getUser_look: "user_key uid \<Longrightarrow> getUser st uid = look (users st) (map user_index uid)"
  by (simp add: getUser_def trie_get_look path_of_user)

lemma users_ok_link:
  assumes uo: "users_ok tree uid n r k" and k: "user_key new"
    and none: "look tree (map user_index new) = None"
  shows "users_ok (fst (trie_put user_addr USER_CHARS tree new n)) (uid(n := new)) (Suc n) (ring_insert n r) (k + 1)"
proof -
  have wf: "wf_trie USER_CHARS tree" and rg: "ring_list r [0..<n]" and kn: "k = int n"
    and found: "\<And>p u. look tree p = Some u \<Longrightarrow> u < n \<and> p = map user_index (uid u)"
    and known: "\<And>u. u < n \<Longrightarrow> user_key (uid u) \<and> look tree (map user_index (uid u)) = Some u"
    using uo unfolding users_ok_def by blast+
  let ?t = "fst (trie_put user_addr USER_CHARS tree new n)"
  note spec = trie_put_spec [OF path_of_user [OF k] user_path_less [OF k] wf, of n]
  have lt: "look ?t q = (if q = map user_index new then Some n else look tree q)" for q
    using spec none by simp
  have "u < Suc n \<and> p = map user_index ((uid(n := new)) u)" if "look ?t p = Some u" for p u
  proof (cases "p = map user_index new")
    case False
    with that lt found [of p u] show ?thesis by simp
  qed (use that lt in simp)
  moreover have "user_key ((uid(n := new)) u) \<and> look ?t (map user_index ((uid(n := new)) u)) = Some u"
    if "u < Suc n" for u
  proof (cases "u = n")
    case False
    with that known [of u] none lt show ?thesis by auto
  qed (use k lt in simp)
  moreover have "ring_list (ring_insert n r) [0..<Suc n]" using ring_list_insert [OF rg, of n] by simp
  ultimately show ?thesis using spec kn unfolding users_ok_def by simp
qed

lemma link_user_ok:
  assumes ok: "server_ok st" and k: "user_key uid" and none: "getUser st uid = None"
  shows "server_ok (link_user st uid)"
proof -
  let ?st = "link_user st uid" and ?n = "u_fresh st"
  have uo: "users_ok (users st) (uids st) ?n (u_ring st) (ul_num st)" using ok by (simp add: server_ok_def)
  have "uids ?st = (uids st)(?n := uid)" by (simp add: uids_def link_user_def new_user_def fun_eq_iff)
  then have "users_ok (users ?st) (uids ?st) (u_fresh ?st) (u_ring ?st) (ul_num ?st)"
    using users_ok_link [OF uo k] none getUser_look [OF k, of st] by (simp add: link_user_def)
  moreover have "user_wf (sids ?st) (s_fresh ?st) (usr ?st u)" if u: "u < u_fresh ?st" for u
  proof (cases "u = ?n")
    case True
    have "user_wf (sids st) (s_fresh st) (new_user uid)"
      by (simp add: user_wf_def new_user_def empty_trie_def look_leaf queue_inv_init)
    with True show ?thesis by (simp add: link_user_def sids_def)
  next
    case False
    with u have "u < ?n" by (simp add: link_user_def)
    from ok_user_wf [OF ok this] False show ?thesis by (simp add: link_user_def sids_def)
  qed
  moreover have "tree_ok (trg ?st) (sids ?st) u (tTree (usr ?st u))" if u: "u < u_fresh ?st" for u
  proof (cases "u = ?n")
    case True
    then show ?thesis by (simp add: link_user_def new_user_def tree_ok_def empty_trie_def look_leaf)
  next
    case False
    with u have "u < ?n" by (simp add: link_user_def)
    from ok_tree [OF ok this] False show ?thesis by (simp add: link_user_def sids_def)
  qed
  moreover have "heap_ok (trg ?st) (t_fresh ?st) (u_fresh ?st) (s_fresh ?st)"
    using ok_heap [OF ok] unfolding heap_ok_def by (auto simp: link_user_def intro: less_SucI)
  moreover have "sids ?st = sids st" "trig_ring ?st = trig_ring st"
    by (simp_all add: sids_def trig_ring_def link_user_def fun_eq_iff)
  ultimately show ?thesis
    using ok unfolding server_ok_def by (simp add: link_user_def)
qed

section \<open>Filling a user from the database\<close>

lemma safe_addTrigger_any:
  assumes "safe st u st'" "u < u_fresh st" "s < s_fresh st'" "ty \<in> {CHR ''b'', CHR ''s''}"
  shows "safe st u (fst (addTrigger st' u tid s ty m p))"
proof (cases "getTrigger st' u s ty")
  case None
  then show ?thesis using assms by (intro safe_addTrigger)
next
  case (Some a)
  have ok: "server_ok st'" and u: "u < u_fresh st'" using safe_ok safe_known assms(1,2) by blast+
  obtain st'' where st'': "addTrigger st' u tid s ty m p = (st'', Some a)" "server_ok st''" "trig_frame u st' st''"
      "trg st'' = trg st'"
    by (rule addTrigger_known [OF ok u assms(3,4) Some])
  have "turns st' u ((account_of st' u)\<lparr>a_order := orders_of (trg st'') (tTree (usr st'' u))\<rparr>) st''"
    by (rule turns_trig_frame [OF ok st''(2,3) refl]) (simp add: st''(4))
  then have "safe st' u st''" unfolding safe_def by blast
  then show ?thesis using safe_trans [OF assms(1)] st''(1) by simp
qed

lemma safe_addUserStock:
  assumes "safe st u st'" "u < u_fresh st" "s < s_fresh st'"
  shows "safe st u (fst (addUserStock st' u s n))"
proof -
  have ok: "server_ok st'" and u: "u < u_fresh st'" using safe_ok safe_known assms(1,2) by blast+
  obtain tree where t: "fst (addUserStock st' u s n) = upd_user u (\<lambda>x. x\<lparr>usTree := tree\<rparr>) st'"
      "server_ok (upd_user u (\<lambda>x. x\<lparr>usTree := tree\<rparr>) st')"
    by (rule addUserStock_spec [OF ok u assms(3), of n]) simp
  have "turns st' u (account_of (upd_user u (\<lambda>x. x\<lparr>usTree := tree\<rparr>) st') u) (upd_user u (\<lambda>x. x\<lparr>usTree := tree\<rparr>) st')"
    by (intro turns_upd_user t(2)) simp_all
  then have "safe st' u (upd_user u (\<lambda>x. x\<lparr>usTree := tree\<rparr>) st')" unfolding safe_def by blast
  then show ?thesis using safe_trans [OF assms(1)] t(1) by simp
qed

lemma safe_ensure:
  assumes "safe st u st'" "u < u_fresh st" "validStockID (Some sid)"
  obtains st'' s where "ensureStock st' sid = (st'', Some s)" "safe st u st''" "s < s_fresh st''"
proof -
  obtain a where a: "turns st u a st'" using assms(1) by (auto simp: safe_def)
  obtain st'' s where "ensureStock st' sid = (st'', Some s)" "turns st u a st''" "s < s_fresh st''"
    using turns_ensure [OF a assms(2,3)] by metis
  with that show thesis by (auto simp: safe_def)
qed

text \<open>The rows the server wrote itself: identifiers it has checked, types \<open>b\<close> and \<open>s\<close>.\<close>

fun trigger_row :: "string list \<Rightarrow> bool" where
  "trigger_row [_, tid, sid, ty, res, val] \<longleftrightarrow> validStockID (Some sid) \<and> ty \<in> {''b'', ''s''}"
| "trigger_row _ \<longleftrightarrow> False"

fun stock_row :: "string list \<Rightarrow> bool" where
  "stock_row [_, sid, n] \<longleftrightarrow> validStockID (Some sid)"
| "stock_row _ \<longleftrightarrow> False"

definition rows_ok :: "env \<Rightarrow> nat \<Rightarrow> bool" where
  "rows_ok e n \<longleftrightarrow>
     (\<forall>rs. rows e n = Some rs \<longrightarrow> (\<forall>r \<in> set rs. trigger_row r)) \<and>
     (\<forall>rs. rows e (n + 1) = Some rs \<longrightarrow> (\<forall>r \<in> set rs. stock_row r)) \<and>
     (\<forall>rs. rows e (n + 2) = Some rs \<longrightarrow> [] \<notin> set rs)"

lemma load_triggers_safe:
  assumes "safe st u st'" "u < u_fresh st" "\<forall>r \<in> set rs. trigger_row r"
  shows "safe st u (load_triggers u rs st')"
  using assms(1,3)
proof (induction rs arbitrary: st')
  case (Cons r rs)
  then obtain x tid sid ty res val where r: "r = [x, tid, sid, ty, res, val]" and v: "validStockID (Some sid)"
      and ty: "ty \<in> {''b'', ''s''}"
    by (cases r rule: trigger_row.cases) auto
  obtain st'' s where st'': "ensureStock st' sid = (st'', Some s)" "safe st u st''" "s < s_fresh st''"
    using safe_ensure [OF Cons.prems(1) assms(2) v] by blast
  have "(case ty of [] \<Rightarrow> NUL | c # _ \<Rightarrow> c) \<in> {CHR ''b'', CHR ''s''}" using ty by auto
  from safe_addTrigger_any [OF st''(2) assms(2) st''(3) this]
  have "safe st u (load_triggers u rs (fst (addTrigger st'' u tid s (case ty of [] \<Rightarrow> NUL | c # _ \<Rightarrow> c)
      (str2price (Some res)) (str2price (Some val)))))"
    using Cons.prems(2) by (intro Cons.IH) simp_all
  then show ?case by (simp add: r st''(1))
qed simp

lemma load_stocks_safe:
  assumes "safe st u st'" "u < u_fresh st" "\<forall>r \<in> set rs. stock_row r"
  shows "safe st u (load_stocks u rs st')"
  using assms(1,3)
proof (induction rs arbitrary: st')
  case (Cons r rs)
  then obtain x sid n where r: "r = [x, sid, n]" and v: "validStockID (Some sid)"
    by (cases r rule: stock_row.cases) auto
  obtain st'' s where st'': "ensureStock st' sid = (st'', Some s)" "safe st u st''" "s < s_fresh st''"
    using safe_ensure [OF Cons.prems(1) assms(2) v] by blast
  from safe_addUserStock [OF st''(2) assms(2) st''(3)]
  have "safe st u (load_stocks u rs (fst (addUserStock st'' u s (strtol10 n))))"
    using Cons.prems(2) by (intro Cons.IH) simp_all
  then show ?case by (simp add: r st''(1))
qed simp

lemma db_sent_frame:
  "db_sent (fst (ensureStock st sid)) = db_sent st"
  "db_sent (fst (addTrigger st u tid s ty m p)) = db_sent st"
  "db_sent (fst (addUserStock st u s n)) = db_sent st"
  by (simp_all add: ensureStock_def addStock_def addTrigger_def addUserStock_def Let_def split: option.split prod.split)

lemma db_sent_load: "db_sent (load_triggers u rs st) = db_sent st" "db_sent (load_stocks u rs' st) = db_sent st"
proof -
  have c: "db_sent (crash st) = db_sent st" for st by (simp add: crash_def)
  show "db_sent (load_triggers u rs st) = db_sent st"
  proof (induction u rs st rule: load_triggers.induct)
    case (2 u r rs st)
    have e: "db_sent (fst (ensureStock st sid)) = db_sent st" for sid by (rule db_sent_frame)
    show ?case
      using 2 e by (auto simp: c db_sent_frame(2) split: list.split prod.split option.split) (metis e fst_conv)+
  qed simp
  show "db_sent (load_stocks u rs' st) = db_sent st"
  proof (induction u rs' st rule: load_stocks.induct)
    case (2 u r rs st)
    have e: "db_sent (fst (ensureStock st sid)) = db_sent st" for sid by (rule db_sent_frame)
    show ?case
      using 2 e by (auto simp: c db_sent_frame(3) split: list.split prod.split option.split) (metis e fst_conv)+
  qed simp
qed

lemma load_user_safe:
  assumes ok: "server_ok st" and u: "u < u_fresh st" and r: "rows_ok e (length (db_sent st))"
  shows "safe st u (load_user e u uid st)"
proof -
  let ?n = "length (db_sent st)" and ?db = "dbID (usr st u)"
  define s1 where "s1 = db_write [SelectUserTrig uid] ?db st"
  define s2 where "s2 = (case rows e ?n of None \<Rightarrow> s1 | Some rs \<Rightarrow> load_triggers u rs s1)"
  define s3 where "s3 = db_write [SelectUserStock uid] ?db s2"
  define s4 where "s4 = (case rows e (?n + 1) of None \<Rightarrow> s3 | Some rs \<Rightarrow> load_stocks u rs s3)"
  define s5 where "s5 = db_write [SelectUserBal uid] ?db s4"
  have 1: "safe st u s1" unfolding s1_def by (rule safe_intros ok u)+
  have 2: "safe st u s2" using r 1 u by (auto simp: s2_def rows_ok_def intro!: load_triggers_safe split: option.split)
  have 3: "safe st u s3" unfolding s3_def by (rule safe_intros 2 u)+
  have 4: "safe st u s4" using r 3 u by (auto simp: s4_def rows_ok_def intro!: load_stocks_safe split: option.split)
  have 5: "safe st u s5" unfolding s5_def by (rule safe_intros 4 u)+
  have l1: "length (db_sent s2) = ?n + 1"
    by (auto simp: s2_def s1_def db_sent_load db_write_def split: option.split)
  have l2: "length (db_sent s4) = ?n + 2"
    using l1 by (auto simp: s4_def s3_def db_sent_load db_write_def split: option.split)
  have eq: "load_user e u uid st = (case rows e (?n + 2) of
      Some ((b # _) # _) \<Rightarrow> upd_user u (\<lambda>x. x\<lparr>balance := str2price (Some b)\<rparr>) s5
    | Some ([] # _) \<Rightarrow> crash s5 | _ \<Rightarrow> s5)"
    unfolding load_user_def db_read_def Let_def prod.case s1_def [symmetric] s2_def [symmetric] l1
      s3_def [symmetric] s4_def [symmetric] l2 s5_def [symmetric] ..
  show ?thesis
  proof (cases "rows e (?n + 2)")
    case None
    with 5 show ?thesis by (simp add: eq)
  next
    case (Some rs)
    show ?thesis
    proof (cases rs)
      case Nil
      with Some 5 show ?thesis by (simp add: eq)
    next
      case (Cons row more)
      then obtain b bs where "row = b # bs" using r Some by (cases row) (auto simp: rows_ok_def)
      moreover have "safe st u (upd_user u (\<lambda>x. x\<lparr>balance := str2price (Some b)\<rparr>) s5)"
        by (rule safe_intros 5 u)+
      ultimately show ?thesis using Some Cons by (simp add: eq)
    qed
  qed
qed

text \<open>A user that is not in the tree yet is added and found from then on.\<close>

lemma addUser_eq:
  assumes ok: "server_ok st" and k: "user_key uid" and none: "getUser st uid = None"
  shows "addUser e st uid = (load_user e (u_fresh st) uid (link_user st uid), Some (u_fresh st))"
proof -
  have wf: "wf_trie USER_CHARS (users st)" using ok by (simp add: server_ok_def users_ok_def)
  note spec = trie_put_spec [OF path_of_user [OF k] user_path_less [OF k] wf, of "u_fresh st"]
  have put: "trie_put user_addr USER_CHARS (users st) uid (u_fresh st) = (users (link_user st uid), Some (u_fresh st))"
    using spec none getUser_look [OF k, of st] by (simp add: prod_eq_iff link_user_def)
  show ?thesis
    unfolding addUser_def Let_def put prod.case option.case none by (simp add: link_user_def)
qed

lemma link_user_new:
  "u_fresh st < u_fresh (link_user st uid)" "db_sent (link_user st uid) = db_sent st"
  "userID (usr (link_user st uid) (u_fresh st)) = uid" "u_fresh (link_user st uid) = Suc (u_fresh st)"
  by (simp_all add: link_user_def new_user_def)

lemma found_user:
  assumes "server_ok st" "u < u_fresh st" "userID (usr st u) = uid" "user_key uid"
  shows "getUser st uid = Some u"
proof -
  have "users_ok (users st) (uids st) (u_fresh st) (u_ring st) (ul_num st)" using assms(1) by (simp add: server_ok_def)
  then have "look (users st) (map user_index (uids st u)) = Some u" using assms(2) by (simp add: users_ok_def)
  then show ?thesis using assms(3) getUser_look [OF assms(4)] by (simp add: uids_def)
qed

lemma addUser_new:
  assumes ok: "server_ok st" and k: "user_key uid" and none: "getUser st uid = None"
    and r: "rows_ok e (length (db_sent st))"
  obtains st' where "addUser e st uid = (st', Some (u_fresh st))" "safe (link_user st uid) (u_fresh st) st'"
    "server_ok st'" "u_fresh st' = Suc (u_fresh st)" "userID (usr st' (u_fresh st)) = uid"
    "getUser st' uid = Some (u_fresh st)"
proof -
  let ?u = "u_fresh st" and ?l = "link_user st uid"
  have okl: "server_ok ?l" using ok k none by (rule link_user_ok)
  have s: "safe ?l ?u (load_user e ?u uid ?l)" using okl link_user_new(1) r by (intro load_user_safe) (simp_all add: link_user_new(2))
  then obtain a where t: "turns ?l ?u a (load_user e ?u uid ?l)" by (auto simp: safe_def)
  have ok': "server_ok (load_user e ?u uid ?l)" "u_fresh (load_user e ?u uid ?l) = Suc ?u"
      "userID (usr (load_user e ?u uid ?l) ?u) = uid"
    using turnsD(1,2,8) [OF t] link_user_new(3,4) by simp_all
  moreover have "getUser (load_user e ?u uid ?l) uid = Some ?u" using ok' k by (intro found_user) simp_all
  ultimately show thesis using s that addUser_eq [OF ok k none] by blast
qed

end
