(* ===== verification/Soundness.thy ===== *)
theory Soundness
  imports Safety
begin

text \<open>
  No debt: while the amounts stay far from the ends of the 64-bit range, every command with
  non-negative amounts keeps every account sound. The handlers refine the account operations,
  which keep it; the bound on the quoted price of a sale follows from a bound on the prices in
  the stock list and on the answers of the quote server.
\<close>

section \<open>Prices\<close>

definition prices_within :: "int \<Rightarrow> env \<Rightarrow> server \<Rightarrow> bool" where
  "prices_within b e st \<longleftrightarrow> (\<forall>s. \<bar>price (stk st s)\<bar> \<le> b) \<and> (\<forall>n. \<bar>fst (answers e n)\<bar> \<le> b)"

named_theorems price_intros "rules for the bound on the prices"

lemma prices_cong: "stk st' = stk st \<Longrightarrow> prices_within b e st \<Longrightarrow> prices_within b e st'"
  by (simp add: prices_within_def)

lemma prices_output [price_intros]:
  assumes "prices_within b e st"
  shows "prices_within b e (log_userCmd e tid cmd uid sid file funds st)"
    "prices_within b e (reply c body st)" "prices_within b e (fail c k st)" "prices_within b e (succ c st)"
    "prices_within b e (upd_user u f st)" "prices_within b e (crash st)" "prices_within b e (snd (getmTS e st))"
  using assms by (auto intro: prices_cong [of _ st] simp: crash_def)

lemma prices_quote [price_intros]:
  assumes "prices_within b e st"
  shows "prices_within b e (ask_quote e c s st)" "prices_within b e (refresh_quote e c s st)"
proof -
  have q: "prices_within b e (ask_quote e c s x)" if "prices_within b e x" for x
    using that by (simp add: prices_within_def ask_quote_def split_beta upd_stock_def Let_def)
  show "prices_within b e (ask_quote e c s st)" using assms by (rule q)
  have "prices_within b e (snd (getmTS e st))" using assms by (intro price_intros)
  then show "prices_within b e (refresh_quote e c s st)"
    using q by (simp add: refresh_quote_def split_beta Let_def)
qed

lemma prices_if [price_intros]:
  "(p \<Longrightarrow> prices_within b e x) \<Longrightarrow> (\<not> p \<Longrightarrow> prices_within b e y) \<Longrightarrow> prices_within b e (if p then x else y)"
  by simp

lemma prices_case [price_intros]:
  "prices_within b e x \<Longrightarrow> (\<And>z. prices_within b e (g z)) \<Longrightarrow> prices_within b e (case w of None \<Rightarrow> x | Some z \<Rightarrow> g z)"
  by (simp split: option.split)

lemma prices_ensure [price_intros]:
  assumes "prices_within b e st" "0 \<le> b" "\<And>x s. prices_within b e x \<Longrightarrow> prices_within b e (g x s)"
  shows "prices_within b e (case ensureStock st sid of (x, None) \<Rightarrow> crash x | (x, Some s) \<Rightarrow> g x s)"
proof -
  have "prices_within b e (fst (ensureStock st sid))"
    using assms(1,2)
    by (auto simp: prices_within_def ensureStock_def addStock_def new_stock_def Let_def split: option.splits prod.splits)
  then show ?thesis
    using assms(3) by (auto intro: prices_output split: prod.split option.split)
qed

lemma prices_sell: "prices_within b e st \<Longrightarrow> 0 \<le> b \<Longrightarrow> prices_within b e (cmd_sell e c st)"
  unfolding cmd_sell_def Let_def by (intro price_intros) assumption+

lemma prices_quote_in: "prices_within b e st \<Longrightarrow> 0 \<le> b \<Longrightarrow> \<bar>fst (quote_in st sid)\<bar> \<le> b"
  by (simp add: quote_in_def prices_within_def split: option.split)

section \<open>Dispatch\<close>

lemma dispatch:
  "c_cmd c = ''ADD'' \<Longrightarrow> c_args c = [x] \<Longrightarrow> exec_command e c st = cmd_add e c st"
  "c_cmd c = ''QUOTE'' \<Longrightarrow> c_args c = [x] \<Longrightarrow> exec_command e c st = cmd_quote e c st"
  "c_cmd c = ''BUY'' \<Longrightarrow> c_args c = [x, y] \<Longrightarrow> exec_command e c st = cmd_buy e c st"
  "c_cmd c = ''COMMIT_BUY'' \<Longrightarrow> c_args c = [] \<Longrightarrow> exec_command e c st = cmd_commit_buy e c st"
  "c_cmd c = ''CANCEL_BUY'' \<Longrightarrow> c_args c = [] \<Longrightarrow> exec_command e c st = cmd_cancel_buy e c st"
  "c_cmd c = ''SELL'' \<Longrightarrow> c_args c = [x, y] \<Longrightarrow> exec_command e c st = cmd_sell e c st"
  "c_cmd c = ''COMMIT_SELL'' \<Longrightarrow> c_args c = [] \<Longrightarrow> exec_command e c st = cmd_commit_sell e c st"
  "c_cmd c = ''CANCEL_SELL'' \<Longrightarrow> c_args c = [] \<Longrightarrow> exec_command e c st = cmd_cancel_sell e c st"
  by (simp_all add: exec_command_def)

lemma dispatch_orders:
  "c_cmd c = ''SET_BUY_AMOUNT'' \<Longrightarrow> c_args c = [x, y] \<Longrightarrow> exec_command e c st = cmd_set_buy_amount e c st"
  "c_cmd c = ''CANCEL_SET_BUY'' \<Longrightarrow> c_args c = [x] \<Longrightarrow> exec_command e c st = cmd_cancel_set_buy e c st"
  "c_cmd c = ''SET_BUY_TRIGGER'' \<Longrightarrow> c_args c = [x, y] \<Longrightarrow> exec_command e c st = cmd_set_buy_trigger e c st"
  "c_cmd c = ''SET_SELL_AMOUNT'' \<Longrightarrow> c_args c = [x, y] \<Longrightarrow> exec_command e c st = cmd_set_sell_amount e c st"
  "c_cmd c = ''SET_SELL_TRIGGER'' \<Longrightarrow> c_args c = [x, y] \<Longrightarrow> exec_command e c st = cmd_set_sell_trigger e c st"
  "c_cmd c = ''CANCEL_SET_SELL'' \<Longrightarrow> c_args c = [x] \<Longrightarrow> exec_command e c st = cmd_cancel_set_sell e c st"
  "c_cmd c = ''DUMPLOG'' \<Longrightarrow> c_args c = [x] \<Longrightarrow> exec_command e c st = cmd_dumplog e c st"
  "c_cmd c = ''DISPLAY_SUMMARY'' \<Longrightarrow> c_args c = [] \<Longrightarrow> exec_command e c st = cmd_display_summary e c st"
  by (simp_all add: exec_command_def)

lemma args_one [simp]: "c_args c = [x] \<Longrightarrow> arg c 0 = Some x" "c_args c = [x] \<Longrightarrow> sarg c 0 = x"
  by (simp_all add: arg_def sarg_def nth_opt_def)

lemma args_two [simp]:
  "c_args c = [x, y] \<Longrightarrow> arg c 0 = Some x" "c_args c = [x, y] \<Longrightarrow> sarg c 0 = x"
  "c_args c = [x, y] \<Longrightarrow> arg c 1 = Some y" "c_args c = [x, y] \<Longrightarrow> arg c (Suc 0) = Some y"
  "c_args c = [x, y] \<Longrightarrow> sarg c 1 = y"
  by (simp_all add: arg_def sarg_def nth_opt_def)

end
