(* ===== verification/Samples.thy ===== *)
theory Samples
  imports Users Soundness
begin

text \<open>
  The states at which the properties are instantiated: a server with one user, who has money, ten
  shares of one stock and an order to buy more of it; and the same server with a pending buy or
  sell. They are built by the operations of the model, so that they are well formed by its lemmas.
\<close>

definition sample_env :: env where
  "sample_env = \<lparr>clock = (\<lambda>_. 100500), answers = (\<lambda>_. (250, 100001, ''KEY'')), rows = (\<lambda>_. None)\<rparr>"

definition sample_ctx :: "string \<Rightarrow> string list \<Rightarrow> ctx" where
  "sample_ctx cmd args = \<lparr>c_tid = ''7'', c_cmd = cmd, c_args = args, c_sock = 3, c_returned = 0, c_user = 0\<rparr>"

definition sample_user :: server where
  "sample_user = link_user server_init ''A1b2C3d4E5''"

definition sample_listed :: server where
  "sample_listed = fst (ensureStock sample_user ''ABC'')"

definition sample_rich :: server where
  "sample_rich = upd_user 0 (\<lambda>x. x\<lparr>balance := 2000\<rparr>) sample_listed"

definition sample_holding :: server where
  "sample_holding = fst (addUserStock sample_rich 0 0 10)"

definition sample_server :: server where
  "sample_server = fst (addTrigger sample_holding 0 ''5'' 0 (CHR ''b'') 500 200)"

definition sample_pending :: "int \<Rightarrow> server" where
  "sample_pending b = upd_user 0 (\<lambda>x. x\<lparr>prompt_time := 100000, stockObj := Some 0, reserve := 1000, no := 4,
     buysell := b\<rparr>) sample_server"

definition sample_account :: account where
  "sample_account = \<lparr>a_bal = 2000, a_pend = None, a_held = [''ABC'' \<mapsto> 10],
     a_order = [(CHR ''b'', ''ABC'') \<mapsto> (500, 200)]\<rparr>"

lemma valid_ABC: "validStockID (Some ''ABC'')" by code_simp

lemma sample_stk: "\<bar>price (stk sample_listed x)\<bar> \<le> 1000"
  by (simp add: sample_listed_def sample_user_def link_user_def server_init_def ensureStock_def addStock_def
      new_stock_def Let_def split_beta split: option.split)

lemma sample_user_ok: "server_ok sample_user \<and> u_fresh sample_user = 1"
proof -
  have "user_key ''A1b2C3d4E5''" "getUser server_init ''A1b2C3d4E5'' = None" by code_simp+
  from link_user_ok [OF server_ok_init this] show ?thesis
    by (simp add: sample_user_def link_user_def server_init_def)
qed

lemma empty_account:
  "account_of sample_user 0 = \<lparr>a_bal = 0, a_pend = None, a_held = Map.empty, a_order = Map.empty\<rparr>"
proof -
  have "usr sample_user 0 = new_user ''A1b2C3d4E5''" "trg sample_user = Map.empty"
    by (simp_all add: sample_user_def link_user_def server_init_def)
  moreover have "held_of empty_trie = Map.empty"
    by (simp add: fun_eq_iff held_of_path empty_trie_def look_leaf)
  moreover have "orders_of Map.empty empty_trie = Map.empty"
    by (simp add: fun_eq_iff orders_of_path empty_trie_def look_leaf)
  ultimately show ?thesis by (simp add: account_of_def new_user_def pending_of_def)
qed

lemma sample_listed:
  "turns sample_user 0 (account_of sample_user 0) sample_listed"
  "s_fresh sample_listed = 1" "stockID (stk sample_listed 0) = ''ABC''" "usr sample_listed = usr sample_user"
  "price (stk sample_listed 0) = 0" "ts (stk sample_listed 0) = 0" and sample_listed_trg: "trg sample_listed = Map.empty"
proof -
  have none: "getStock sample_user ''ABC'' = None" "s_fresh sample_user = 0"
    by (simp_all add: sample_user_def link_user_def server_init_def getStock_def empty_trie_def trie_get_def)
  obtain st s where st: "ensureStock sample_user ''ABC'' = (st, Some s)"
      "turns sample_user 0 (account_of sample_user 0) st"
    using turns_ensure [OF turns_start _ valid_ABC, of sample_user 0] sample_user_ok by (metis zero_less_one)
  then show "turns sample_user 0 (account_of sample_user 0) sample_listed" by (simp add: sample_listed_def)
  have "snd (trie_put stock_addr STOCK_CHARS (stocks sample_user) ''ABC'' 0) = Some 0"
    by (simp add: sample_user_def link_user_def server_init_def) code_simp
  then obtain tree where "trie_put stock_addr STOCK_CHARS (stocks sample_user) ''ABC'' 0 = (tree, Some 0)"
    by (metis prod.collapse)
  then have eq: "sample_listed = sample_user\<lparr>stocks := tree, stk := (stk sample_user)(0 := new_stock ''ABC''),
      s_fresh := 1, s_ring := ring_insert 0 (s_ring sample_user)\<rparr>"
    using none by (simp add: sample_listed_def ensureStock_def addStock_def)
  then show "s_fresh sample_listed = 1" "stockID (stk sample_listed 0) = ''ABC''" "usr sample_listed = usr sample_user"
    "price (stk sample_listed 0) = 0" "ts (stk sample_listed 0) = 0" "trg sample_listed = Map.empty"
    unfolding eq by (simp_all add: new_stock_def sample_user_def link_user_def server_init_def)
qed

lemma sample_rich:
  "turns sample_user 0 \<lparr>a_bal = 2000, a_pend = None, a_held = Map.empty, a_order = Map.empty\<rparr> sample_rich"
  "s_fresh sample_rich = 1" "stockID (stk sample_rich 0) = ''ABC''"
  "usTree (usr sample_rich 0) = empty_trie" "tTree (usr sample_rich 0) = empty_trie" "trg sample_rich = Map.empty"
proof -
  have u: "0 < u_fresh sample_user" using sample_user_ok by simp
  show "turns sample_user 0 \<lparr>a_bal = 2000, a_pend = None, a_held = Map.empty, a_order = Map.empty\<rparr> sample_rich"
    using turns_balance' [OF sample_listed(1) u, of "\<lambda>_. 2000"] by (simp add: sample_rich_def empty_account)
  show "s_fresh sample_rich = 1" "stockID (stk sample_rich 0) = ''ABC''"
    "usTree (usr sample_rich 0) = empty_trie" "tTree (usr sample_rich 0) = empty_trie"
    by (simp_all add: sample_rich_def sample_listed)
      (simp_all add: sample_user_def link_user_def server_init_def new_user_def)
  show "trg sample_rich = Map.empty"
    using sample_listed_trg by (simp add: sample_rich_def)
qed

lemma sample_holding:
  "turns sample_user 0 \<lparr>a_bal = 2000, a_pend = None, a_held = [''ABC'' \<mapsto> 10], a_order = Map.empty\<rparr> sample_holding"
  "s_fresh sample_holding = 1" "stockID (stk sample_holding 0) = ''ABC''"
  "tTree (usr sample_holding 0) = empty_trie"
proof -
  have d: "server_ok sample_rich" "0 < u_fresh sample_rich" "0 < s_fresh sample_rich"
    using turnsD(1,2) [OF sample_rich(1)] sample_user_ok sample_rich(2) by simp_all
  have none: "getUserStock sample_rich 0 0 = None"
    by (simp add: getUserStock_def sample_rich(3,4) trie_get_def empty_trie_def)
  have acc: "account_of sample_rich 0 = \<lparr>a_bal = 2000, a_pend = None, a_held = Map.empty, a_order = Map.empty\<rparr>"
    using turnsD(6) [OF sample_rich(1)] .
  obtain st' where st': "addUserStock sample_rich 0 0 10 = (st', Some \<lparr>num = 10, us_stock = 0\<rparr>)"
      "turns sample_rich 0 ((account_of sample_rich 0)\<lparr>a_held :=
        (held_of (usTree (usr sample_rich 0)))(stockID (stk sample_rich 0) \<mapsto> 10)\<rparr>) st'"
    using turns_hold_new [OF d none, of 10] by metis
  have "held_of (usTree (usr sample_rich 0)) = Map.empty"
    by (simp add: sample_rich(4) fun_eq_iff held_of_path empty_trie_def look_leaf)
  with st' turns_trans [OF sample_rich(1), of _ st']
  show "turns sample_user 0 \<lparr>a_bal = 2000, a_pend = None, a_held = [''ABC'' \<mapsto> 10], a_order = Map.empty\<rparr> sample_holding"
    by (simp add: sample_holding_def acc sample_rich(3))
  show "s_fresh sample_holding = 1" "stockID (stk sample_holding 0) = ''ABC''"
    "tTree (usr sample_holding 0) = empty_trie"
    by (simp_all add: sample_holding_def addUserStock_def split_beta sample_rich)
qed

lemma sample_server:
  "turns sample_user 0 sample_account sample_server"
  "s_fresh sample_server = 1" "stockID (stk sample_server 0) = ''ABC''"
proof -
  have d: "server_ok sample_holding" "0 < u_fresh sample_holding" "0 < s_fresh sample_holding"
    using turnsD(1,2) [OF sample_holding(1)] sample_user_ok sample_holding(2) by simp_all
  have none: "getTrigger sample_holding 0 0 (CHR ''b'') = None"
    by (simp add: getTrigger_def sample_holding(3,4) trie_get_def empty_trie_def)
  have acc: "account_of sample_holding 0 = \<lparr>a_bal = 2000, a_pend = None, a_held = [''ABC'' \<mapsto> 10], a_order = Map.empty\<rparr>"
    using turnsD(6) [OF sample_holding(1)] .
  have "turns sample_holding 0 ((account_of sample_holding 0)\<lparr>a_order :=
      (orders_of (trg sample_holding) (tTree (usr sample_holding 0)))((CHR ''b'', stockID (stk sample_holding 0)) \<mapsto> (500, 200))\<rparr>)
      sample_server"
    unfolding sample_server_def by (rule turns_order_new [OF d _ none]) simp
  moreover have "orders_of (trg sample_holding) (tTree (usr sample_holding 0)) = Map.empty"
    by (simp add: sample_holding(4) fun_eq_iff orders_of_path empty_trie_def look_leaf)
  ultimately show "turns sample_user 0 sample_account sample_server"
    using turns_trans [OF sample_holding(1), of _ sample_server]
    by (simp add: acc sample_account_def sample_holding(3))
  show "s_fresh sample_server = 1" "stockID (stk sample_server 0) = ''ABC''"
    by (simp_all add: sample_server_def addTrigger_def split_beta Let_def put_trig_ring_def sample_holding split: option.splits)
qed

lemma sample_ok: "server_ok sample_server" "u_fresh sample_server = 1" "account_of sample_server 0 = sample_account"
  using turnsD(1,2,6) [OF sample_server(1)] sample_user_ok by simp_all

lemma sample_pending:
  assumes "b \<in> {1, - 1}"
  shows "server_ok (sample_pending b)" "u_fresh (sample_pending b) = 1"
    "account_of (sample_pending b) 0 =
       sample_account\<lparr>a_pend := Some (Pending (if b = 1 then Buying else Selling) ''ABC'' 4 1000 100000)\<rparr>"
proof -
  have "turns sample_user 0 (sample_account\<lparr>a_pend :=
      Some (Pending (if b = 1 then Buying else Selling) ''ABC'' 4 1000 100000)\<rparr>) (sample_pending b)"
    using turns_pending' [OF sample_server(1), of 0 b 4 1000 100000] sample_user_ok sample_server(2,3) assms
    by (simp add: sample_pending_def)
  from turnsD(1,2,6) [OF this] sample_user_ok
  show "server_ok (sample_pending b)" "u_fresh (sample_pending b) = 1"
    "account_of (sample_pending b) 0 =
       sample_account\<lparr>a_pend := Some (Pending (if b = 1 then Buying else Selling) ''ABC'' 4 1000 100000)\<rparr>"
    by simp_all
qed

section \<open>Facts the instances share\<close>

lemma sample_ctx [simp]:
  "c_cmd (sample_ctx cmd args) = cmd" "c_args (sample_ctx cmd args) = args" "c_user (sample_ctx cmd args) = 0"
  by (simp_all add: sample_ctx_def)

lemma sample_texts:
  "str2price (Some ''10.00'') = 1000" "str2price (Some ''2.50'') = 250" "validStockID (Some ''ABC'')"
  by code_simp+

lemma sample_env_clock [simp]: "clock sample_env n = 100500"
  by (simp add: sample_env_def)

lemma sample_user_fields:
  "balance (usr sample_server 0) = 2000"
  "b \<in> {1, - 1} \<Longrightarrow> balance (usr (sample_pending b) 0) = 2000"
  using sample_ok(3) sample_pending(3) [of b] account_sel(1) [of sample_server 0] account_sel(1) [of "sample_pending b" 0]
  by (simp_all add: sample_account_def)

lemma sample_prices: "prices_within 1000 sample_env sample_server"
  by (simp add: prices_within_def sample_server_def sample_holding_def sample_rich_def sample_env_def
      addTrigger_def addUserStock_def Let_def split_beta put_trig_ring_def sample_stk split: option.split)

end
