(* ===== verification/Trading.thy ===== *)
theory Trading
  imports Samples
begin

text \<open>
  The trading commands as the client sees them: what \<open>exec_command\<close> does to the account of the
  user and what it answers, by refinement of the account operations, and the safety of every
  command line. \<open>does c st (a, body) st'\<close> says that the user's account becomes \<open>a\<close>, that no other
  account changes, that the state stays well formed and that \<open>body\<close> is the one response.
\<close>

section \<open>Safety\<close>



section \<open>Buying and selling\<close>



text \<open>C7: COMMIT_BUY within the time limit takes the reserved money, adds the shares to the holding
  (creating it when it is missing) and ends the pending buy; too late it only ends it; without a
  pending buy it is refused. The new balance and holding are required to fit 64 bits.\<close>

theorem commit_buy_command:
  assumes "server_ok st" "c_user c < u_fresh st" "c_cmd c = ''COMMIT_BUY''" "c_args c = []"
    "\<And>sid n cash t. a_pend (account_of st (c_user c)) = Some (Pending Buying sid n cash t) \<Longrightarrow>
      fits64 (clock e (Suc (ticks st)) - t) \<and> fits64 (balance (cuser c st) - cash) \<and>
      fits64 (holding (account_of st (c_user c)) sid + n)"
  shows "does c st (commit_buy_spec (clock e (Suc (ticks st))) (account_of st (c_user c))) (exec_command e c st)"
  unfolding dispatch(4) [OF assms(3,4)] using assms(1,2,5) by (rule commit_buy_refines)

lemma commit_buy_command_witness:
  "does (sample_ctx ''COMMIT_BUY'' []) (sample_pending 1)
    (sample_account\<lparr>a_bal := 1000, a_held := [''ABC'' \<mapsto> 14]\<rparr>, ''SUCC'')
    (exec_command sample_env (sample_ctx ''COMMIT_BUY'' []) (sample_pending 1))"
proof -
  let ?c = "sample_ctx ''COMMIT_BUY'' []"
  have "does ?c (sample_pending 1) (commit_buy_spec (clock sample_env (Suc (ticks (sample_pending 1))))
      (account_of (sample_pending 1) (c_user ?c))) (exec_command sample_env ?c (sample_pending 1))"
    by (rule commit_buy_command)
      (auto simp: sample_pending sample_user_fields sample_account_def fits64_def)
  then show ?thesis
    by (simp add: sample_pending commit_buy_spec_def sample_account_def quoteTo_def)
qed

text \<open>C8: SELL with a non-negative amount: refused without shares, with something pending or
  without a price; otherwise the shares the amount is worth plus one, at most the whole holding,
  become the pending sell at the stock's price. The quoted prices are bounded by \<open>b\<close>.\<close>

theorem sell_command:
  assumes "server_ok st" "c_user c < u_fresh st" "c_cmd c = ''SELL''" "c_args c = [sid, amt]"
    "validStockID (Some sid)" "str2price (Some amt) = m" "0 \<le> m" "0 \<le> holding (account_of st (c_user c)) sid"
    "prices_within b e st" "fits64 (m + b)"
  shows "does c st (sell_spec sid m (fst (quote_in (exec_command e c st) sid))
    (snd (quote_in (exec_command e c st) sid)) (account_of st (c_user c))) (exec_command e c st)"
proof -
  have b: "0 \<le> b" using assms(9) abs_ge_zero [of "price (stk st 0)"] unfolding prices_within_def by (meson order_trans)
  have "\<bar>fst (quote_in (cmd_sell e c st) sid)\<bar> \<le> b"
    using prices_quote_in [OF prices_sell [OF assms(9) b] b] .
  then have "fits64 (m + fst (quote_in (cmd_sell e c st) sid))"
    using assms(7,10) b unfolding fits64_def by linarith
  with sell_refines [of st c m e] assms show ?thesis by (simp add: dispatch)
qed

lemma sell_command_witness:
  "does (sample_ctx ''SELL'' [''ABC'', ''10.00'']) sample_server
    (sell_spec ''ABC'' 1000
      (fst (quote_in (exec_command sample_env (sample_ctx ''SELL'' [''ABC'', ''10.00'']) sample_server) ''ABC''))
      (snd (quote_in (exec_command sample_env (sample_ctx ''SELL'' [''ABC'', ''10.00'']) sample_server) ''ABC'')) sample_account)
    (exec_command sample_env (sample_ctx ''SELL'' [''ABC'', ''10.00'']) sample_server)"
  using sell_command [of sample_server "sample_ctx ''SELL'' [''ABC'', ''10.00'']" "''ABC''" "''10.00''" 1000 1000 sample_env]
    sample_ok sample_texts sample_prices by (simp add: fits64_def sample_account_def)

text \<open>C9: COMMIT_SELL within the time limit adds the reserved money to the balance, takes the shares
  from the holding and ends the pending sell; too late it only ends it; without a pending sell it
  is refused.\<close>

theorem commit_sell_command:
  assumes "server_ok st" "c_user c < u_fresh st" "c_cmd c = ''COMMIT_SELL''" "c_args c = []"
    "\<And>sid n cash t k. a_pend (account_of st (c_user c)) = Some (Pending Selling sid n cash t) \<Longrightarrow>
      fits64 (clock e (Suc (ticks st)) - t) \<and> fits64 (balance (cuser c st) + cash) \<and>
      (a_held (account_of st (c_user c)) sid = Some k \<longrightarrow> fits64 (k - n))"
  shows "does c st (commit_sell_spec (clock e (Suc (ticks st))) (account_of st (c_user c))) (exec_command e c st)"
  unfolding dispatch(7) [OF assms(3,4)] using assms(1,2,5) by (rule commit_sell_refines)

lemma commit_sell_command_witness:
  "does (sample_ctx ''COMMIT_SELL'' []) (sample_pending (- 1))
    (sample_account\<lparr>a_bal := 3000, a_held := [''ABC'' \<mapsto> 6]\<rparr>, ''SUCC'')
    (exec_command sample_env (sample_ctx ''COMMIT_SELL'' []) (sample_pending (- 1)))"
proof -
  let ?c = "sample_ctx ''COMMIT_SELL'' []"
  have "does ?c (sample_pending (- 1)) (commit_sell_spec (clock sample_env (Suc (ticks (sample_pending (- 1)))))
      (account_of (sample_pending (- 1)) (c_user ?c))) (exec_command sample_env ?c (sample_pending (- 1)))"
    by (rule commit_sell_command)
      (auto simp: sample_pending sample_user_fields sample_account_def fits64_def)
  then show ?thesis
    by (simp add: sample_pending commit_sell_spec_def sample_account_def quoteTo_def)
qed

section \<open>Standing orders\<close>

text \<open>C10: SET_BUY_AMOUNT sets the amount aside: it is refused when something is pending, the
  balance does not cover the amount or there is a buy order on the stock already; otherwise the
  amount leaves the balance and becomes the stake of a new order without a trigger price.\<close>

theorem set_buy_amount_command:
  assumes "server_ok st" "c_user c < u_fresh st" "c_cmd c = ''SET_BUY_AMOUNT''" "c_args c = [sid, amt]"
    "validStockID (Some sid)" "str2price (Some amt) = m" "0 \<le> m" "fits64 (balance (cuser c st) - m)"
  shows "does c st (set_buy_spec sid m (account_of st (c_user c))) (exec_command e c st)"
  using set_buy_amount_refines [of st c m e] assms by (simp add: dispatch_orders)

lemma set_buy_amount_command_witness:
  "does (sample_ctx ''SET_BUY_AMOUNT'' [''ABC'', ''10.00'']) sample_server (sample_account, refuse (- 16))
    (exec_command sample_env (sample_ctx ''SET_BUY_AMOUNT'' [''ABC'', ''10.00'']) sample_server)"
  using set_buy_amount_command [of sample_server "sample_ctx ''SET_BUY_AMOUNT'' [''ABC'', ''10.00'']" "''ABC''" "''10.00''"
      1000 sample_env]
    sample_ok sample_texts sample_user_fields by (simp add: fits64_def set_buy_spec_def sample_account_def)

text \<open>C11: CANCEL_SET_BUY gives the stake of the order back to the balance and removes the order,
  provided the stock's identifier shadows no other buy order of the account.\<close>

theorem cancel_set_buy_command:
  assumes "server_ok st" "c_user c < u_fresh st" "c_cmd c = ''CANCEL_SET_BUY''" "c_args c = [sid]"
    "validStockID (Some sid)" "shadows_none (account_of st (c_user c)) (CHR ''b'') sid"
    "\<And>m p. a_order (account_of st (c_user c)) (CHR ''b'', sid) = Some (m, p) \<Longrightarrow> fits64 (balance (cuser c st) + m)"
  shows "does c st (cancel_set_buy_spec sid (account_of st (c_user c))) (exec_command e c st)"
  using cancel_set_buy_refines [of st c e] assms by (simp add: dispatch_orders)

lemma cancel_set_buy_command_witness:
  "does (sample_ctx ''CANCEL_SET_BUY'' [''ABC'']) sample_server
    (sample_account\<lparr>a_bal := 2500, a_order := Map.empty\<rparr>, ''SUCC'')
    (exec_command sample_env (sample_ctx ''CANCEL_SET_BUY'' [''ABC'']) sample_server)"
proof -
  have "shadows_none sample_account (CHR ''b'') ''ABC''" by (simp add: shadows_none_def sample_account_def)
  then show ?thesis
    using cancel_set_buy_command [of sample_server "sample_ctx ''CANCEL_SET_BUY'' [''ABC'']" "''ABC''" sample_env]
      sample_ok sample_texts sample_user_fields
    by (simp add: fits64_def cancel_set_buy_spec_def sample_account_def)
qed

text \<open>C12: SET_BUY_TRIGGER and SET_SELL_TRIGGER set the trigger price of the order of their side on
  the stock and keep its stake; without such an order they are refused.\<close>

theorem set_trigger_command:
  assumes "server_ok st" "c_user c < u_fresh st" "c_args c = [sid, amt]"
    "c_cmd c = (if ty = CHR ''b'' then ''SET_BUY_TRIGGER'' else ''SET_SELL_TRIGGER'')" "ty \<in> {CHR ''b'', CHR ''s''}"
    "validStockID (Some sid)" "str2price (Some amt) = m" "m \<noteq> - 1"
  shows "does c st (set_trigger_spec ty sid m (account_of st (c_user c))) (exec_command e c st)"
  using set_trigger_refines [of st c m e] assms by (auto simp: dispatch_orders)

lemma set_trigger_command_witness:
  "does (sample_ctx ''SET_BUY_TRIGGER'' [''ABC'', ''2.50'']) sample_server
    (sample_account\<lparr>a_order := [(CHR ''b'', ''ABC'') \<mapsto> (500, 250)]\<rparr>, ''SUCC'')
    (exec_command sample_env (sample_ctx ''SET_BUY_TRIGGER'' [''ABC'', ''2.50'']) sample_server)"
  using set_trigger_command [of sample_server "sample_ctx ''SET_BUY_TRIGGER'' [''ABC'', ''2.50'']" "''ABC''" "''2.50''"
      "CHR ''b''" 250 sample_env]
    sample_ok sample_texts by (simp add: set_trigger_spec_def sample_account_def)

text \<open>C13: SET_SELL_AMOUNT creates the sell order of a held stock without a trigger price: it is
  refused when something is pending, the stock is not held or there is a sell order already. No
  shares are set aside for it.\<close>

theorem set_sell_amount_command:
  assumes "server_ok st" "c_user c < u_fresh st" "c_cmd c = ''SET_SELL_AMOUNT''" "c_args c = [sid, amt]"
    "validStockID (Some sid)" "str2price (Some amt) = m" "m \<noteq> - 1"
  shows "does c st (set_sell_spec sid m (account_of st (c_user c))) (exec_command e c st)"
  using set_sell_amount_refines [of st c m e] assms by (simp add: dispatch_orders)

lemma set_sell_amount_command_witness:
  "does (sample_ctx ''SET_SELL_AMOUNT'' [''ABC'', ''10.00'']) sample_server
    (sample_account\<lparr>a_order := [(CHR ''b'', ''ABC'') \<mapsto> (500, 200), (CHR ''s'', ''ABC'') \<mapsto> (1000, 0)]\<rparr>, ''SUCC'')
    (exec_command sample_env (sample_ctx ''SET_SELL_AMOUNT'' [''ABC'', ''10.00'']) sample_server)"
  using set_sell_amount_command [of sample_server "sample_ctx ''SET_SELL_AMOUNT'' [''ABC'', ''10.00'']" "''ABC''" "''10.00''"
      1000 sample_env]
    sample_ok sample_texts by (simp add: set_sell_spec_def sample_account_def)

text \<open>C14: CANCEL_SET_SELL removes the sell order, provided the stock's identifier shadows no other
  sell order of the account; without an order it is refused.\<close>

theorem cancel_set_sell_command:
  assumes "server_ok st" "c_user c < u_fresh st" "c_cmd c = ''CANCEL_SET_SELL''" "c_args c = [sid]"
    "validStockID (Some sid)" "shadows_none (account_of st (c_user c)) (CHR ''s'') sid"
  shows "does c st (cancel_set_sell_spec sid (account_of st (c_user c))) (exec_command e c st)"
  using cancel_set_sell_refines [of st c e] assms by (simp add: dispatch_orders)

lemma cancel_set_sell_command_witness:
  "does (sample_ctx ''CANCEL_SET_SELL'' [''ABC'']) sample_server (sample_account, refuse (- 22))
    (exec_command sample_env (sample_ctx ''CANCEL_SET_SELL'' [''ABC'']) sample_server)"
  using cancel_set_sell_command [of sample_server "sample_ctx ''CANCEL_SET_SELL'' [''ABC'']" "''ABC''" sample_env]
    sample_ok sample_texts by (simp add: cancel_set_sell_spec_def sample_account_def shadows_none_def)

section \<open>The other commands\<close>

text \<open>ADD with a parsed amount adds it to the balance and nothing else, when the sum fits.\<close>

theorem add_command:
  assumes "server_ok st" "c_user c < u_fresh st" "c_cmd c = ''ADD''" "c_args c = [amt]"
    "str2price (Some amt) = m" "m \<noteq> - 1" "fits64 (balance (cuser c st) + m)"
  shows "does c st (add_spec m (account_of st (c_user c))) (exec_command e c st)"
  using add_refines [of st c m e] assms by (simp add: dispatch)

lemma add_command_witness:
  "does (sample_ctx ''ADD'' [''10.00'']) sample_server (sample_account\<lparr>a_bal := 3000\<rparr>, ''SUCC'')
    (exec_command sample_env (sample_ctx ''ADD'' [''10.00'']) sample_server)"
  using add_command [of sample_server "sample_ctx ''ADD'' [''10.00'']" "''10.00''" 1000 sample_env]
    sample_ok sample_texts sample_user_fields by (simp add: fits64_def add_spec_def sample_account_def)

text \<open>CANCEL_BUY and CANCEL_SELL drop the pending transaction of their side and nothing else;
  when there is none they are refused and change nothing.\<close>

theorem cancel_command:
  assumes "server_ok st" "c_user c < u_fresh st" "c_args c = []"
    "c_cmd c = (if sd = Buying then ''CANCEL_BUY'' else ''CANCEL_SELL'')"
  shows "does c st (cancel_spec sd (account_of st (c_user c))) (exec_command e c st)"
  using cancel_buy_refines [OF assms(1,2), of e] cancel_sell_refines [OF assms(1,2), of e] assms(3,4)
  by (cases sd) (simp_all add: dispatch)

lemma cancel_command_witness:
  "does (sample_ctx ''CANCEL_SELL'' []) (sample_pending (- 1)) (sample_account, ''SUCC'')
    (exec_command sample_env (sample_ctx ''CANCEL_SELL'' []) (sample_pending (- 1)))"
  using cancel_command [of "sample_pending (- 1)" "sample_ctx ''CANCEL_SELL'' []" Selling sample_env]
    sample_pending [of "- 1"] by (simp add: cancel_spec_def sample_account_def)



end
