(* ===== verification/Triggers.thy ===== *)
theory Triggers
  imports Soundness
begin

text \<open>
  The trigger thread (\<open>trigger_handler\<close>): it walks the ring of stocks, refreshes the quote of a
  stock that has triggers, and makes one pass over the ring of its triggers, firing those whose
  condition holds and whose user's mutex it gets. A pass is the code's do-while loop with fuel;
  the number of the stock's triggers is enough fuel.
\<close>

section \<open>Firing one trigger\<close>

text \<open>The first branch: a buy trigger above the quote, \<open>numStock\<close> shares affordable.\<close>

definition fire_buy :: "env \<Rightarrow> addr \<Rightarrow> int \<Rightarrow> int \<Rightarrow> addr \<Rightarrow> trigger \<Rightarrow> server \<Rightarrow> server" where
  "fire_buy e s quotePrice numStock a tr st =
     (let u = t_user tr; uid = userID (usr st u); sid = stockID (stk st s); tid = t_transID tr;
          cUserStock = getUserStock st u s;
          tbuy = s64 (quotePrice * numStock);
          strPrcMod = price2str tbuy;
          st = log_accTrans e tid ''remove'' uid strPrcMod st;
          (stmt, st) =
            (case cUserStock of
               None \<Rightarrow>
                 (case addUserStock st u s numStock of
                    (st, None) \<Rightarrow> (None, st)
                  | (st, Some us) \<Rightarrow> (Some (InsertStk uid sid (num us)), st))
             | Some us \<Rightarrow>
                 (let n = s64 (num us + numStock)
                  in (Some (UpdateStk n uid sid), setUserStock st u s n)))
      in case stmt of
           None \<Rightarrow> crash st
         | Some stk_stmt \<Rightarrow>
             (let st = upd_user u (\<lambda>x. x\<lparr>balance := s64 (balance x + amount tr - tbuy)\<rparr>) st;
                  strPrcNew = price2str (balance (usr st u));
                  (now, st) = getmTS e st;
                  st = removeTrigger st a
              in db_write [stk_stmt, UpdateBal strPrcNew uid,
                     InsertTran uid tid sid strPrcMod now (CHR ''g''), DeleteTrig uid sid (CHR ''b'')]
                   (dbID (usr st u)) st))"

text \<open>The second branch: a sell trigger below the quote, on a holding \<open>us\<close> with shares.\<close>

definition fire_sell :: "env \<Rightarrow> addr \<Rightarrow> int \<Rightarrow> addr \<Rightarrow> trigger \<Rightarrow> user_stock \<Rightarrow> server \<Rightarrow> server" where
  "fire_sell e s quotePrice a tr us st =
     (let u = t_user tr; uid = userID (usr st u); sid = stockID (stk st s); tid = t_transID tr;
          numStock = s64 (cdiv (amount tr) quotePrice + 1);
          numStock = (if num us < numStock then num us else numStock);
          tsell = s64 (quotePrice * numStock);
          strPrcMod = price2str tsell;
          n = s64 (num us - numStock);
          st = setUserStock st u s n;
          st = upd_user u (\<lambda>x. x\<lparr>balance := s64 (balance x + tsell)\<rparr>) st;
          strPrcNew = price2str (balance (usr st u));
          st = log_accTrans e tid ''add'' uid strPrcMod st;
          (now, st) = getmTS e st;
          st = removeTrigger st a
      in db_write [UpdateStk n uid sid, UpdateBal strPrcNew uid,
             InsertTran uid tid sid strPrcMod now (CHR ''h''), DeleteTrig uid sid (CHR ''s'')]
           (dbID (usr st u)) st)"

text \<open>The decision, with the user's mutex held; the flag says whether the trigger was removed.\<close>

definition fire :: "env \<Rightarrow> addr \<Rightarrow> int \<Rightarrow> addr \<Rightarrow> trigger \<Rightarrow> server \<Rightarrow> server \<times> bool" where
  "fire e s quotePrice a tr st =
     (if t_type tr = CHR ''b'' \<and> quotePrice < trig tr then
        (let numStock = cdiv (amount tr) quotePrice
         in if numStock = 0 then (st, False) else (fire_buy e s quotePrice numStock a tr st, True))
      else if t_type tr = CHR ''s'' \<and> quotePrice > trig tr \<and> trig tr \<noteq> 0 then
        (case getUserStock st (t_user tr) s of
           None \<Rightarrow> (st, False)
         | Some us \<Rightarrow> if num us = 0 then (st, False) else (fire_sell e s quotePrice a tr us st, True))
      else (st, False))"

section \<open>One pass over the triggers of a stock\<close>

text \<open>
  The body of the do-while loop: \<open>start\<close> is the code's \<open>sTrigger\<close>, \<open>busy\<close> says whether the
  user's mutex is taken. The results are the trigger looked at, the new state, the new \<open>sTrigger\<close>
  and the loop condition.
\<close>

definition pass_step :: "env \<Rightarrow> bool \<Rightarrow> addr \<Rightarrow> int \<Rightarrow> addr \<Rightarrow> server \<Rightarrow> addr list \<times> server \<times> addr \<times> bool" where
  "pass_step e busy s p start st =
     (case t_curr st s of
        None \<Rightarrow> ([], crash st, start, False)
      | Some a \<Rightarrow>
          (let st1 = put_trig_ring s (ring_advance (trig_ring st s)) st in
           case trg st1 a of
             None \<Rightarrow> ([a], crash st1, start, False)
           | Some tr \<Rightarrow>
               (let (st2, fired) = (if busy then (st1, False) else fire e s p a tr st1);
                    sTrigMod = (fired \<and> start = a);
                    start' = (if sTrigMod then t_next st1 a else start)
                in ([a], st2, start', t_curr st2 s \<noteq> None \<and> (t_curr st2 s \<noteq> Some start' \<or> sTrigMod)))))"

text \<open>The loop; \<open>busy k\<close> is the outcome of attempt \<open>k\<close> on a mutex, the list the triggers looked at.\<close>

fun pass_loop :: "env \<Rightarrow> (nat \<Rightarrow> bool) \<Rightarrow> addr \<Rightarrow> int \<Rightarrow> nat \<Rightarrow> nat \<Rightarrow> addr \<Rightarrow> server \<Rightarrow> (addr list \<times> server) option" where
  "pass_loop e busy s p 0 k start st = None"
| "pass_loop e busy s p (Suc fuel) k start st =
     (case pass_step e (busy k) s p start st of
        (seen, st', start', again) \<Rightarrow>
          if again then map_option (apfst ((@) seen)) (pass_loop e busy s p fuel (Suc k) start' st')
          else Some (seen, st'))"

text \<open>One round of the outer loop: the next stock of the ring, a fresh quote, the pass.\<close>

definition trigger_round :: "env \<Rightarrow> (nat \<Rightarrow> bool) \<Rightarrow> nat \<Rightarrow> nat \<Rightarrow> addr \<Rightarrow> server \<Rightarrow> (addr \<times> addr list \<times> server) option" where
  "trigger_round e busy fuel returned cStock st =
     (let s = r_next (s_ring st) cStock in
      case t_curr st s of
        None \<Rightarrow> Some (s, [], st)
      | Some sTrigger \<Rightarrow>
          (case trg st sTrigger of
             None \<Rightarrow> Some (s, [], crash st)
           | Some tr \<Rightarrow>
               (let c = \<lparr>c_tid = t_transID tr,
                         c_cmd = (if t_type tr = CHR ''b'' then ''SET_BUY_AMOUNT'' else ''SET_SELL_AMOUNT''),
                         c_args = [], c_sock = 0, c_returned = returned, c_user = t_user tr\<rparr>;
                    st = refresh_quote e c s st;
                    quotePrice = price (stk st s)
                in if quotePrice < 1 then Some (s, [], st)
                   else map_option (Pair s) (pass_loop e busy s quotePrice fuel 0 sTrigger st))))"

section \<open>Linked triggers\<close>

text \<open>
  The members of a stock's ring from \<open>curr\<close> on, each of which its owner's tree still holds: a
  trigger whose node was freed by a removal under a shadowing identifier is not.
\<close>

definition armed :: "server \<Rightarrow> addr \<Rightarrow> addr list \<Rightarrow> bool" where
  "armed st s as \<longleftrightarrow>
     ring_list (trig_ring st s) as \<and>
     (\<forall>a \<in> set as. \<exists>tr. trg st a = Some tr \<and> t_stock tr = s \<and> getTrigger st (t_user tr) s (t_type tr) = Some a)"

definition same_triggers :: "server \<Rightarrow> server \<Rightarrow> bool" where
  "same_triggers st st' \<longleftrightarrow>
     trg st' = trg st \<and> trig_ring st' = trig_ring st \<and> stk st' = stk st \<and>
     (\<forall>v. tTree (usr st' v) = tTree (usr st v))"

lemma same_triggers_refl: "same_triggers st st"
  by (simp add: same_triggers_def)

lemma same_triggers_trans: "same_triggers st st' \<Longrightarrow> same_triggers st' st'' \<Longrightarrow> same_triggers st st''"
  by (simp add: same_triggers_def)

lemma same_triggers_steps:
  "same_triggers st (log_accTrans e tid action uid funds st)"
  "same_triggers st (snd (getmTS e st))"
  "same_triggers st (db_write stmts db st)"
  "same_triggers st (upd_user u (\<lambda>x. x\<lparr>balance := f x\<rparr>) st)"
  "same_triggers st (setUserStock st u s n)"
  "same_triggers st (fst (addUserStock st u s n))"
  by (simp_all add: same_triggers_def trig_ring_def fun_eq_iff setUserStock_def addUserStock_def split_beta)

lemma same_getTrigger: "same_triggers st st' \<Longrightarrow> getTrigger st' u s ty = getTrigger st u s ty"
  by (simp add: same_triggers_def getTrigger_def)

lemma same_armed: "same_triggers st st' \<Longrightarrow> armed st' s as \<longleftrightarrow> armed st s as"
  using same_getTrigger [of st st'] by (simp add: armed_def same_triggers_def)

section \<open>What firing does up to the removal\<close>

lemma same_stored:
  "same_triggers st (snd (case getUserStock st u s of
      None \<Rightarrow> (case addUserStock st u s k of
                 (x, None) \<Rightarrow> (None, x)
               | (x, Some us) \<Rightarrow> (Some (InsertStk uid sid (num us)), x))
    | Some us \<Rightarrow>
        (let n = s64 (num us + k) in (Some (UpdateStk n uid sid), setUserStock st u s n))))"
  using same_triggers_steps(5,6) by (auto simp: Let_def split: option.split prod.split) (metis fst_conv)+

lemma fire_buy_eq:
  assumes ok: "server_ok st" and u: "t_user tr < u_fresh st" and s: "s < s_fresh st"
    and n: "n = (case getUserStock st (t_user tr) s of None \<Rightarrow> k | Some us \<Rightarrow> s64 (num us + k))"
  obtains st' stmts db where "fire_buy e s p k a tr st = db_write stmts db (removeTrigger st' a)"
    "turns st (t_user tr) ((account_of st (t_user tr))\<lparr>
      a_held := (a_held (account_of st (t_user tr)))(stockID (stk st s) \<mapsto> n),
      a_bal := s64 (balance (usr st (t_user tr)) + amount tr - s64 (p * k))\<rparr>) st'"
    "same_triggers st st'"
proof -
  let ?u = "t_user tr" and ?sid = "stockID (stk st s)" and ?tid = "t_transID tr" and ?uid = "userID (usr st (t_user tr))"
  define tbuy where "tbuy = s64 (p * k)"
  define st1 where "st1 = log_accTrans e ?tid ''remove'' ?uid (price2str tbuy) st"
  have us: "getUserStock st ?u s = getUserStock st1 ?u s" by (simp add: st1_def)
  have t1: "turns st ?u (account_of st ?u) st1" unfolding st1_def by (rule turns_intros turns_start ok u)+
  have s1: "s < s_fresh st1" "stk st1 = stk st" "balance (usr st1 ?u) = balance (usr st ?u)"
    using s by (simp_all add: st1_def)
  obtain st2 where st2: "(case getUserStock st1 ?u s of
          None \<Rightarrow> (case addUserStock st1 ?u s k of
                     (x, None) \<Rightarrow> (None, x)
                   | (x, Some us) \<Rightarrow> (Some (InsertStk ?uid ?sid (num us)), x))
        | Some us \<Rightarrow>
            (let n = s64 (num us + k) in (Some (UpdateStk n ?uid ?sid), setUserStock st1 ?u s n)))
      = (Some (if getUserStock st1 ?u s = None then InsertStk ?uid ?sid n else UpdateStk n ?uid ?sid), st2)"
    "turns st ?u ((account_of st ?u)\<lparr>a_held := (a_held (account_of st ?u))(stockID (stk st1 s) \<mapsto> n)\<rparr>) st2"
    "balance (usr st2 ?u) = balance (usr st1 ?u)"
    by (rule stored_shares [OF t1 u s1(1) n [unfolded us], of ?uid ?sid]) (rule that)
  have same2: "same_triggers st1 st2" using same_stored [where st = st1 and u = ?u and s = s and k = k and uid = ?uid and sid = ?sid] by (simp only: st2(1) snd_conv)
  define st3 where "st3 = upd_user ?u (\<lambda>x. x\<lparr>balance := s64 (balance x + amount tr - tbuy)\<rparr>) st2"
  have t3: "turns st ?u ((account_of st ?u)\<lparr>a_held := (a_held (account_of st ?u))(?sid \<mapsto> n),
      a_bal := s64 (balance (usr st ?u) + amount tr - tbuy)\<rparr>) (snd (getmTS e st3))"
    using turns_balance' [OF st2(2) u, of "\<lambda>x. s64 (balance x + amount tr - tbuy)"]
    unfolding st3_def [symmetric] st2(3) s1(2,3) by (intro turns_intros u)
  have "same_triggers st (snd (getmTS e st3))"
    unfolding st3_def by (rule same_triggers_trans [OF _ same_triggers_steps(2)],
      rule same_triggers_trans [OF _ same_triggers_steps(4)], rule same_triggers_trans [OF _ same2])
      (unfold st1_def, rule same_triggers_steps)
  moreover have "\<exists>stmts db. fire_buy e s p k a tr st = db_write stmts db (removeTrigger (snd (getmTS e st3)) a)"
    unfolding fire_buy_def Let_def tbuy_def [symmetric] st1_def [symmetric] us st2(1) [unfolded Let_def]
      prod.case option.case st3_def [symmetric]
    unfolding split_beta by blast
  ultimately show thesis using that t3 unfolding tbuy_def by blast
qed

lemma fire_sell_eq:
  assumes ok: "server_ok st" and u: "t_user tr < u_fresh st" and s: "s < s_fresh st"
    and us: "getUserStock st (t_user tr) s = Some us"
    and k: "k = (let k = s64 (cdiv (amount tr) p + 1) in if num us < k then num us else k)"
  obtains st' stmts db where "fire_sell e s p a tr us st = db_write stmts db (removeTrigger st' a)"
    "turns st (t_user tr) ((account_of st (t_user tr))\<lparr>
      a_held := (a_held (account_of st (t_user tr)))(stockID (stk st s) \<mapsto> s64 (num us - k)),
      a_bal := s64 (balance (usr st (t_user tr)) + s64 (p * k))\<rparr>) st'"
    "same_triggers st st'"
proof -
  let ?u = "t_user tr" and ?sid = "stockID (stk st s)" and ?tid = "t_transID tr" and ?uid = "userID (usr st (t_user tr))"
  define tsell where "tsell = s64 (p * k)"
  define st1 where "st1 = setUserStock st ?u s (s64 (num us - k))"
  have t1: "turns st ?u ((account_of st ?u)\<lparr>a_held := (a_held (account_of st ?u))(?sid \<mapsto> s64 (num us - k))\<rparr>) st1"
    using turns_hold_set [OF ok u s, of "s64 (num us - k)"] us by (simp add: st1_def)
  have b1: "balance (usr st1 ?u) = balance (usr st ?u)" by (simp add: st1_def setUserStock_def)
  define st2 where "st2 = upd_user ?u (\<lambda>x. x\<lparr>balance := s64 (balance x + tsell)\<rparr>) st1"
  define st3 where "st3 = log_accTrans e ?tid ''add'' ?uid (price2str tsell) st2"
  have t2: "turns st ?u ((account_of st ?u)\<lparr>a_held := (a_held (account_of st ?u))(?sid \<mapsto> s64 (num us - k)),
      a_bal := s64 (balance (usr st ?u) + tsell)\<rparr>) (snd (getmTS e st3))"
    using turns_balance' [OF t1 u, of "\<lambda>x. s64 (balance x + tsell)"]
    unfolding st2_def [symmetric] b1 st3_def by (intro turns_intros u)
  have "same_triggers st (snd (getmTS e st3))"
    unfolding st3_def st2_def by (rule same_triggers_trans [OF _ same_triggers_steps(2)],
      rule same_triggers_trans [OF _ same_triggers_steps(1)], rule same_triggers_trans [OF _ same_triggers_steps(4)])
      (unfold st1_def, rule same_triggers_steps)
  moreover have "\<exists>stmts db. fire_sell e s p a tr us st = db_write stmts db (removeTrigger (snd (getmTS e st3)) a)"
    unfolding fire_sell_def Let_def split_beta k [unfolded Let_def, symmetric] tsell_def [symmetric]
      st1_def [symmetric] st2_def [symmetric] st3_def [symmetric] by blast
  ultimately show thesis using that t2 unfolding tsell_def by blast
qed

text \<open>A linked trigger has a known user and stock and one of the two types.\<close>

lemma linked_known:
  assumes "server_ok st" "trg st a = Some tr"
  shows "t_user tr < u_fresh st" "t_stock tr < s_fresh st" "t_type tr \<in> {CHR ''b'', CHR ''s''}"
  using ok_heap [OF assms(1)] assms(2) unfolding heap_ok_def by blast+

lemma fire_cases:
  assumes ok: "server_ok st" and tr: "trg st a = Some tr" and s: "t_stock tr = s"
  obtains "fire e s p a tr st = (st, False)"
  | st' stmts db acc where "fire e s p a tr st = (db_write stmts db (removeTrigger st' a), True)"
    "turns st (t_user tr) acc st'" "same_triggers st st'"
proof -
  note k = linked_known [OF ok tr]
  have s': "s < s_fresh st" using k(2) s by simp
  show thesis
  proof (cases "t_type tr = CHR ''b'' \<and> p < trig tr")
    case True
    show thesis
    proof (cases "cdiv (amount tr) p = 0")
      case True
      with \<open>t_type tr = CHR ''b'' \<and> p < trig tr\<close> that(1) show thesis by (simp add: fire_def)
    next
      case False
      obtain st' stmts db acc where "fire_buy e s p (cdiv (amount tr) p) a tr st = db_write stmts db (removeTrigger st' a)"
          "turns st (t_user tr) acc st'" "same_triggers st st'"
        by (rule fire_buy_eq [OF ok k(1) s' refl])
      with True False that(2) show thesis by (simp add: fire_def)
    qed
  next
    case b: False
    show thesis
    proof (cases "t_type tr = CHR ''s'' \<and> p > trig tr \<and> trig tr \<noteq> 0")
      case True
      show thesis
      proof (cases "getUserStock st (t_user tr) s")
        case None
        with b True that(1) show thesis by (simp add: fire_def)
      next
        case (Some us)
        show thesis
        proof (cases "num us = 0")
          case True
          with b \<open>t_type tr = CHR ''s'' \<and> p > trig tr \<and> trig tr \<noteq> 0\<close> Some that(1) show thesis by (simp add: fire_def)
        next
          case False
          obtain st' stmts db acc where "fire_sell e s p a tr us st = db_write stmts db (removeTrigger st' a)"
              "turns st (t_user tr) acc st'" "same_triggers st st'"
            by (rule fire_sell_eq [OF ok k(1) s' Some refl])
          with b True Some False that(2) show thesis by (simp add: fire_def)
        qed
      qed
    next
      case False
      with b have "fire e s p a tr st = (st, False)" by (auto simp: fire_def)
      then show thesis by (rule that(1))
    qed
  qed
qed

lemma same_ok_linked:
  assumes "same_triggers st st'" "trg st a = Some tr" "getTrigger st (t_user tr) s (t_type tr) = Some a"
  shows "trg st' a = Some tr" "getTrigger st' (t_user tr) s (t_type tr) = Some a"
  using assms same_getTrigger [OF assms(1)] by (simp_all add: same_triggers_def)

lemma safe_of_turns: "turns st u a st' \<Longrightarrow> safe st u st'"
  by (auto simp: safe_def)

lemma fire_safe:
  assumes ok: "server_ok st" and tr: "trg st a = Some tr" and s: "t_stock tr = s"
    and g: "getTrigger st (t_user tr) s (t_type tr) = Some a"
  shows "safe st (t_user tr) (fst (fire e s p a tr st))"
proof -
  note k = linked_known [OF ok tr]
  show ?thesis
  proof (rule fire_cases [OF ok tr s, of e p])
    assume "fire e s p a tr st = (st, False)"
    then show ?thesis using safe_start [OF ok] by simp
  next
    fix st' stmts db acc
    assume f: "fire e s p a tr st = (db_write stmts db (removeTrigger st' a), True)"
      and t: "turns st (t_user tr) acc st'" and same: "same_triggers st st'"
    have s': "s < s_fresh st'" using turnsD(4) [OF t] k(2) s by simp
    have "safe st (t_user tr) (db_write stmts db (removeTrigger st' a))"
      by (rule safe_steps(4), rule safe_removeTrigger [OF safe_of_turns [OF t] k(1) s' _ k(3)])
        (use same_ok_linked(2) [OF same tr g] k(1) in simp_all)
    then show ?thesis by (simp add: f)
  qed
qed

text \<open>Removing a trigger of a stock leaves the other triggers of the same stock linked.\<close>

lemma armed_remove:
  assumes ok: "server_ok st" and ar: "armed st s (as @ [a])" and tr: "trg st a = Some tr"
  shows "armed (removeTrigger st a) s as"
proof -
  let ?st = "removeTrigger st a"
  obtain tr' where "trg st a = Some tr'" "t_stock tr' = s" "getTrigger st (t_user tr') s (t_type tr') = Some a"
    using ar by (auto simp: armed_def)
  with tr have s: "t_stock tr = s" and g: "getTrigger st (t_user tr) s (t_type tr) = Some a" by simp_all
  note k = linked_known [OF ok tr]
  have inn: "getTrigger st (t_user tr) (t_stock tr) (t_type tr) = Some a" using g s by simp
  note rem = removeTrigger_spec [OF ok tr inn, unfolded s]
  have ring: "ring_list (trig_ring st s) (as @ [a])" using ar by (simp add: armed_def)
  then have d: "a \<notin> set as" "remove1 a (as @ [a]) = as" by (auto simp: ring_list_def remove1_append)
  have s': "s < s_fresh st" using k(2) s by simp
  have stk: "stk ?st = stk st" "s_fresh ?st = s_fresh st" using rem(2) by (simp_all add: trig_frame_def)
  have lk: "look (tTree (usr st (t_user tr))) (trigger_path (t_type tr) (stockID (stk st s))) = Some a"
    using g getTrigger_look [OF ok s' k(3), of "t_user tr"] by simp
  obtain tree where "trie_remove (\<lambda>i. nat (c_int (stockID (stk st s) ! i) -
        (if t_type tr = CHR ''b'' then 65 else 65 - int STOCK_CHARS)))
      (length (stockID (stk st s)) - 1) (tTree (usr st (t_user tr)))
      (trigger_path (t_type tr) (stockID (stk st s))) = Some tree"
    using trie_remove_some [OF lk] by blast
  then have "?st = (upd_user (t_user tr) (\<lambda>x. x\<lparr>tTree := tree\<rparr>)
      (put_trig_ring s (ring_remove a (trig_ring st s)) st))\<lparr>trg := (trg st)(a := None)\<rparr>"
    using removeTrigger_eq [OF tr k(3), unfolded s, OF lk] by blast
  then have "trig_ring ?st s = ring_remove a (trig_ring st s)"
    by (simp add: trig_ring_def put_trig_ring_def)
  then have "ring_list (trig_ring ?st s) as" using ring_list_remove [OF ring, of a] d(2) by simp
  moreover have "\<exists>trb. trg ?st b = Some trb \<and> t_stock trb = s \<and> getTrigger ?st (t_user trb) s (t_type trb) = Some b"
    if b: "b \<in> set as" for b
  proof -
    obtain trb where trb: "trg st b = Some trb" "t_stock trb = s" "getTrigger st (t_user trb) s (t_type trb) = Some b"
      using ar b by (auto simp: armed_def)
    have ba: "b \<noteq> a" using b d(1) by blast
    note kb = linked_known [OF ok trb(1)]
    note gl = getTrigger_look [OF ok s' kb(3)] and gl' = getTrigger_look [OF rem(1) _ kb(3), of s, unfolded stk, OF s']
    have "getTrigger ?st (t_user trb) s (t_type trb) = Some b"
    proof (cases "t_user trb = t_user tr")
      case True
      have ty: "t_type trb \<noteq> t_type tr" using trb(3) g ba True by auto
      have "stock_key (stockID (stk st s))" using ok s' by (rule known_key)
      from rem(5) [OF this kb(3)] ty
      have "look (tTree (usr ?st (t_user tr))) (trigger_path (t_type trb) (stockID (stk st s))) =
          look (tTree (usr st (t_user tr))) (trigger_path (t_type trb) (stockID (stk st s)))"
        by blast
      then show ?thesis using trb(3) True by (simp add: gl gl')
    next
      case False
      then show ?thesis using trb(3) trig_frame_other [OF rem(2)] by (simp add: gl gl')
    qed
    moreover have "trg ?st b = Some trb" using trb(1) ba rem(3) by simp
    ultimately show ?thesis using trb(2) by blast
  qed
  ultimately show ?thesis by (simp add: armed_def)
qed

section \<open>The pass\<close>

lemma advance_ok:
  assumes ok: "server_ok st" and c: "t_curr st s \<noteq> None"
  shows "server_ok (put_trig_ring s (ring_advance (trig_ring st s)) st)"
proof -
  define st1 where "st1 = put_trig_ring s (ring_advance (trig_ring st s)) st"
  have trees: "trg st1 = trg st" "usr st1 = usr st" "stk st1 = stk st" "s_fresh st1 = s_fresh st" "t_fresh st1 = t_fresh st"
    "u_fresh st1 = u_fresh st"
    by (simp_all add: st1_def)
  obtain bs where bs: "ring_list (trig_ring st s) bs" "set bs = watchers (trg st) s"
    using ok_rings [OF ok] by (auto simp: rings_ok_def)
  have "bs \<noteq> []" using bs(1) c by (auto simp: ring_list_def trig_ring_def)
  then obtain b cs where cs: "bs = b # cs" by (cases bs) auto
  have "rings_ok (trg st) (trig_ring st1)"
    unfolding st1_def
  proof (rule rings_ok_put [OF ok_rings [OF ok]])
    show "ring_list (ring_advance (trig_ring st s)) (cs @ [b])" using bs(1) cs by (intro ring_list_advance) simp
    show "set (cs @ [b]) = watchers (trg st) s" using bs(2) cs by simp
  qed (simp_all add: ring_advance_def trig_ring_def)
  moreover have fr: "trig_frame 0 st st1"
    unfolding trig_frame_def by (simp add: st1_def)
  ultimately show ?thesis
    unfolding st1_def [symmetric]
    using ok_tree [OF ok] ok_heap [OF ok] by (intro server_ok_trigs [OF ok fr]) (simp_all only: trees)
qed

lemma advance_armed:
  assumes ok: "server_ok st" and ar: "armed st s (a # as)"
  shows "server_ok (put_trig_ring s (ring_advance (trig_ring st s)) st)"
    "armed (put_trig_ring s (ring_advance (trig_ring st s)) st) s (as @ [a])"
    "t_next (put_trig_ring s (ring_advance (trig_ring st s)) st) a = hd (as @ [a])"
proof -
  have rg: "trig_ring (put_trig_ring s (ring_advance (trig_ring st s)) st) s = ring_advance (trig_ring st s)"
    by (simp add: trig_ring_def put_trig_ring_def)
  have r: "ring_list (trig_ring st s) (a # as)" using ar by (simp add: armed_def)
  then show "server_ok (put_trig_ring s (ring_advance (trig_ring st s)) st)"
    by (intro advance_ok [OF ok]) (simp add: ring_list_def trig_ring_def)
  show "armed (put_trig_ring s (ring_advance (trig_ring st s)) st) s (as @ [a])"
    using ar ring_list_advance [OF r] by (auto simp: armed_def rg getTrigger_def)
  show "t_next (put_trig_ring s (ring_advance (trig_ring st s)) st) a = hd (as @ [a])"
    using r by (cases as) (simp_all add: ring_list_def trig_ring_def put_trig_ring_def ring_advance_def)
qed

lemma armed_curr: "armed st s as \<Longrightarrow> t_curr st s = (if as = [] then None else Some (hd as))"
  by (simp add: armed_def ring_list_def trig_ring_def split: if_splits)

lemma armed_distinct: "armed st s as \<Longrightarrow> distinct as"
  by (simp add: armed_def ring_list_def)

lemma pass_step_armed:
  assumes ok: "server_ok st" and ar: "armed st s (a # as)"
  obtains st' fired where "server_ok st'" "armed st' s (if fired then as else as @ [a])"
    "pass_step e busy s p start st =
       ([a], st', (if fired \<and> start = a then hd (as @ [a]) else start),
        t_curr st' s \<noteq> None \<and> (t_curr st' s \<noteq> Some (if fired \<and> start = a then hd (as @ [a]) else start) \<or> fired \<and> start = a))"
    "u_fresh st' = u_fresh st"
proof -
  define st1 where "st1 = put_trig_ring s (ring_advance (trig_ring st s)) st"
  note adv = advance_armed [OF ok ar, folded st1_def]
  obtain tr where tr: "trg st1 a = Some tr" "t_stock tr = s" "getTrigger st1 (t_user tr) s (t_type tr) = Some a"
    using adv(2) by (auto simp: armed_def)
  have cu: "t_curr st s = Some a" using armed_curr [OF ar] by simp
  have uf: "u_fresh st1 = u_fresh st" by (simp add: st1_def)
  define r where "r = (if busy then (st1, False) else fire e s p a tr st1)"
  have step: "pass_step e busy s p start st =
      ([a], fst r, (if snd r \<and> start = a then hd (as @ [a]) else start),
        t_curr (fst r) s \<noteq> None \<and> (t_curr (fst r) s \<noteq> Some (if snd r \<and> start = a then hd (as @ [a]) else start) \<or> snd r \<and> start = a))"
    unfolding pass_step_def cu option.case Let_def st1_def [symmetric] tr(1) r_def [symmetric] adv(3) split_beta ..
  have idle: "\<lbrakk>server_ok (fst r); armed (fst r) s (as @ [a]); u_fresh (fst r) = u_fresh st; \<not> snd r\<rbrakk> \<Longrightarrow> thesis"
    using that [of "fst r" "snd r"] step by simp
  show thesis
  proof (cases busy)
    case True
    then show thesis using adv(1,2) uf by (intro idle) (simp_all add: r_def)
  next
    case False
    then have r: "r = fire e s p a tr st1" by (simp add: r_def)
    show thesis
    proof (rule fire_cases [OF adv(1) tr(1,2), of e p])
      assume "fire e s p a tr st1 = (st1, False)"
      then show thesis using adv(1,2) uf by (intro idle) (simp_all add: r)
    next
      fix st' stmts db acc
      assume f: "fire e s p a tr st1 = (db_write stmts db (removeTrigger st' a), True)"
        and t: "turns st1 (t_user tr) acc st'" and same: "same_triggers st1 st'"
      have ar': "armed st' s (as @ [a])" using same_armed [OF same] adv(2) by simp
      have "trg st' a = Some tr" using same_ok_linked(1) [OF same tr(1,3)] .
      with turnsD(1) [OF t] ar' have "armed (removeTrigger st' a) s as" by (rule armed_remove)
      then have a2: "armed (fst r) s as" using same_armed [OF same_triggers_steps(3)] by (simp add: r f)
      have sf: "safe st1 (t_user tr) (fst r)" unfolding r by (rule fire_safe [OF adv(1) tr])
      then have "u_fresh (fst r) = u_fresh st" using uf by (auto simp: safe_def dest: turnsD(2))
      with that [of "fst r" "snd r"] safe_ok [OF sf] a2 step r f show thesis by simp
    qed
  qed
qed

text \<open>
  The invariant of the loop: \<open>todo\<close> are the triggers not looked at yet, \<open>kept\<close> the ones looked
  at that are still there, in ring order; \<open>sTrigger\<close> is the first kept one.
\<close>

lemma pass_loop_visits:
  assumes "server_ok st" "armed st s (todo @ kept)" "todo \<noteq> []" "length todo \<le> fuel"
    "start = hd (kept @ todo)"
  shows "\<exists>st'. pass_loop e busy s p fuel k start st = Some (todo, st') \<and> server_ok st' \<and> u_fresh st' = u_fresh st"
  using assms
proof (induction todo arbitrary: st kept fuel k start)
  case Nil
  then show ?case by simp
next
  case (Cons a as)
  obtain fuel' where fuel: "fuel = Suc fuel'" using Cons.prems(4) by (cases fuel) auto
  have d: "distinct (a # as @ kept)" using armed_distinct [OF Cons.prems(2)] by simp
  have ar: "armed st s (a # (as @ kept))" using Cons.prems(2) by simp
  obtain st' fired where st': "server_ok st'" "armed st' s (if fired then as @ kept else (as @ kept) @ [a])"
      "u_fresh st' = u_fresh st"
    and step: "pass_step e (busy k) s p start st =
       ([a], st', (if fired \<and> start = a then hd ((as @ kept) @ [a]) else start),
        t_curr st' s \<noteq> None \<and> (t_curr st' s \<noteq> Some (if fired \<and> start = a then hd ((as @ kept) @ [a]) else start) \<or> fired \<and> start = a))"
    using pass_step_armed [OF Cons.prems(1) ar, of e "busy k" p start] by metis
  define kept' where "kept' = (if fired then kept else kept @ [a])"
  define start' where "start' = (if fired \<and> start = a then hd ((as @ kept) @ [a]) else start)"
  define again where "again \<longleftrightarrow> t_curr st' s \<noteq> None \<and> (t_curr st' s \<noteq> Some start' \<or> fired \<and> start = a)"
  have ar': "armed st' s (as @ kept')" using st'(2) by (simp add: kept'_def split: if_splits)
  have sa: "start = a \<longleftrightarrow> kept = []" using Cons.prems(5) d by (cases kept) auto
  have cu: "t_curr st' s = (if as @ kept' = [] then None else Some (hd (as @ kept')))" by (rule armed_curr [OF ar'])
  have loop: "pass_loop e busy s p fuel k start st =
      (if again then map_option (apfst ((@) [a])) (pass_loop e busy s p fuel' (Suc k) start' st') else Some ([a], st'))"
    unfolding fuel pass_loop.simps step prod.case start'_def [symmetric] again_def [symmetric] ..
  show ?case
  proof (cases as)
    case Nil
    have "\<not> again"
      using Cons.prems(5) sa by (cases kept) (auto simp: again_def cu Nil kept'_def start'_def)
    then show ?thesis using st'(1,3) by (simp add: loop Nil)
  next
    case (Cons b bs)
    have st2: "start' = hd (kept' @ as)"
      using Cons.prems(5) sa by (cases kept) (auto simp: start'_def kept'_def Cons)
    have "again"
      using sa d Cons.prems(5) by (cases kept) (auto simp: again_def cu Cons kept'_def start'_def)
    moreover have "\<exists>st''. pass_loop e busy s p fuel' (Suc k) start' st' = Some (as, st'') \<and> server_ok st'' \<and>
        u_fresh st'' = u_fresh st'"
      by (rule Cons.IH [OF st'(1) ar' _ _ st2]) (use Cons Cons.prems(4) fuel in simp_all)
    ultimately show ?thesis using st'(3) by (auto simp: loop)
  qed
qed

section \<open>What firing does to the account\<close>

definition fire_buy_spec :: "string \<Rightarrow> int \<Rightarrow> account \<Rightarrow> account" where
  "fire_buy_spec sid p a =
     (case a_order a (CHR ''b'', sid) of
        None \<Rightarrow> a
      | Some (m, t) \<Rightarrow>
          if p < t \<and> p \<le> m then
            a\<lparr>a_held := (a_held a)(sid \<mapsto> holding a sid + m div p), a_bal := a_bal a + (m - p * (m div p)),
              a_order := (a_order a)((CHR ''b'', sid) := None)\<rparr>
          else a)"

definition fire_sell_spec :: "string \<Rightarrow> int \<Rightarrow> account \<Rightarrow> account" where
  "fire_sell_spec sid p a =
     (case a_order a (CHR ''s'', sid) of
        None \<Rightarrow> a
      | Some (m, t) \<Rightarrow>
          if t < p \<and> t \<noteq> 0 \<and> holding a sid \<noteq> 0 then
            (let n = min (holding a sid) (m div p + 1) in
             a\<lparr>a_held := (a_held a)(sid \<mapsto> holding a sid - n), a_bal := a_bal a + p * n,
               a_order := (a_order a)((CHR ''s'', sid) := None)\<rparr>)
          else a)"

lemma order_linked:
  assumes "server_ok st" "trg st a = Some tr" "t_stock tr = s" "getTrigger st (t_user tr) s (t_type tr) = Some a"
  shows "a_order (account_of st (t_user tr)) (t_type tr, stockID (stk st s)) = Some (amount tr, trig tr)"
  using order_known [OF assms(1) linked_known(1) [OF assms(1,2)], of s _ "t_type tr"] linked_known [OF assms(1,2)] assms(2-4)
  by simp

lemma drop_linked:
  assumes ok: "server_ok st" and tr: "trg st a = Some tr" and s: "t_stock tr = s"
    and g: "getTrigger st (t_user tr) s (t_type tr) = Some a"
    and t: "turns st (t_user tr) acc st'" and same: "same_triggers st st'"
    and sh: "shadows_none acc (t_type tr) (stockID (stk st s))"
  shows "turns st (t_user tr) (acc\<lparr>a_order := (a_order acc)((t_type tr, stockID (stk st s)) := None)\<rparr>)
    (db_write stmts db (removeTrigger st' a))"
proof -
  note k = linked_known [OF ok tr]
  have s': "s < s_fresh st'" using turnsD(4) [OF t] k(2) s by simp
  have "turns st (t_user tr) (acc\<lparr>a_order := (a_order acc)((t_type tr, stockID (stk st s)) := None)\<rparr>) (removeTrigger st' a)"
    by (rule turns_order_drop' [OF t k(1) s' _ k(3) _ sh])
      (use same same_ok_linked(2) [OF same tr g] in \<open>simp_all add: same_triggers_def\<close>)
  then show ?thesis by (intro turns_intros k(1))
qed

lemma div_bounds:
  fixes m p :: int
  assumes "1 \<le> p" "0 \<le> m"
  shows "p * (m div p) \<le> m" "0 \<le> m div p" "m div p \<le> p * (m div p)" "0 \<le> p * (m div p)" "m div p = 0 \<longleftrightarrow> m < p"
proof -
  show d: "0 \<le> m div p" using assms by (simp add: pos_imp_zdiv_nonneg_iff)
  have "p * (m div p) = m - m mod p" by (simp add: minus_mod_eq_mult_div)
  moreover have "0 \<le> m mod p" using assms by simp
  ultimately show "p * (m div p) \<le> m" by simp
  show "m div p \<le> p * (m div p)" using mult_right_mono [OF assms(1) d] by simp
  show "0 \<le> p * (m div p)" using d assms by simp
  show "m div p = 0 \<longleftrightarrow> m < p" using d pos_imp_zdiv_pos_iff [of p m] assms(1) by auto
qed

lemma fire_buy_refines:
  assumes ok: "server_ok st" and tr: "trg st a = Some tr" "t_stock tr = s" "t_type tr = CHR ''b''"
    and g: "getTrigger st (t_user tr) s (CHR ''b'') = Some a"
    and p: "1 \<le> p" and snd: "sound (account_of st (t_user tr))"
    and fit: "fits64 (balance (usr st (t_user tr)) + amount tr)"
      "fits64 (holding (account_of st (t_user tr)) (stockID (stk st s)) + amount tr)"
    and sh: "shadows_none (account_of st (t_user tr)) (CHR ''b'') (stockID (stk st s))"
  shows "turns st (t_user tr) (fire_buy_spec (stockID (stk st s)) p (account_of st (t_user tr))) (fst (fire e s p a tr st))"
proof -
  let ?u = "t_user tr" and ?sid = "stockID (stk st s)" and ?a = "account_of st (t_user tr)"
  note k = linked_known [OF ok tr(1)]
  have s': "s < s_fresh st" using k(2) tr(2) by simp
  have g': "getTrigger st ?u s (t_type tr) = Some a" using g tr(3) by simp
  have o: "a_order ?a (CHR ''b'', ?sid) = Some (amount tr, trig tr)"
    using order_linked [OF ok tr(1,2) g'] tr(3) by simp
  have m0: "0 \<le> amount tr" using sound_order [OF snd o] .
  have h0: "0 \<le> holding ?a ?sid" and b0: "0 \<le> balance (usr st ?u)"
    using sound_holding [OF snd] snd by (auto simp: sound_def)
  define q where "q = amount tr div p"
  have q: "cdiv (amount tr) p = q" "0 \<le> q" using m0 p by (simp_all add: cdiv_div q_def pos_imp_zdiv_nonneg_iff)
  have pq: "p * q \<le> amount tr" "0 \<le> p * q" "q \<le> p * q"
    using div_bounds [OF p m0] by (simp_all add: q_def)
  have q0: "q = 0 \<longleftrightarrow> amount tr < p" using div_bounds [OF p m0] by (simp add: q_def)
  show ?thesis
  proof (cases "p < trig tr \<and> p \<le> amount tr")
    case False
    then have "fst (fire e s p a tr st) = st" using q q0 tr(3) by (auto simp: fire_def Let_def)
    moreover have "fire_buy_spec ?sid p ?a = ?a" using False o by (auto simp: fire_buy_spec_def)
    ultimately show ?thesis using turns_start [OF ok] by simp
  next
    case True
    define n where "n = (case getUserStock st ?u s of None \<Rightarrow> q | Some us \<Rightarrow> s64 (num us + q))"
    obtain st' stmts db where f: "fire_buy e s p q a tr st = db_write stmts db (removeTrigger st' a)"
      and t: "turns st ?u (?a\<lparr>a_held := (a_held ?a)(?sid \<mapsto> n), a_bal := s64 (balance (usr st ?u) + amount tr - s64 (p * q))\<rparr>) st'"
      and same: "same_triggers st st'"
      by (rule fire_buy_eq [OF ok k(1) s' n_def])
    have n: "n = holding ?a ?sid + q"
      using held_known [OF ok s', of ?u] fit(2) h0 q(2) pq
      by (cases "getUserStock st ?u s") (auto simp: n_def fits64_def intro!: s64_in_range)
    have "s64 (p * q) = p * q" using pq fit(1) b0 by (intro s64_in_range) (auto simp: fits64_def)
    moreover have "s64 (balance (usr st ?u) + amount tr - p * q) = balance (usr st ?u) + amount tr - p * q"
      using pq fit(1) b0 m0 by (intro s64_in_range) (auto simp: fits64_def)
    ultimately have b: "s64 (balance (usr st ?u) + amount tr - s64 (p * q)) = a_bal ?a + (amount tr - p * q)" by simp
    have "fst (fire e s p a tr st) = db_write stmts db (removeTrigger st' a)"
      using True q q0 tr(3) f by (auto simp: fire_def Let_def)
    moreover have "turns st ?u (fire_buy_spec ?sid p ?a) (db_write stmts db (removeTrigger st' a))"
      using drop_linked [OF ok tr(1,2) g' t [unfolded n b] same, of stmts db] sh True o tr(3)
      by (simp add: fire_buy_spec_def shadows_none_def q_def)
    ultimately show ?thesis by simp
  qed
qed

lemma fire_sell_refines:
  assumes ok: "server_ok st" and tr: "trg st a = Some tr" "t_stock tr = s" "t_type tr = CHR ''s''"
    and g: "getTrigger st (t_user tr) s (CHR ''s'') = Some a"
    and p: "1 \<le> p" and snd: "sound (account_of st (t_user tr))"
    and fit: "fits64 (balance (usr st (t_user tr)) + (amount tr + p))"
      "fits64 (holding (account_of st (t_user tr)) (stockID (stk st s)))"
    and sh: "shadows_none (account_of st (t_user tr)) (CHR ''s'') (stockID (stk st s))"
  shows "turns st (t_user tr) (fire_sell_spec (stockID (stk st s)) p (account_of st (t_user tr))) (fst (fire e s p a tr st))"
proof -
  let ?u = "t_user tr" and ?sid = "stockID (stk st s)" and ?a = "account_of st (t_user tr)"
  note k = linked_known [OF ok tr(1)]
  have s': "s < s_fresh st" using k(2) tr(2) by simp
  have g': "getTrigger st ?u s (t_type tr) = Some a" using g tr(3) by simp
  have o: "a_order ?a (CHR ''s'', ?sid) = Some (amount tr, trig tr)"
    using order_linked [OF ok tr(1,2) g'] tr(3) by simp
  have m0: "0 \<le> amount tr" using sound_order [OF snd o] .
  have h0: "0 \<le> holding ?a ?sid" and b0: "0 \<le> balance (usr st ?u)"
    using sound_holding [OF snd] snd by (auto simp: sound_def)
  have h: "holding ?a ?sid = (case getUserStock st ?u s of None \<Rightarrow> 0 | Some us \<Rightarrow> num us)"
    using held_known [OF ok s', of ?u] by (cases "getUserStock st ?u s") simp_all
  show ?thesis
  proof (cases "trig tr < p \<and> trig tr \<noteq> 0 \<and> holding ?a ?sid \<noteq> 0")
    case False
    then have "fst (fire e s p a tr st) = st"
      using tr(3) h by (auto simp: fire_def split: option.split)
    moreover have "fire_sell_spec ?sid p ?a = ?a" using False o by (auto simp: fire_sell_spec_def)
    ultimately show ?thesis using turns_start [OF ok] by simp
  next
    case True
    then have "getUserStock st ?u s \<noteq> None" using h by (metis option.simps(4))
    then obtain us where us1: "getUserStock st ?u s = Some us" by blast
    have us3: "holding ?a ?sid = num us" using h us1 by (simp only: option.case)
    have us: "getUserStock st ?u s = Some us" "num us \<noteq> 0" "num us = holding ?a ?sid"
      using us1 us3 True by (simp_all only: not_False_eq_True)
    define n where "n = (let n = s64 (cdiv (amount tr) p + 1) in if num us < n then num us else n)"
    obtain st' stmts db where f: "fire_sell e s p a tr us st = db_write stmts db (removeTrigger st' a)"
      and t: "turns st ?u (?a\<lparr>a_held := (a_held ?a)(?sid \<mapsto> s64 (num us - n)), a_bal := s64 (balance (usr st ?u) + s64 (p * n))\<rparr>) st'"
      and same: "same_triggers st st'"
      by (rule fire_sell_eq [OF ok k(1) s' us(1) n_def])
    have fm: "fits64 (amount tr + p)" using fit(1) b0 m0 p by (simp add: fits64_def)
    have hu: "0 \<le> num us" using h0 unfolding us3 .
    note ar = sell_arith [OF m0 p hu fm]
    have n: "n = min (num us) (amount tr div p + 1)" using ar(1) by (simp add: n_def Let_def min_def)
    have "0 \<le> num us - n" "num us - n \<le> num us" using div_bounds(2) [OF p m0] hu by (simp_all add: n)
    then have n1: "s64 (num us - n) = holding ?a ?sid - n"
      using fit(2) unfolding us3 by (intro s64_in_range) (simp_all add: fits64_def)
    have pn: "s64 (p * n) = p * n" using ar(2) n by simp
    have n0: "0 \<le> n" "n \<le> amount tr div p + 1" using hu div_bounds(2) [OF p m0] by (simp_all add: n)
    have "p * n \<le> p * (amount tr div p + 1)" using n0(2) p by (intro mult_left_mono) simp_all
    also have "\<dots> \<le> amount tr + p" using div_bounds(1) [OF p m0] by (simp add: distrib_left)
    finally have "p * n \<le> amount tr + p" .
    moreover have "0 \<le> p * n" using n0(1) p by simp
    ultimately have b: "s64 (balance (usr st ?u) + s64 (p * n)) = a_bal ?a + p * n"
      using fit(1) b0 pn by (simp add: fits64_def s64_in_range)
    have c: "(t_type tr = CHR ''b'' \<and> p < trig tr) = False" "(t_type tr = CHR ''s'' \<and> p > trig tr \<and> trig tr \<noteq> 0) = True"
      "(num us = 0) = False"
      using True tr(3) us(2) by simp_all
    have "fst (fire e s p a tr st) = db_write stmts db (removeTrigger st' a)"
      unfolding fire_def c us(1) option.case if_True if_False f fst_conv ..
    moreover have "turns st ?u (fire_sell_spec ?sid p ?a) (db_write stmts db (removeTrigger st' a))"
      using drop_linked [OF ok tr(1,2) g' t [unfolded n1 b] same, of stmts db] sh True o tr(3)
      by (simp add: fire_sell_spec_def shadows_none_def n [folded us3] Let_def)
    ultimately show ?thesis by simp
  qed
qed

lemma sound_fire_buy:
  assumes "sound a" "1 \<le> p"
  shows "sound (fire_buy_spec sid p a)"
proof (cases "a_order a (CHR ''b'', sid)")
  case (Some mt)
  obtain m t where mt: "a_order a (CHR ''b'', sid) = Some (m, t)" using Some by (cases mt) simp
  have m0: "0 \<le> m" using sound_order [OF assms(1) mt] .
  note d = div_bounds [OF assms(2) m0]
  have "sound (a\<lparr>a_bal := a_bal a + (m - p * (m div p))\<rparr>)" using assms(1) d(1) by (intro sound_credit) simp_all
  then have "sound (a\<lparr>a_held := (a_held a)(sid \<mapsto> holding a sid + m div p), a_bal := a_bal a + (m - p * (m div p))\<rparr>)"
    using d(2) sound_holding [OF assms(1), of sid] assms(1)
    by (cases rule: pend_cases [of a]) (auto simp: sound_def)
  from sound_drop_order [OF this, of "(CHR ''b'', sid)"] assms(1) show ?thesis
    by (simp add: fire_buy_spec_def mt)
qed (use assms in \<open>simp add: fire_buy_spec_def\<close>)

end
