(* ===== verification/Firing.thy ===== *)
theory Firing
  imports Trading Triggers
begin

text \<open>
  The properties of the trigger thread, and two states at which they are instantiated: the sample
  server, whose one trigger is a buy order, and the server with a pending sell to which a sell
  order on the same shares is added.
\<close>

section \<open>Sample triggers\<close>

definition sample_buy :: trigger where
  "sample_buy = \<lparr>t_type = CHR ''b'', trig = 200, amount = 500, t_transID = ''5'', t_user = 0, t_stock = 0\<rparr>"

definition sample_sell :: trigger where
  "sample_sell = \<lparr>t_type = CHR ''s'', trig = 100, amount = 2000, t_transID = ''9'', t_user = 0, t_stock = 0\<rparr>"

definition sample_selling :: server where
  "sample_selling = fst (addTrigger (sample_pending (- 1)) 0 ''9'' 0 (CHR ''s'') 2000 100)"

lemma sample_holding_trg: "trg sample_holding = Map.empty"
  using sample_rich(6) by (simp add: sample_holding_def addUserStock_def split_beta)

lemma sample_buy_linked:
  "trg sample_server = [t_fresh sample_holding \<mapsto> sample_buy]"
  "getTrigger sample_server 0 0 (CHR ''b'') = Some (t_fresh sample_holding)"
proof -
  have d: "server_ok sample_holding" "0 < u_fresh sample_holding" "0 < s_fresh sample_holding"
    using turnsD(1,2) [OF sample_holding(1)] sample_user_ok sample_holding(2) by simp_all
  have none: "getTrigger sample_holding 0 0 (CHR ''b'') = None"
    by (simp add: getTrigger_def sample_holding(3,4) trie_get_def empty_trie_def)
  obtain st' where st': "addTrigger sample_holding 0 ''5'' 0 (CHR ''b'') 500 200 = (st', Some (t_fresh sample_holding))"
      "server_ok st'" "trig_frame 0 sample_holding st'"
      "trg st' = (trg sample_holding)(t_fresh sample_holding \<mapsto>
        \<lparr>t_type = CHR ''b'', trig = 200, amount = 500, t_transID = ''5'', t_user = 0, t_stock = 0\<rparr>)"
      "\<And>q. look (tTree (usr st' 0)) q = (if q = trigger_path (CHR ''b'') (stockID (stk sample_holding 0))
        then Some (t_fresh sample_holding) else look (tTree (usr sample_holding 0)) q)"
    using addTrigger_new [OF d _ none, of "''5''" 500 200] by auto
  have eq: "sample_server = st'" using st'(1) by (simp add: sample_server_def)
  show "trg sample_server = [t_fresh sample_holding \<mapsto> sample_buy]"
    unfolding eq st'(4) sample_holding_trg sample_buy_def ..
  have "0 < s_fresh st'" "stk st' = stk sample_holding" using st'(3) d(3) by (simp_all add: trig_frame_def)
  then show "getTrigger sample_server 0 0 (CHR ''b'') = Some (t_fresh sample_holding)"
    using getTrigger_look [OF st'(2), of 0 "CHR ''b''" 0] st'(5) by (simp add: eq)
qed

lemma distinct_singleton:
  assumes "distinct xs" "set xs = {x}"
  shows "xs = [x]"
proof -
  have "length xs = 1" using distinct_card [OF assms(1)] assms(2) by simp
  then obtain y where "xs = [y]" by (auto simp: length_Suc_conv)
  with assms(2) show ?thesis by simp
qed

lemma sample_armed: "armed sample_server 0 [t_fresh sample_holding]"
proof -
  obtain as where as: "ring_list (trig_ring sample_server 0) as" "set as = watchers (trg sample_server) 0"
    using ok_rings [OF sample_ok(1)] by (auto simp: rings_ok_def)
  have "watchers (trg sample_server) 0 = {t_fresh sample_holding}"
    by (auto simp: watchers_def sample_buy_linked(1) sample_buy_def split: if_splits)
  moreover have "distinct as" using as(1) by (simp add: ring_list_def)
  ultimately have "as = [t_fresh sample_holding]"
    using as(2) by (intro distinct_singleton) simp_all
  then show ?thesis
    using as(1) sample_buy_linked by (simp add: armed_def sample_buy_def)
qed

lemma sample_selling:
  "server_ok sample_selling" "u_fresh sample_selling = 1" "0 < s_fresh sample_selling"
  "stockID (stk sample_selling 0) = ''ABC''"
  "account_of sample_selling 0 = sample_account\<lparr>
     a_pend := Some (Pending Selling ''ABC'' 4 1000 100000),
     a_order := [(CHR ''b'', ''ABC'') \<mapsto> (500, 200), (CHR ''s'', ''ABC'') \<mapsto> (2000, 100)]\<rparr>"
  "trg sample_selling (t_fresh (sample_pending (- 1))) = Some sample_sell"
  "getTrigger sample_selling 0 0 (CHR ''s'') = Some (t_fresh (sample_pending (- 1)))"
proof -
  let ?p = "sample_pending (- 1)"
  note p = sample_pending [of "- 1", simplified]
  have s: "s_fresh ?p = 1" "stockID (stk ?p 0) = ''ABC''" using sample_server by (simp_all add: sample_pending_def)
  have u: "0 < u_fresh ?p" "0 < s_fresh ?p" using p s by simp_all
  have "a_order (account_of ?p 0) (CHR ''s'', stockID (stk ?p 0)) = None" by (simp only: p(3) s(2)) (simp add: sample_account_def)
  then have none: "getTrigger ?p 0 0 (CHR ''s'') = None"
    using order_known [OF p(1) u s(2), of "CHR ''s''"] s(2) by simp
  have t: "turns ?p 0 ((account_of ?p 0)\<lparr>a_order := (a_order (account_of ?p 0))((CHR ''s'', ''ABC'') \<mapsto> (2000, 100))\<rparr>) sample_selling"
    using turns_order_new' [OF turns_start [OF p(1)] u s(2) _ none, of 2000 100 "''9''"] by (simp add: sample_selling_def)
  show "server_ok sample_selling" "u_fresh sample_selling = 1" using turnsD(1,2) [OF t] p(2) by simp_all
  show s': "0 < s_fresh sample_selling" using turnsD(4) [OF t] s(1) by simp
  show st: "stockID (stk sample_selling 0) = ''ABC''" using turnsD(5) [OF t, of 0] s by simp
  show "account_of sample_selling 0 = sample_account\<lparr>
     a_pend := Some (Pending Selling ''ABC'' 4 1000 100000),
     a_order := [(CHR ''b'', ''ABC'') \<mapsto> (500, 200), (CHR ''s'', ''ABC'') \<mapsto> (2000, 100)]\<rparr>"
    unfolding turnsD(6) [OF t] p(3) by (simp add: sample_account_def)
  obtain st' where st': "addTrigger ?p 0 ''9'' 0 (CHR ''s'') 2000 100 = (st', Some (t_fresh ?p))"
      "trg st' = (trg ?p)(t_fresh ?p \<mapsto>
        \<lparr>t_type = CHR ''s'', trig = 100, amount = 2000, t_transID = ''9'', t_user = 0, t_stock = 0\<rparr>)"
      "\<And>q. look (tTree (usr st' 0)) q = (if q = trigger_path (CHR ''s'') (stockID (stk ?p 0))
        then Some (t_fresh ?p) else look (tTree (usr ?p 0)) q)"
    using addTrigger_new [OF p(1) u _ none, of "''9''" 2000 100] by auto
  have eq: "sample_selling = st'" using st'(1) by (simp add: sample_selling_def)
  show "trg sample_selling (t_fresh ?p) = Some sample_sell" unfolding eq st'(2) by (simp add: sample_sell_def)
  show "getTrigger sample_selling 0 0 (CHR ''s'') = Some (t_fresh ?p)"
    using getTrigger_look [OF turnsD(1) [OF t] s', of "CHR ''s''" 0] st'(3) st s(2) by (simp add: eq)
qed

section \<open>Properties\<close>




lemma sample_buy_sel [simp]:
  "t_user sample_buy = 0" "t_stock sample_buy = 0" "t_type sample_buy = CHR ''b''" "amount sample_buy = 500"
  by (simp_all add: sample_buy_def)



lemma sample_sell_sel [simp]:
  "t_user sample_sell = 0" "t_stock sample_sell = 0" "t_type sample_sell = CHR ''s''" "amount sample_sell = 2000"
  by (simp_all add: sample_sell_def)

lemma sample_selling_fired:
  "sound (account_of sample_selling 0)" "shadows_none (account_of sample_selling 0) (CHR ''s'') ''ABC''"
  "fits64 (balance (usr sample_selling 0) + (2000 + 250))" "fits64 (holding (account_of sample_selling 0) ''ABC'')"
  using account_sel(1) [of sample_selling 0, symmetric]
  by (auto simp: sample_selling(5) sound_def sample_account_def shadows_none_def fits64_def split: if_splits)


text \<open>C35: Neither SELL nor a firing sell order sets shares aside, so the same shares can be sold
  twice: with a pending sale of four of ten shares, a sell order fires and sells nine, and
  COMMIT_SELL still succeeds and leaves a holding of minus three shares.\<close>

theorem sold_twice:
  "does (sample_ctx ''COMMIT_SELL'' []) (fst (fire sample_env 0 250 (t_fresh (sample_pending (- 1))) sample_sell sample_selling))
    (\<lparr>a_bal = 5250, a_pend = None, a_held = [''ABC'' \<mapsto> - 3], a_order = [(CHR ''b'', ''ABC'') \<mapsto> (500, 200)]\<rparr>, ''SUCC'')
    (exec_command sample_env (sample_ctx ''COMMIT_SELL'' [])
      (fst (fire sample_env 0 250 (t_fresh (sample_pending (- 1))) sample_sell sample_selling)))"
proof -
  define st where "st = fst (fire sample_env 0 250 (t_fresh (sample_pending (- 1))) sample_sell sample_selling)"
  have "turns sample_selling 0 (fire_sell_spec ''ABC'' 250 (account_of sample_selling 0)) st"
    using fire_sell_refines [OF sample_selling(1,6), of 0 250 sample_env] sample_selling(4,7) sample_selling_fired
    by (simp add: st_def)
  moreover have "fire_sell_spec ''ABC'' 250 (account_of sample_selling 0) = \<lparr>a_bal = 4250,
      a_pend = Some (Pending Selling ''ABC'' 4 1000 100000), a_held = [''ABC'' \<mapsto> 1],
      a_order = [(CHR ''b'', ''ABC'') \<mapsto> (500, 200)]\<rparr>"
    unfolding sample_selling(5) fire_sell_spec_def by (simp add: sample_account_def Let_def)
  ultimately have t: "turns sample_selling 0 \<lparr>a_bal = 4250, a_pend = Some (Pending Selling ''ABC'' 4 1000 100000),
      a_held = [''ABC'' \<mapsto> 1], a_order = [(CHR ''b'', ''ABC'') \<mapsto> (500, 200)]\<rparr> st"
    by simp
  note acc = turnsD(6) [OF t]
  have b: "balance (usr st 0) = 4250" using account_sel(1) [of st 0] by (simp add: acc)
  let ?c = "sample_ctx ''COMMIT_SELL'' []"
  have "does ?c st (commit_sell_spec (clock sample_env (Suc (ticks st))) (account_of st (c_user ?c)))
      (cmd_commit_sell sample_env ?c st)"
    by (rule commit_sell_refines)
      (use turnsD(1,2) [OF t] sample_selling(2) in \<open>auto simp: acc b fits64_def\<close>)
  then show ?thesis unfolding st_def [symmetric] by (simp add: dispatch acc commit_sell_spec_def quoteTo_def)
qed

end
