(* ===== verification/C_Buffer.thy ===== *)
theory C_Buffer
  imports C_Text
begin

text \<open>
  Cutting a fixed buffer in place: the splitters are called on a pointer into a buffer that is
  reused from message to message, and the pointers they store are kept in an array of cells.
  \<open>cut_at\<close> runs a splitter on the string at an offset of the buffer, \<open>store_from\<close> stores its
  pointers. The lemmas say which buffer and which offsets result, and that the fields of a
  message joined by a delimiter are found again.
\<close>

section \<open>Buffers and cells\<close>

definition overwrite :: "string \<Rightarrow> nat \<Rightarrow> string \<Rightarrow> string" where
  "overwrite buf off s = take off buf @ s @ drop (off + length s) buf"

text \<open>A splitter called on a pointer into the buffer; it returns the buffer and the pointers it stores.\<close>

definition cut_at :: "(string option \<Rightarrow> string \<times> nat list) \<Rightarrow> string \<Rightarrow> nat option \<Rightarrow> string \<times> nat list" where
  "cut_at sep buf p =
     (case p of
        None \<Rightarrow> (buf, [])
      | Some off \<Rightarrow>
          (let (s, outs) = sep (Some (cstr_at buf off))
           in (overwrite buf off s, map (\<lambda>o'. off + o') outs)))"

text \<open>Storing pointers from cell \<open>k\<close> on; \<open>None\<close> when they do not fit.\<close>

definition store_from :: "nat \<Rightarrow> nat list \<Rightarrow> nat option list \<Rightarrow> nat option list option" where
  "store_from k ps ptrs =
     (if k + length ps \<le> length ptrs
      then Some (take k ptrs @ map Some ps @ drop (k + length ps) ptrs) else None)"

section \<open>What the cuts do\<close>

fun starts :: "char \<Rightarrow> nat \<Rightarrow> string \<Rightarrow> nat list" where
  "starts d k [] = []"
| "starts d k (c # cs) = (if c = d then Suc k # starts d (Suc k) cs else starts d (Suc k) cs)"

lemma starts_append [simp]: "starts d k (xs @ ys) = starts d k xs @ starts d (k + length xs) ys"
  by (induction xs arbitrary: k) simp_all

lemma starts_clean [simp]: "d \<notin> set xs \<Longrightarrow> starts d k xs = []"
  by (induction xs arbitrary: k) auto

definition nulled :: "char \<Rightarrow> string \<Rightarrow> string" where
  "nulled d s = map (\<lambda>c. if c = d then NUL else c) s"

lemma nulled_simps [simp]:
  "nulled d (xs @ ys) = nulled d xs @ nulled d ys" "nulled d (c # xs) = (if c = d then NUL else c) # nulled d xs"
  "nulled d [] = []" "length (nulled d xs) = length xs"
  by (simp_all add: nulled_def)

lemma nulled_clean [simp]: "d \<notin> set xs \<Longrightarrow> nulled d xs = xs"
  by (induction xs) auto

lemma delim_loop_all:
  "delim_loop d None (length p + length rest) (length p) start (p @ rest @ t) outs =
     (p @ nulled d rest @ t, outs @ start # starts d (length p) rest)"
proof (induction rest arbitrary: p start outs)
  case Nil
  then show ?case by (simp add: delim_loop.simps)
next
  case (Cons c rest)
  have upd: "(p @ (c # rest) @ t)[length p := x] = (p @ [x]) @ rest @ t" for x by simp
  have nth: "(p @ (c # rest) @ t) ! length p = c" by simp
  show ?case
  proof (cases "c = d")
    case True
    then show ?thesis
      using Cons.IH [of "p @ [NUL]" "Suc (length p)" "outs @ [start]"]
      by (simp add: delim_loop.simps [of d None "Suc (length p + length rest)" "length p"])
  next
    case False
    then show ?thesis
      using Cons.IH [of "p @ [c]" start outs]
      by (simp add: delim_loop.simps [of d None "Suc (length p + length rest)" "length p"])
  qed
qed

lemma delimSepNoCpy_eq:
  "s \<noteq> [] \<Longrightarrow> delimSepNoCpy (Some s) d = (nulled d s @ [NUL], 0 # starts d 0 s)"
  using delim_loop_all [of d "[]" s 0 "[NUL]" "[]"] by (simp add: delimSepNoCpy_def)

lemma delim_loop_once:
  assumes "d \<notin> set a"
  shows "delim_loop d (Some 1) (length p + length (a @ d # b)) (length p) start (p @ a @ d # b @ t) [] =
     (p @ a @ NUL # b @ t, [start, Suc (length p + length a)])"
  using assms
proof (induction a arbitrary: p)
  case Nil
  then show ?case by (simp add: delim_loop.simps)
next
  case (Cons c a)
  then have "c \<noteq> d" by auto
  then show ?case
    using Cons.IH [of "p @ [c]"] Cons.prems
    by (simp add: delim_loop.simps [of d "Some (Suc 0)" "Suc (Suc (length p + (length a + length b)))" "length p"])
qed

lemma delim_loop_never:
  assumes "d \<notin> set a"
  shows "delim_loop d st (length p + length a) (length p) start (p @ a @ t) outs = (p @ a @ t, outs @ [start])"
  using assms
proof (induction a arbitrary: p)
  case Nil
  then show ?case by (simp add: delim_loop.simps)
next
  case (Cons c a)
  then have "c \<noteq> d" by auto
  then show ?case
    using Cons.IH [of "p @ [c]"] Cons.prems
    by (simp add: delim_loop.simps [of d st "Suc (length p + length a)" "length p"])
qed

lemma delimSepMaxDelim_eq:
  "d \<notin> set a \<Longrightarrow> delimSepMaxDelim (Some (a @ d # b)) d 1 = (a @ NUL # b @ [NUL], [0, Suc (length a)])"
  "d \<notin> set a \<Longrightarrow> a \<noteq> [] \<Longrightarrow> delimSepMaxDelim (Some a) d 1 = (a @ [NUL], [0])"
  using delim_loop_once [of d a "[]" b 0 "[NUL]"] delim_loop_never [of d a "Some 1" "[]" 0 "[NUL]" "[]"]
  by (simp_all add: delimSepMaxDelim_def)

lemma cut_at_end:
  assumes "length p = off" "is_cstr s" "fst (sep (Some s)) = s' @ [NUL]" "length s' = length s"
  shows "cut_at sep (p @ s @ NUL # r) (Some off) = (p @ s' @ NUL # r, map ((+) off) (snd (sep (Some s))))"
proof -
  have "cstr_at (p @ s @ NUL # r) off = s" using assms(1,2) cstr_at_simps by blast
  then show ?thesis
    using assms by (simp add: cut_at_def split_beta overwrite_def)
qed

lemma overwrite_length [simp]: "off + length s \<le> length buf \<Longrightarrow> length (overwrite buf off s) = length buf"
  by (simp add: overwrite_def)

text \<open>The text that starts at an offset of a buffer written as a sequence of C strings.\<close>

lemma text_at: "is_cstr s \<Longrightarrow> length p = off \<Longrightarrow> cstr_at (p @ s @ NUL # r) off = s"
  using cstr_at_simps by blast

section \<open>Fields joined by a delimiter\<close>

fun join :: "char \<Rightarrow> string list \<Rightarrow> string" where
  "join d [] = []"
| "join d [f] = f"
| "join d (f # g # fs) = f @ d # join d (g # fs)"

lemma split_join: "fs \<noteq> [] \<Longrightarrow> \<forall>f \<in> set fs. d \<notin> set f \<Longrightarrow> split_on d None (join d fs) = fs"
  by (induction d fs rule: join.induct) (simp_all add: split_on_no_delim split_on_Cons_delim)

lemma is_cstr_join: "is_cstr (join d fs) \<longleftrightarrow> (\<forall>f \<in> set fs. is_cstr f) \<and> (1 < length fs \<longrightarrow> d \<noteq> NUL)"
  by (induction d fs rule: join.induct) auto

definition clean :: "char \<Rightarrow> string \<Rightarrow> bool" where
  "clean d f \<longleftrightarrow> is_cstr f \<and> d \<notin> set f"

lemma join_clean:
  assumes "fs \<noteq> []" "\<forall>f \<in> set fs. clean d f" "d \<noteq> NUL"
  shows "is_cstr (join d fs)" "split_on d None (join d fs) = fs"
  using assms split_join [of fs d] is_cstr_join [of d fs] by (auto simp: clean_def)

text \<open>Any of the splitters on a string inside a buffer.\<close>

lemma delim_loop_shape:
  assumes "start \<le> len" "\<forall>k \<in> set outs. k \<le> len" "len < length buf"
  shows "length (fst (delim_loop d st len i start buf outs)) = length buf \<and>
    fst (delim_loop d st len i start buf outs) ! len = buf ! len \<and>
    (\<forall>k \<in> set (snd (delim_loop d st len i start buf outs)). k \<le> len)"
  using assms
proof (induction d st len i start buf outs rule: delim_loop.induct)
  case (1 d st len i start buf outs)
  show ?case
  proof (cases "i < len")
    case False
    then show ?thesis using "1.prems" by (simp add: delim_loop.simps)
  next
    case True
    consider "buf ! i = d" "st = Some (Suc (length outs))" | "buf ! i = d" "st \<noteq> Some (Suc (length outs))" | "buf ! i \<noteq> d"
      by blast
    then show ?thesis
    proof cases
      case 1
      have "delim_loop d st len i start buf outs = (buf[i := NUL], outs @ [start, Suc i])"
        by (subst delim_loop.simps) (simp add: True 1)
      with True "1.prems" show ?thesis by simp
    next
      case 2
      have "delim_loop d st len i start buf outs = delim_loop d st len (Suc i) (Suc i) (buf[i := NUL]) (outs @ [start])"
        by (subst delim_loop.simps) (simp add: True 2)
      moreover have "Suc i \<le> len" "\<forall>k \<in> set (outs @ [start]). k \<le> len" "len < length (buf[i := NUL])"
        using True "1.prems" by auto
      moreover note "1.IH"(1) [OF True 2 this]
      ultimately show ?thesis using True by (metis length_list_update nth_list_update_neq less_irrefl)
    next
      case 3
      have eq: "delim_loop d st len i start buf outs = delim_loop d st len (Suc i) start buf outs"
        by (subst delim_loop.simps) (simp add: True 3)
      show ?thesis unfolding eq by (rule "1.IH"(2) [OF True 3 "1.prems"])
    qed
  qed
qed

lemma cut_tokens:
  assumes sep: "\<And>x. x \<noteq> [] \<Longrightarrow> sep (Some x) = delim_loop d st (length x) 0 0 (x @ [NUL]) []"
    and s: "is_cstr s" "s \<noteq> []" and tok: "tokens (sep (Some s)) = fs"
  obtains s' ps where "cut_at sep (p @ s @ NUL # r) (Some (length p)) = (p @ s' @ NUL # r, ps)"
    "map (cstr_at (p @ s' @ NUL # r)) ps = fs" "length s' = length s" "\<forall>k \<in> set ps. k \<le> length p + length s"
proof -
  let ?r = "sep (Some s)"
  have sh: "length (fst ?r) = Suc (length s)" "fst ?r ! length s = NUL" "\<forall>k \<in> set (snd ?r). k \<le> length s"
    using delim_loop_shape [of 0 "length s" "[]" "s @ [NUL]" d st 0] sep [OF s(2)] by simp_all
  define s' where "s' = butlast (fst ?r)"
  have f: "fst ?r = s' @ [NUL]" "length s' = length s"
    using sh(1,2) by (simp_all add: s'_def append_butlast_last_id [symmetric] last_conv_nth flip: length_greater_0_conv)
      (metis One_nat_def append_butlast_last_id diff_Suc_1 last_conv_nth length_greater_0_conv zero_less_Suc)
  have c: "cut_at sep (p @ s @ NUL # r) (Some (length p)) = (p @ s' @ NUL # r, map ((+) (length p)) (snd ?r))"
    by (rule cut_at_end [where sep = sep, OF refl s(1) f])
  have "cstr_at (p @ s' @ NUL # r) (length p + k) = cstr_at (s' @ [NUL]) k" if "k \<in> set (snd ?r)" for k
  proof -
    have "cstr_at (p @ s' @ NUL # r) (length p + k) = cstr_at ((s' @ [NUL]) @ r) k" by (simp add: cstr_at_def)
    also have "\<dots> = cstr_at (s' @ [NUL]) k" using that sh(3) f(2) by (intro cstr_at_prefix) (auto simp: less_Suc_eq_le)
    finally show ?thesis .
  qed
  then have "map (cstr_at (p @ s' @ NUL # r)) (map ((+) (length p)) (snd ?r)) = tokens ?r"
    by (simp add: tokens_def f(1))
  then show thesis using sh(3) tok by (intro that [OF c]) (auto simp: f(2))
qed

lemma cstr_at_bound:
  assumes "k \<le> m" "m < length b" "b ! m = NUL"
  shows "k + length (cstr_at b k) \<le> m"
proof (rule ccontr)
  let ?t = "takeWhile (\<lambda>c. c \<noteq> NUL) (drop k b)"
  assume "\<not> k + length (cstr_at b k) \<le> m"
  then have l: "m - k < length ?t" using assms(1) by (simp add: cstr_at_def)
  then have "?t ! (m - k) \<noteq> NUL" using nth_mem [OF l] set_takeWhileD by metis
  moreover have "?t ! (m - k) = NUL" using takeWhile_nth [OF l] assms by simp
  ultimately show False by simp
qed

lemma cstr_decompose:
  assumes "cstr_at b k = s" "k + length s < length b"
  shows "b = take k b @ s @ NUL # drop (Suc (k + length s)) b"
proof -
  have t: "takeWhile (\<lambda>c. c \<noteq> NUL) (drop k b) = s" using assms(1) by (simp add: cstr_at_def)
  have l: "length s < length (drop k b)" using assms(2) by simp
  have n: "drop k b ! length s = NUL" using nth_length_takeWhile [of "\<lambda>c. c \<noteq> NUL" "drop k b"] l t by simp
  have "drop k b = takeWhile (\<lambda>c. c \<noteq> NUL) (drop k b) @ dropWhile (\<lambda>c. c \<noteq> NUL) (drop k b)" by simp
  also have "dropWhile (\<lambda>c. c \<noteq> NUL) (drop k b) = drop (length s) (drop k b)"
    using t by (simp add: dropWhile_eq_drop)
  also have "\<dots> = NUL # drop (Suc (k + length s)) b"
    using Cons_nth_drop_Suc [OF l] n by (simp add: add.commute)
  finally have "drop k b = s @ NUL # drop (Suc (k + length s)) b" by (simp add: t)
  then show ?thesis by (metis append_take_drop_id)
qed

lemma cut_fields:
  assumes "is_cstr s" "s \<noteq> []" "d \<noteq> NUL"
  obtains b ps where "cut_at (\<lambda>s. delimSepNoCpy s d) (s @ NUL # r) (Some 0) = (b, ps)"
    "map (cstr_at b) ps = split_on d None s" "length b = length s + Suc (length r)"
proof -
  have st: "\<forall>k \<in> set (starts d m s). k \<le> m + length s" for m s by (induction d m s rule: starts.induct) auto
  let ?b = "nulled d s @ NUL # r" and ?ps = "0 # starts d 0 s"
  have c: "cut_at (\<lambda>s. delimSepNoCpy s d) (s @ NUL # r) (Some 0) = (?b, ?ps)"
    using cut_at_end [of "[]" 0 s "\<lambda>s. delimSepNoCpy s d" "nulled d s" r] assms
    by (simp add: delimSepNoCpy_eq map_idI)
  have "map (cstr_at ?b) ?ps = tokens (delimSepNoCpy (Some s) d)"
  proof -
    have "cstr_at ((nulled d s @ [NUL]) @ r) k = cstr_at (nulled d s @ [NUL]) k" if "k \<in> set ?ps" for k
      using that st [of 0 s] by (intro cstr_at_prefix) auto
    then show ?thesis using assms(2) by (simp add: tokens_def delimSepNoCpy_eq)
  qed
  also have "\<dots> = split_on d None s" using assms by (rule delimSepNoCpy_tokens)
  finally show thesis using that [OF c] by simp
qed

lemma show_nat_clean: "clean (CHR '','') (show_nat n)" "clean (CHR ''|'') (show_nat n)"
proof -
  have "\<not> is_digit (CHR '','')" "\<not> is_digit (CHR ''|'')" "\<not> is_digit NUL" by code_simp+
  then show "clean (CHR '','') (show_nat n)" "clean (CHR ''|'') (show_nat n)"
    using show_nat_digits [of _ n] by (auto simp: clean_def is_cstr_def)
qed

section \<open>The message of a workload command\<close>

text \<open>The format the workload generator writes and the transaction server reads.\<close>

definition wsc_text :: "string \<Rightarrow> string \<Rightarrow> string \<Rightarrow> string option \<Rightarrow> string" where
  "wsc_text tid cmd uid co =
     ''WSC|'' @ tid @ ''|'' @ cmd @ ''|'' @ uid @ (case co of None \<Rightarrow> [] | Some a \<Rightarrow> CHR '','' # a)"

end
