(* ===== verification/Connection.thy ===== *)
theory Connection
  imports Trading C_Buffer
begin

text \<open>
  The connection threads (\<open>connection_handler\<close> of \<open>transServer.c\<close> and \<open>transServerWeb.c\<close>): one
  received message is trimmed, cut at its bars, answered or turned into a command in its user's
  queue. The 200 byte buffer and the five cells of \<open>message\<close> survive from one message to the next,
  and the cells are offsets into the buffer, so a message with fewer fields sees what the cells
  of an earlier one point to now.
\<close>

section \<open>The state of a connection thread\<close>

record conn =
  clientMessage :: string
  message :: "nat option list"

definition conn_init :: conn where
  "conn_init = \<lparr>clientMessage = replicate 200 NUL, message = replicate 5 None\<rparr>"

definition cell_text :: "conn \<Rightarrow> nat \<Rightarrow> string option" where
  "cell_text cn k = map_option (cstr_at (clientMessage cn)) (Option.bind (nth_opt (message cn) k) id)"

section \<open>Receiving\<close>

text \<open>One of the four tests on the last byte; \<open>None\<close> when the message has become empty before it.\<close>

definition strip_last :: "char \<Rightarrow> string \<Rightarrow> nat \<Rightarrow> nat option" where
  "strip_last c buf n = (if n = 0 then None else Some (if buf ! (n - 1) = c then n - 1 else n))"

definition recv_message :: "string \<Rightarrow> conn \<Rightarrow> conn option" where
  "recv_message bytes cn =
     (let buf = overwrite (clientMessage cn) 0 bytes;
          n = Option.bind (strip_last NUL buf (length bytes)) (\<lambda>n.
              Option.bind (strip_last (CHR 0x0A) buf n) (\<lambda>n.
              Option.bind (strip_last (CHR 0x0D) buf n) (strip_last (CHR '' '') buf)))
      in case n of
           None \<Rightarrow> None
         | Some n \<Rightarrow> if n < length buf then Some (cn\<lparr>clientMessage := buf[n := NUL]\<rparr>) else None)"

text \<open>\<open>message[4] = NULL\<close> and the cut at the bars: the number of fields, \<open>None\<close> past the cells.\<close>

definition split_message :: "conn \<Rightarrow> (conn \<times> nat) option" where
  "split_message cn =
     (let (buf, ps) = cut_at (\<lambda>s. delimSepNoCpy s (CHR ''|'')) (clientMessage cn) (Some 0)
      in map_option (\<lambda>ptrs. (\<lparr>clientMessage = buf, message = ptrs\<rparr>, length ps))
           (store_from 0 ps ((message cn)[4 := None])))"

section \<open>The internal commands\<close>

definition respond :: "nat \<Rightarrow> string \<Rightarrow> string \<Rightarrow> string \<Rightarrow> server \<Rightarrow> server" where
  "respond sock tid cmd body st = quickSend sock (''WSR|'' @ tid @ ''|'' @ cmd @ ''|'' @ body) st"

definition usr_query :: "nat \<Rightarrow> conn \<Rightarrow> server \<Rightarrow> server" where
  "usr_query sock cn st =
     (case cell_text cn 1 of
        None \<Rightarrow> crash st
      | Some uid \<Rightarrow>
          (case getUser st uid of
             None \<Rightarrow> quickSend sock (''NOT|'' @ show_long (ul_num st)) st
           | Some _ \<Rightarrow> quickSend sock (''HAV|'' @ uid) st))"

text \<open>Find or create the user, then append the command to the user's queue and post \<open>avail\<close>.\<close>

definition enqueue_command :: "env \<Rightarrow> nat \<Rightarrow> string \<Rightarrow> string \<Rightarrow> string \<Rightarrow> string option \<Rightarrow> server \<Rightarrow> server" where
  "enqueue_command e sock tid cmd uid co st =
     (let (st, cUser) =
        (case getUser st uid of
           Some u \<Rightarrow> (st, Some u)
         | None \<Rightarrow>
             (case addUser e st uid of
                (st, None) \<Rightarrow> (crash st, None)
              | (st, Some u) \<Rightarrow> (db_write [InsertAcct uid ''0.00''] (dbID (usr st u)) st, Some u)))
      in case cUser of
           None \<Rightarrow> st
         | Some u \<Rightarrow>
             (let (q, av) = cenq (commList (usr st u)) tid cmd co sock (avail st)
              in (upd_user u (\<lambda>x. x\<lparr>commList := q\<rparr>) st)\<lparr>avail := av\<rparr>))"

definition workload_command :: "env \<Rightarrow> nat \<Rightarrow> conn \<Rightarrow> server \<Rightarrow> conn \<times> server" where
  "workload_command e sock cn st =
     (let (buf, ps) = cut_at (\<lambda>s. delimSepMaxDelim s (CHR '','') 1) (clientMessage cn) (Option.bind (nth_opt (message cn) 3) id)
      in case store_from 3 ps (message cn) of
           None \<Rightarrow> (cn, crash st)
         | Some ptrs \<Rightarrow>
             (let cn = \<lparr>clientMessage = buf, message = ptrs\<rparr>
              in case (cell_text cn 1, cell_text cn 2) of
                   (Some tid, Some cmd) \<Rightarrow>
                     (cn,
                      case cell_text cn 3 of
                        None \<Rightarrow>
                          if cmd = ''DUMPLOG'' then crash st
                          else respond sock tid cmd (''FAIL,'' @ show_long (- 18)) st
                      | Some file \<Rightarrow>
                          if cmd = ''DUMPLOG'' \<and> (take 1 file = ''.'' \<or> take 1 file = ''/'') then
                            (let st = log_userCmd e tid cmd spc spc file spc st;
                                 st = log_line (commas [cmd, file]) st
                             in respond sock tid cmd ''SUCC'' st)
                          else if \<not> validUserID (Some file) then
                            respond sock tid cmd (''FAIL,'' @ show_long (- 18)) st
                          else enqueue_command e sock tid cmd file (cell_text cn 4) st)
                 | _ \<Rightarrow> (cn, crash st)))"

text \<open>What both servers do with a message of \<open>n\<close> fields, 4 or 2.\<close>

definition internal_command :: "env \<Rightarrow> nat \<Rightarrow> conn \<Rightarrow> server \<Rightarrow> conn \<times> server" where
  "internal_command e sock cn st =
     (case cell_text cn 0 of
        None \<Rightarrow> (cn, crash st)
      | Some cmd \<Rightarrow>
          if cmd = ''USR'' then (cn, usr_query sock cn st)
          else if cmd = ''WSC'' then workload_command e sock cn st
          else (cn, st))"

section \<open>The two connection loops\<close>

text \<open>\<open>transServer.c\<close>: one message of a connection, acknowledged by \<open>REC\<close>.\<close>

definition connection_message :: "env \<Rightarrow> nat \<Rightarrow> string \<Rightarrow> conn \<Rightarrow> server \<Rightarrow> conn \<times> server" where
  "connection_message e sock bytes cn st =
     (case recv_message bytes cn of
        None \<Rightarrow> (cn, crash st)
      | Some cn \<Rightarrow>
          (case split_message cn of
             None \<Rightarrow> (cn, crash st)
           | Some (cn, messageLen) \<Rightarrow>
               (let st = quickSend sock ''REC'' st
                in if messageLen \<noteq> 4 \<and> messageLen \<noteq> 2 then (cn, st)
                   else internal_command e sock cn st)))"

text \<open>
  \<open>transServerWeb.c\<close>: a thread takes the next socket from the queue and reads one message from
  it. \<open>incoming\<close> is what \<open>recv\<close> returns, \<open>None\<close> for an end or an error; the flag says whether the
  socket was closed. \<open>wdeq\<close> blocks on an empty queue (no step).
\<close>

definition web_connection ::
  "env \<Rightarrow> string option \<Rightarrow> nat queue \<Rightarrow> conn \<Rightarrow> server \<Rightarrow> (nat queue \<times> conn \<times> server \<times> bool) option" where
  "web_connection e incoming wq cn st =
     (case wdeq wq of
        (Blocked, _) \<Rightarrow> None
      | (Null, wq) \<Rightarrow> Some (wq, cn, crash st, False)
      | (Got _ sock, wq) \<Rightarrow>
          Some (case incoming of
                  None \<Rightarrow> (wq, cn, st, True)
                | Some bytes \<Rightarrow>
                    (case recv_message bytes cn of
                       None \<Rightarrow> (wq, cn, crash st, False)
                     | Some cn \<Rightarrow>
                         (case split_message cn of
                            None \<Rightarrow> (wq, cn, crash st, False)
                          | Some (cn, messageLen) \<Rightarrow>
                              if messageLen \<noteq> 4 \<and> messageLen \<noteq> 2 then (wq, cn, st, True)
                              else (case internal_command e sock cn st of (cn, st) \<Rightarrow> (wq, cn, st, False))))))"

section \<open>A workload command arrives\<close>

definition field :: "string \<Rightarrow> bool" where
  "field s \<longleftrightarrow> is_cstr s \<and> CHR ''|'' \<notin> set s"

definition line_end :: "char set" where
  "line_end = {NUL, CHR 0x0A, CHR 0x0D, CHR '' ''}"

definition conn_ok :: "conn \<Rightarrow> bool" where
  "conn_ok cn \<longleftrightarrow> length (clientMessage cn) = 200 \<and> length (message cn) = 5"

lemma conn_ok_init: "conn_ok conn_init"
  by (simp add: conn_ok_def conn_init_def)

lemma recv_clean:
  assumes "conn_ok cn" "msg \<noteq> []" "last msg \<notin> line_end" "length msg < 199" "trail = [] \<or> trail = [NUL]"
  shows "recv_message (msg @ trail) cn =
    Some (cn\<lparr>clientMessage := msg @ NUL # drop (Suc (length msg)) (clientMessage cn)\<rparr>)"
proof -
  let ?b = "clientMessage cn"
  have len: "length ?b = 200" using assms(1) by (simp add: conn_ok_def)
  have lst: "x ! (length msg - 1) = last msg" if "x = msg @ y" for x y
    using that assms(2) by (simp add: last_conv_nth nth_append)
  have drop1: "drop (length msg) ?b = ?b ! length msg # drop (Suc (length msg)) ?b"
    using assms(4) len by (simp add: Cons_nth_drop_Suc)
  have pos: "0 < length msg" using assms(2) by simp
  have keep: "strip_last c (msg @ y) (length msg) = Some (length msg)" if "c \<in> line_end" for c y
    using that assms(3) pos lst [OF refl, of y] by (auto simp: strip_last_def)
  have le: "NUL \<in> line_end" "CHR 0x0A \<in> line_end" "CHR 0x0D \<in> line_end" "CHR '' '' \<in> line_end"
    by (simp_all add: line_end_def)
  have first: "strip_last NUL (overwrite ?b 0 (msg @ trail)) (length (msg @ trail)) = Some (length msg)"
    using assms(5)
  proof
    assume "trail = []"
    then show ?thesis using keep [OF le(1), of "drop (length msg) ?b"] by (simp add: overwrite_def)
  next
    assume "trail = [NUL]"
    then show ?thesis by (simp add: overwrite_def strip_last_def nth_append)
  qed
  obtain y where b: "overwrite ?b 0 (msg @ trail) = msg @ y" "y[0 := NUL] = NUL # drop (Suc (length msg)) ?b" "y \<noteq> []"
    using assms(5)
  proof
    assume "trail = []"
    with that [of "drop (length msg) ?b"] show thesis by (simp add: overwrite_def drop1)
  next
    assume "trail = [NUL]"
    with that [of "NUL # drop (Suc (length msg)) ?b"] show thesis by (simp add: overwrite_def)
  qed
  have "(msg @ y)[length msg := NUL] = msg @ NUL # drop (Suc (length msg)) ?b"
    using b(2) by (simp add: list_update_append)
  moreover have "(length msg < length (msg @ y)) = True" using b(3) by simp
  ultimately show ?thesis
    unfolding recv_message_def Let_def b(1) first [unfolded b(1)] Option.bind.bind_lunit keep [OF le(2)] keep [OF le(3)] keep [OF le(4)]
      option.case by (simp only: if_True)
qed

lemma field_starts: "field s \<Longrightarrow> CHR ''|'' \<notin> set s \<and> is_cstr s"
  by (simp add: field_def)

lemma split_wsc:
  assumes cn: "length (message cn) = 5" "clientMessage cn = ''WSC|'' @ tid @ ''|'' @ cmd @ ''|'' @ data @ NUL # r"
    and f: "field tid" "field cmd" "field data"
  shows "split_message cn = Some
    (\<lparr>clientMessage = ''WSC'' @ NUL # tid @ NUL # cmd @ NUL # data @ NUL # r,
      message = [Some 0, Some 4, Some (5 + length tid), Some (6 + length tid + length cmd), None]\<rparr>, 4)"
proof -
  let ?s = "''WSC|'' @ tid @ ''|'' @ cmd @ ''|'' @ data"
  have c: "is_cstr ?s" "CHR ''|'' \<notin> set tid" "CHR ''|'' \<notin> set cmd" "CHR ''|'' \<notin> set data"
    using f by (auto simp: field_def NUL_def)
  have eq: "delimSepNoCpy (Some ?s) (CHR ''|'') = (nulled (CHR ''|'') ?s @ [NUL], 0 # starts (CHR ''|'') 0 ?s)"
    by (rule delimSepNoCpy_eq) simp
  have n: "nulled (CHR ''|'') ?s = ''WSC'' @ NUL # tid @ NUL # cmd @ NUL # data" using c by simp
  have st: "0 # starts (CHR ''|'') 0 ?s = [0, 4, 5 + length tid, 6 + length tid + length cmd]" using c by simp
  have "cut_at (\<lambda>s. delimSepNoCpy s (CHR ''|'')) ([] @ ?s @ NUL # r) (Some 0) =
      ([] @ nulled (CHR ''|'') ?s @ NUL # r, map ((+) 0) (snd (delimSepNoCpy (Some ?s) (CHR ''|''))))"
    by (rule cut_at_end) (use c(1) in \<open>simp_all only: eq fst_conv list.size nulled_simps(4)\<close>)
  then have "cut_at (\<lambda>s. delimSepNoCpy s (CHR ''|'')) (clientMessage cn) (Some 0) =
      (''WSC'' @ NUL # tid @ NUL # cmd @ NUL # data @ NUL # r, [0, 4, 5 + length tid, 6 + length tid + length cmd])"
    unfolding eq n st cn(2) by simp
  moreover have "store_from 0 [0, 4, 5 + length tid, 6 + length tid + length cmd] ((message cn)[4 := None]) =
      Some [Some 0, Some 4, Some (5 + length tid), Some (6 + length tid + length cmd), None]"
    using cn(1) by (auto simp: store_from_def numeral_eq_Suc length_Suc_conv)
  ultimately show ?thesis by (simp add: split_message_def)
qed

lemma valid_uid_chars:
  assumes "validUserID (Some uid)" "c \<in> set uid"
  shows "c \<noteq> CHR ''|''" "c \<noteq> CHR '',''" "c \<noteq> NUL" "c \<noteq> CHR ''.''" "c \<noteq> CHR ''/''" "c \<notin> line_end"
proof -
  have v: "valid_user_char c" using assms by (auto simp: validUserID_iff list_all_iff)
  have "\<not> valid_user_char (CHR ''|'')" "\<not> valid_user_char (CHR '','')" "\<not> valid_user_char NUL"
    "\<not> valid_user_char (CHR ''.'')" "\<not> valid_user_char (CHR ''/'')" "\<not> valid_user_char (CHR 0x0A)"
    "\<not> valid_user_char (CHR 0x0D)" "\<not> valid_user_char (CHR '' '')"
    by code_simp+
  with v show "c \<noteq> CHR ''|''" "c \<noteq> CHR '',''" "c \<noteq> NUL" "c \<noteq> CHR ''.''" "c \<noteq> CHR ''/''" "c \<notin> line_end"
    by (auto simp: line_end_def)
qed

lemma cut_data:
  assumes uid: "validUserID (Some uid)" and co: "\<And>a. co = Some a \<Longrightarrow> is_cstr a"
    and p: "length p = off" and data: "data = uid @ (case co of None \<Rightarrow> [] | Some a \<Rightarrow> CHR '','' # a)"
  shows "cut_at (\<lambda>s. delimSepMaxDelim s (CHR '','') 1) (p @ data @ NUL # r) (Some off) =
    (p @ uid @ NUL # (case co of None \<Rightarrow> r | Some a \<Rightarrow> a @ NUL # r),
     off # (case co of None \<Rightarrow> [] | Some a \<Rightarrow> [off + Suc (length uid)]))"
proof -
  note ch = valid_uid_chars [OF uid]
  have u: "CHR '','' \<notin> set uid" "uid \<noteq> []" "is_cstr uid"
    using ch uid by (auto simp: is_cstr_def validUserID_iff)
  show ?thesis
  proof (cases co)
    case None
    then have d: "data = uid" by (simp add: data)
    have eq: "delimSepMaxDelim (Some uid) (CHR '','') 1 = (uid @ [NUL], [0])"
      by (rule delimSepMaxDelim_eq(2)) (use u in simp_all)
    show ?thesis using cut_at_end [OF p u(3), of "\<lambda>s. delimSepMaxDelim s (CHR '','') 1" uid r]
      unfolding d eq by (simp add: None)
  next
    case (Some a)
    then have d: "data = uid @ CHR '','' # a" and a: "is_cstr a" using co by (simp_all add: data)
    have eq: "delimSepMaxDelim (Some data) (CHR '','') 1 = (uid @ NUL # a @ [NUL], [0, Suc (length uid)])"
      unfolding d by (rule delimSepMaxDelim_eq(1)) (use u in simp)
    have "is_cstr data" using u a by (simp add: d NUL_def)
    from cut_at_end [OF p this, of "\<lambda>s. delimSepMaxDelim s (CHR '','') 1" "uid @ NUL # a" r]
    show ?thesis unfolding eq by (simp add: Some d)
  qed
qed

lemma workload_wsc:
  assumes uid: "validUserID (Some uid)" and co: "\<And>a. co = Some a \<Longrightarrow> is_cstr a"
    and f: "field tid" "field cmd" and data: "data = uid @ (case co of None \<Rightarrow> [] | Some a \<Rightarrow> CHR '','' # a)"
    and cn: "cn = \<lparr>clientMessage = ''WSC'' @ NUL # tid @ NUL # cmd @ NUL # data @ NUL # r,
      message = [Some 0, Some 4, Some (5 + length tid), Some (6 + length tid + length cmd), None]\<rparr>"
  obtains cn' where "workload_command e sock cn st = (cn', enqueue_command e sock tid cmd uid co st)"
    "length (clientMessage cn') = length (clientMessage cn)" "length (message cn') = 5"
proof -
  let ?p = "''WSC'' @ NUL # tid @ NUL # cmd @ [NUL]" and ?off = "6 + length tid + length cmd"
  define tail where "tail = (case co of None \<Rightarrow> r | Some a \<Rightarrow> a @ NUL # r)"
  define ptrs where "ptrs = [Some 0, Some 4, Some (5 + length tid), Some ?off,
    (case co of None \<Rightarrow> None | Some a \<Rightarrow> Some (?off + Suc (length uid)))]"
  define cn' where "cn' = \<lparr>clientMessage = ?p @ uid @ NUL # tail, message = ptrs\<rparr>"
  note ch = valid_uid_chars [OF uid]
  have u: "is_cstr uid" "take 1 uid \<noteq> ''.''" "take 1 uid \<noteq> ''/''"
    using ch by (auto simp: is_cstr_def) (cases uid, auto)+
  have t: "is_cstr tid" "is_cstr cmd" using f by (simp_all add: field_def)
  have buf: "clientMessage cn = ?p @ data @ NUL # r" by (simp add: cn)
  have cut: "cut_at (\<lambda>s. delimSepMaxDelim s (CHR '','') 1) (clientMessage cn) (Option.bind (nth_opt (message cn) 3) id) =
    (?p @ uid @ NUL # tail, ?off # (case co of None \<Rightarrow> [] | Some a \<Rightarrow> [?off + Suc (length uid)]))"
    unfolding buf tail_def using cut_data [OF uid co _ data, of ?p ?off r]
    by (simp add: cn nth_opt_def)
  have st: "store_from 3 (?off # (case co of None \<Rightarrow> [] | Some a \<Rightarrow> [?off + Suc (length uid)])) (message cn) = Some ptrs"
    by (cases co) (simp_all add: store_from_def cn ptrs_def)
  have c1: "cell_text cn' 1 = Some tid"
    using text_at [OF t(1), of "''WSC'' @ [NUL]" 4 "cmd @ NUL # uid @ NUL # tail"]
    by (simp add: cell_text_def cn'_def ptrs_def nth_opt_def)
  have c2: "cell_text cn' 2 = Some cmd"
    using text_at [OF t(2), of "''WSC'' @ NUL # tid @ [NUL]" "5 + length tid" "uid @ NUL # tail"]
    by (simp add: cell_text_def cn'_def ptrs_def nth_opt_def)
  have c3: "cell_text cn' 3 = Some uid"
    using text_at [OF u(1), of ?p ?off tail] by (simp add: cell_text_def cn'_def ptrs_def nth_opt_def)
  have c4: "cell_text cn' 4 = co"
  proof (cases co)
    case None
    then show ?thesis by (simp add: cell_text_def cn'_def ptrs_def nth_opt_def)
  next
    case (Some a)
    then show ?thesis
      using text_at [OF co [OF Some], of "?p @ uid @ [NUL]" "?off + Suc (length uid)" r]
      by (simp add: cell_text_def cn'_def ptrs_def nth_opt_def tail_def)
  qed
  have no: "(cmd = ''DUMPLOG'' \<and> (take 1 uid = ''.'' \<or> take 1 uid = ''/'')) = False" using u(2,3) by blast
  have "workload_command e sock cn st = (cn', enqueue_command e sock tid cmd uid co st)"
    unfolding workload_command_def Let_def cut prod.case st option.case cn'_def [symmetric] c1 c2 c3 c4 no
    by (simp only: if_False uid not_True_eq_False)
  moreover have "length (clientMessage cn') = length (clientMessage cn)"
    by (cases co) (simp_all add: cn'_def buf tail_def data)
  moreover have "length (message cn') = 5" by (simp add: cn'_def ptrs_def)
  ultimately show thesis by (rule that)
qed

text \<open>The whole way of a workload command through the parsing both servers share.\<close>

lemma wsc_parsed:
  assumes cn: "conn_ok cn" and uid: "validUserID (Some uid)" and f: "field tid" "field cmd"
    and co: "\<And>a. co = Some a \<Longrightarrow> field a \<and> (a \<noteq> [] \<longrightarrow> last a \<notin> line_end)"
    and len: "length (wsc_text tid cmd uid co) < 199" and trail: "trail = [] \<or> trail = [NUL]"
  obtains cn1 cn2 cn' where "recv_message (wsc_text tid cmd uid co @ trail) cn = Some cn1"
    "split_message cn1 = Some (cn2, 4)"
    "internal_command e sock cn2 st = (cn', enqueue_command e sock tid cmd uid co st)" "conn_ok cn'"
proof -
  define data where "data = uid @ (case co of None \<Rightarrow> [] | Some a \<Rightarrow> CHR '','' # a)"
  let ?msg = "wsc_text tid cmd uid co" and ?r = "drop (Suc (length (wsc_text tid cmd uid co))) (clientMessage cn)"
  note ch = valid_uid_chars [OF uid]
  have u: "uid \<noteq> []" "field uid" using uid ch by (auto simp: field_def is_cstr_def validUserID_iff)
  have co': "\<And>a. co = Some a \<Longrightarrow> is_cstr a" using co by (simp add: field_def)
  have msg: "?msg = ''WSC|'' @ tid @ ''|'' @ cmd @ ''|'' @ data" by (simp add: wsc_text_def data_def)
  have fd: "field data" using u(2) co by (cases co) (auto simp: data_def field_def NUL_def)
  have "last uid \<in> set uid" using u(1) by simp
  then have lu: "last uid \<notin> line_end" by (rule ch(6))
  have "CHR '','' \<notin> line_end" by (simp add: line_end_def NUL_def)
  with lu u(1) co have "last data \<notin> line_end \<and> data \<noteq> []" by (cases co) (auto simp: data_def)
  then have l: "?msg \<noteq> []" "last ?msg \<notin> line_end" by (simp_all add: msg)
  define cn1 where "cn1 = cn\<lparr>clientMessage := ?msg @ NUL # ?r\<rparr>"
  have r1: "recv_message (?msg @ trail) cn = Some cn1"
    unfolding cn1_def using cn l len trail by (rule recv_clean)
  define cn2 where "cn2 = \<lparr>clientMessage = ''WSC'' @ NUL # tid @ NUL # cmd @ NUL # data @ NUL # ?r,
      message = [Some 0, Some 4, Some (5 + length tid), Some (6 + length tid + length cmd), None]\<rparr>"
  have "length (message cn1) = 5" "clientMessage cn1 = ''WSC|'' @ tid @ ''|'' @ cmd @ ''|'' @ data @ NUL # ?r"
    using cn msg by (simp_all add: cn1_def conn_ok_def)
  from split_wsc [OF this f fd] have sp: "split_message cn1 = Some (cn2, 4)" unfolding cn2_def .
  have "length (clientMessage cn2) = length (?msg @ NUL # ?r)" by (simp add: cn2_def msg)
  also have "\<dots> = 200" using cn len by (simp add: conn_ok_def)
  finally have len2: "length (clientMessage cn2) = 200" .
  have c0: "cell_text cn2 0 = Some ''WSC''"
    using text_at [of "''WSC''" "[]" 0 "tid @ NUL # cmd @ NUL # data @ NUL # ?r"]
    by (simp add: cell_text_def cn2_def nth_opt_def NUL_def)
  obtain cn' where w: "workload_command e sock cn2 st = (cn', enqueue_command e sock tid cmd uid co st)"
    "length (clientMessage cn') = length (clientMessage cn2)" "length (message cn') = 5"
    by (rule workload_wsc [OF uid co' f data_def cn2_def])
  have "internal_command e sock cn2 st = (cn', enqueue_command e sock tid cmd uid co st)"
    unfolding internal_command_def c0 using w(1) by simp
  moreover have "conn_ok cn'" using w(2,3) len2 by (simp add: conn_ok_def)
  ultimately show thesis by (rule that [OF r1 sp])
qed

section \<open>The command queue of a user\<close>

text \<open>What loading a user does not touch: the responses, the semaphore and all command queues.\<close>

definition same_queues :: "server \<Rightarrow> server \<Rightarrow> bool" where
  "same_queues st st' \<longleftrightarrow>
     replies st' = replies st \<and> wire st' = wire st \<and> avail st' = avail st \<and>
     (\<forall>v. commList (usr st' v) = commList (usr st v))"

lemma same_queues_refl: "same_queues st st"
  by (simp add: same_queues_def)

lemma same_queues_trans: "same_queues st st' \<Longrightarrow> same_queues st' st'' \<Longrightarrow> same_queues st st''"
  by (simp add: same_queues_def)

lemma same_queues_steps:
  "same_queues st (db_write stmts db st)" "same_queues st (crash st)"
  "same_queues st (fst (ensureStock st sid))"
  "same_queues st (fst (addTrigger st u tid s ty m p))"
  "same_queues st (fst (addUserStock st u s n))"
  "same_queues st (upd_user u (\<lambda>x. x\<lparr>balance := f x\<rparr>) st)"
  by (simp_all add: same_queues_def crash_def ensureStock_def addStock_def addTrigger_def addUserStock_def Let_def
      split_beta split: option.split)

lemma same_queues_triggers: "same_queues st (load_triggers u rs st)"
proof (induction rs arbitrary: st)
  case Nil
  show ?case by (simp add: same_queues_refl)
next
  case (Cons r rs)
  show ?case
  proof (cases r rule: trigger_row.cases)
    case r: (1 x tid sid ty res val)
    obtain st1 o1 where st1: "ensureStock st sid = (st1, o1)" by (cases "ensureStock st sid")
    then have e: "same_queues st st1" using same_queues_steps(3) [of st sid] by simp
    show ?thesis
    proof (cases o1)
      case None
      then show ?thesis using same_queues_trans [OF e same_queues_steps(2)] by (simp add: r st1)
    next
      case (Some s)
      let ?st2 = "fst (addTrigger st1 u tid s (case ty of [] \<Rightarrow> NUL | c # _ \<Rightarrow> c) (str2price (Some res)) (str2price (Some val)))"
      have "same_queues ?st2 (load_triggers u rs ?st2)" by (rule Cons.IH)
      then have "same_queues st (load_triggers u rs ?st2)"
        using same_queues_trans [OF same_queues_trans [OF e same_queues_steps(4)]] by blast
      then show ?thesis by (simp add: r st1 Some)
    qed
  qed (simp_all add: same_queues_steps(2))
qed

lemma same_queues_stocks: "same_queues st (load_stocks u rs st)"
proof (induction rs arbitrary: st)
  case Nil
  show ?case by (simp add: same_queues_refl)
next
  case (Cons r rs)
  show ?case
  proof (cases r rule: stock_row.cases)
    case r: (1 x sid n)
    obtain st1 o1 where st1: "ensureStock st sid = (st1, o1)" by (cases "ensureStock st sid")
    then have e: "same_queues st st1" using same_queues_steps(3) [of st sid] by simp
    show ?thesis
    proof (cases o1)
      case None
      then show ?thesis using same_queues_trans [OF e same_queues_steps(2)] by (simp add: r st1)
    next
      case (Some s)
      let ?st2 = "fst (addUserStock st1 u s (strtol10 n))"
      have "same_queues ?st2 (load_stocks u rs ?st2)" by (rule Cons.IH)
      then have "same_queues st (load_stocks u rs ?st2)"
        using same_queues_trans [OF same_queues_trans [OF e same_queues_steps(5)]] by blast
      then show ?thesis by (simp add: r st1 Some)
    qed
  qed (simp_all add: same_queues_steps(2))
qed

lemma same_queues_load: "same_queues st (load_user e u uid st)"
proof -
  let ?db = "dbID (usr st u)"
  define n1 where "n1 = rows e (length (db_sent st))"
  define s1 where "s1 = db_write [SelectUserTrig uid] ?db st"
  define s2 where "s2 = (case n1 of None \<Rightarrow> s1 | Some rs \<Rightarrow> load_triggers u rs s1)"
  define n2 where "n2 = rows e (length (db_sent s2))"
  define s3 where "s3 = db_write [SelectUserStock uid] ?db s2"
  define s4 where "s4 = (case n2 of None \<Rightarrow> s3 | Some rs \<Rightarrow> load_stocks u rs s3)"
  define s5 where "s5 = db_write [SelectUserBal uid] ?db s4"
  note tr = same_queues_trans and st = same_queues_steps
  have "same_queues st s1" unfolding s1_def by (rule st)
  moreover have "same_queues s1 s2"
    by (cases n1) (simp_all add: s2_def same_queues_refl same_queues_triggers)
  moreover have "same_queues s2 s3" unfolding s3_def by (rule st)
  moreover have "same_queues s3 s4"
    by (cases n2) (simp_all add: s4_def same_queues_refl same_queues_stocks)
  moreover have "same_queues s4 s5" unfolding s5_def by (rule st)
  ultimately have s: "same_queues st s5" using tr by blast
  have eq: "load_user e u uid st = (case rows e (length (db_sent s4)) of
      Some ((b # _) # _) \<Rightarrow> upd_user u (\<lambda>x. x\<lparr>balance := str2price (Some b)\<rparr>) s5
    | Some ([] # _) \<Rightarrow> crash s5 | _ \<Rightarrow> s5)"
    unfolding load_user_def db_read_def Let_def prod.case s1_def [symmetric] n1_def [symmetric] s2_def [symmetric]
      n2_def [symmetric] s3_def [symmetric] s4_def [symmetric] s5_def [symmetric] ..
  show ?thesis
    unfolding eq using s tr [OF s st(2)] tr [OF s st(6)] by (auto split: option.split list.split)
qed

text \<open>Replacing a user's command queue.\<close>

lemma ok_commList:
  assumes "server_ok st" "u < u_fresh st" "queue_inv q"
  shows "server_ok ((upd_user u (\<lambda>x. x\<lparr>commList := q\<rparr>) st)\<lparr>avail := k\<rparr>)"
proof -
  have "server_ok (upd_user u (\<lambda>x. x\<lparr>commList := q\<rparr>) st)"
    using ok_user_wf [OF assms(1,2)] assms(3) by (intro ok_upd_user assms(1)) (simp_all add: user_wf_def)
  from server_ok_cong [OF this] server_ok_logs [OF this] server_ok_fault [OF this] show ?thesis by simp
qed

lemma account_commList:
  "account_of ((upd_user u (\<lambda>x. x\<lparr>commList := q\<rparr>) st)\<lparr>avail := k\<rparr>) v = account_of st v"
  by (simp add: account_of_def pending_of_def)

lemma getUser_range: "server_ok st \<Longrightarrow> user_key uid \<Longrightarrow> getUser st uid = Some u \<Longrightarrow> u < u_fresh st"
  unfolding getUser_look server_ok_def users_ok_def by blast

lemma valid_key: "validUserID (Some uid) \<Longrightarrow> user_key uid"
  by (simp add: validUserID_iff user_key_def)

text \<open>The user the command goes to, with the queue it has before.\<close>

lemma find_or_add:
  assumes ok: "server_ok st" and uid: "validUserID (Some uid)"
    and r: "getUser st uid = None \<Longrightarrow> rows_ok e (length (db_sent st))"
  obtains st' u where "(case getUser st uid of
           Some u \<Rightarrow> (st, Some u)
         | None \<Rightarrow>
             (case addUser e st uid of
                (st, None) \<Rightarrow> (crash st, None)
              | (st, Some u) \<Rightarrow> (db_write [InsertAcct uid ''0.00''] (dbID (usr st u)) st, Some u))) = (st', Some u)"
    "server_ok st'" "u < u_fresh st'" "getUser st' uid = Some u"
    "commList (usr st' u) = (case getUser st uid of None \<Rightarrow> queue_init | Some v \<Rightarrow> commList (usr st v))"
    "replies st' = replies st" "wire st' = wire st" "avail st' = avail st"
proof (cases "getUser st uid")
  case (Some u)
  with that [of st u] ok getUser_range [OF ok valid_key [OF uid] Some] show thesis by simp
next
  case None
  let ?u = "u_fresh st"
  obtain st1 where st1: "addUser e st uid = (st1, Some ?u)" "server_ok st1" "u_fresh st1 = Suc ?u"
      "getUser st1 uid = Some ?u"
    using addUser_new [OF ok valid_key [OF uid] None r [OF None]] by metis
  define l where "l = st\<lparr>users := fst (trie_put user_addr USER_CHARS (users st) uid ?u), usr := (usr st)(?u := new_user uid),
      u_fresh := Suc ?u, u_ring := ring_insert ?u (u_ring st), ul_num := ul_num st + 1\<rparr>"
  have "snd (trie_put user_addr USER_CHARS (users st) uid ?u) = Some ?u"
    using st1(1) None by (auto simp: addUser_def split_beta Let_def split: option.splits)
  then have "st1 = load_user e ?u uid l"
    using st1(1) None by (simp add: addUser_def split_beta Let_def l_def)
  then have q: "same_queues l st1" using same_queues_load by simp
  have l: "replies l = replies st" "wire l = wire st" "avail l = avail st" "commList (usr l ?u) = queue_init"
    by (simp_all add: l_def new_user_def)
  let ?st' = "db_write [InsertAcct uid ''0.00''] (dbID (usr st1 ?u)) st1"
  have "getUser ?st' uid = Some ?u" using st1(4) by (simp add: getUser_def)
  moreover have "server_ok ?st'" using st1(2) by (rule ok_output(3))
  ultimately show thesis
    using that [of ?st' ?u] q l None st1 by (simp add: same_queues_def)
qed

lemma enqueue_appends:
  assumes ok: "server_ok st" and uid: "validUserID (Some uid)"
    and r: "getUser st uid = None \<Longrightarrow> rows_ok e (length (db_sent st))"
  obtains u where "getUser (enqueue_command e sock tid cmd uid co st) uid = Some u"
    "server_ok (enqueue_command e sock tid cmd uid co st)"
    "contents (commList (usr (enqueue_command e sock tid cmd uid co st) u)) =
      (case getUser st uid of None \<Rightarrow> [] | Some v \<Rightarrow> contents (commList (usr st v))) @
      [\<lparr>comm = co, webServerSock = sock, transID = tid, userCmd = cmd\<rparr>]"
    "avail (enqueue_command e sock tid cmd uid co st) = Suc (avail st)"
    "wire (enqueue_command e sock tid cmd uid co st) = wire st"
    "replies (enqueue_command e sock tid cmd uid co st) = replies st"
proof -
  obtain st' u where f: "(case getUser st uid of
           Some u \<Rightarrow> (st, Some u)
         | None \<Rightarrow>
             (case addUser e st uid of
                (st, None) \<Rightarrow> (crash st, None)
              | (st, Some u) \<Rightarrow> (db_write [InsertAcct uid ''0.00''] (dbID (usr st u)) st, Some u))) = (st', Some u)"
    "server_ok st'" "u < u_fresh st'" "getUser st' uid = Some u"
    "commList (usr st' u) = (case getUser st uid of None \<Rightarrow> queue_init | Some v \<Rightarrow> commList (usr st v))"
    "replies st' = replies st" "wire st' = wire st" "avail st' = avail st"
    by (rule find_or_add [OF ok uid r]) simp_all
  let ?v = "\<lparr>comm = co, webServerSock = sock, transID = tid, userCmd = cmd\<rparr>"
  define q where "q = snd (enq (commList (usr st' u)) ?v)"
  have inv: "queue_inv (commList (usr st' u))" using ok_user_wf [OF f(2,3)] by (simp add: user_wf_def)
  note q = queue_inv_enq [OF inv, of ?v, folded q_def]
  have eq: "enqueue_command e sock tid cmd uid co st =
      (upd_user u (\<lambda>x. x\<lparr>commList := q\<rparr>) st')\<lparr>avail := Suc (avail st')\<rparr>"
    unfolding enqueue_command_def f(1) Let_def prod.case option.case cenq_def q_def ..
  have c: "contents (commList (usr st' u)) = (case getUser st uid of None \<Rightarrow> [] | Some v \<Rightarrow> contents (commList (usr st v)))"
    using conjunct2 [OF queue_inv_init] by (auto simp: f(5) split: option.split)
  show thesis
  proof (rule that)
    show "server_ok (enqueue_command e sock tid cmd uid co st)"
      unfolding eq using f(2,3) q by (intro ok_commList) simp_all
    show "getUser (enqueue_command e sock tid cmd uid co st) uid = Some u"
      unfolding eq using f(4) by (simp add: getUser_def)
  qed (use q c f(6-8) in \<open>simp_all add: eq\<close>)
qed

lemma pop_command:
  assumes "queue_inv q" "contents q = cm # cs"
  obtains a q' where "cdeq q = (Got a cm, q')" "queue_inv (free_cell a q')" "contents (free_cell a q') = cs"
proof -
  have "cdeq q = deq False q" using assms by (intro cdeq_deq) simp_all
  with that show thesis using deq_free [OF assms] by metis
qed

lemma split_args:
  "is_cstr a \<Longrightarrow> tokens (delimSepNoCpy (Some a) (CHR '','')) = (if a = [] then [] else split_on (CHR '','') None a)"
  using delimSepNoCpy_tokens [of a "CHR '',''"] by (simp add: delimSepNoCpy_def tokens_def NUL_def)

definition args_of :: "string option \<Rightarrow> string list" where
  "args_of co = (case co of None \<Rightarrow> [] | Some a \<Rightarrow> if a = [] then [] else split_on (CHR '','') None a)"

lemma run_command_pops:
  assumes ok: "server_ok st" and u: "u < u_fresh st" and c: "contents (commList (usr st u)) = cm # cs"
    and a: "\<And>a. comm cm = Some a \<Longrightarrow> is_cstr a" and len: "length (args_of (comm cm)) \<le> 2"
  obtains st' where "run_command e r u st = exec_command e \<lparr>c_tid = transID cm, c_cmd = userCmd cm,
      c_args = args_of (comm cm), c_sock = webServerSock cm, c_returned = r, c_user = u\<rparr> st'"
    "server_ok st'" "u_fresh st' = u_fresh st" "contents (commList (usr st' u)) = cs"
    "\<And>v. account_of st' v = account_of st v" "replies st' = replies st" "avail st' = avail st"
    "\<And>v. v \<noteq> u \<Longrightarrow> commList (usr st' v) = commList (usr st v)"
proof -
  have inv: "queue_inv (commList (usr st u))" using ok_user_wf [OF ok u] by (simp add: user_wf_def)
  obtain p q' where q: "cdeq (commList (usr st u)) = (Got p cm, q')" "queue_inv (free_cell p q')" "contents (free_cell p q') = cs"
    by (rule pop_command [OF inv c])
  define st' where "st' = upd_user u (\<lambda>x. x\<lparr>commList := free_cell p q'\<rparr>) st"
  have t: "tokens (delimSepNoCpy (comm cm) (CHR '','')) = args_of (comm cm)"
    using split_args a by (cases "comm cm") (simp_all add: args_of_def delimSepNoCpy_def tokens_def)
  have l: "(length (args_of (comm cm)) > 2) = False" using len by simp
  have "run_command e r u st = exec_command e \<lparr>c_tid = transID cm, c_cmd = userCmd cm,
      c_args = args_of (comm cm), c_sock = webServerSock cm, c_returned = r, c_user = u\<rparr> st'"
    unfolding run_command_def q(1) prod.case deq.case Let_def t l if_False st'_def ..
  then show thesis
  proof (rule that)
    show "server_ok st'"
      unfolding st'_def using ok_user_wf [OF ok u] q(2) by (intro ok_upd_user ok) (simp_all add: user_wf_def)
    show "account_of st' v = account_of st v" for v
      by (simp add: st'_def account_of_def pending_of_def)
  qed (use q(3) in \<open>simp_all add: st'_def\<close>)
qed

section \<open>Properties\<close>

text \<open>C19: A workload command for a well-formed user identifier that arrives in one message, with or
  without its NUL, is acknowledged with \<open>REC\<close> and appended to the queue of its user, who is
  created from the database first when unknown; the shared semaphore is posted once and the
  buffer is ready for the next message, whatever messages came before.\<close>

theorem message_enqueues:
  assumes "conn_ok cn" "server_ok st" "validUserID (Some uid)" "field tid" "field cmd"
    "\<And>a. co = Some a \<Longrightarrow> field a \<and> (a \<noteq> [] \<longrightarrow> last a \<notin> line_end)"
    "length (wsc_text tid cmd uid co) < 199" "trail = [] \<or> trail = [NUL]"
    "getUser st uid = None \<Longrightarrow> rows_ok e (length (db_sent st))"
  shows "\<exists>cn' st' u. connection_message e sock (wsc_text tid cmd uid co @ trail) cn st = (cn', st') \<and>
    conn_ok cn' \<and> server_ok st' \<and> getUser st' uid = Some u \<and>
    contents (commList (usr st' u)) =
      (case getUser st uid of None \<Rightarrow> [] | Some v \<Rightarrow> contents (commList (usr st v))) @
      [\<lparr>comm = co, webServerSock = sock, transID = tid, userCmd = cmd\<rparr>] \<and>
    avail st' = Suc (avail st) \<and> wire st' = wire st @ [(sock, ''REC'')]"
proof -
  let ?st = "quickSend sock ''REC'' st"
  have ok: "server_ok ?st" by (rule ok_output(4) [OF assms(2)])
  have q: "getUser ?st uid = getUser st uid" "db_sent ?st = db_sent st" "usr ?st = usr st"
    "avail ?st = avail st" "wire ?st = wire st @ [(sock, ''REC'')]"
    by (simp_all add: getUser_def quickSend_def)
  obtain cn1 cn2 cn' where p: "recv_message (wsc_text tid cmd uid co @ trail) cn = Some cn1"
      "split_message cn1 = Some (cn2, 4)"
      "internal_command e sock cn2 ?st = (cn', enqueue_command e sock tid cmd uid co ?st)" "conn_ok cn'"
    by (rule wsc_parsed [OF assms(1,3-8)])
  have c: "connection_message e sock (wsc_text tid cmd uid co @ trail) cn st =
      (cn', enqueue_command e sock tid cmd uid co ?st)" "conn_ok cn'"
    unfolding connection_message_def p(1) option.case p(2) prod.case Let_def p(3) by (simp_all add: p(4))
  have r: "getUser ?st uid = None \<Longrightarrow> rows_ok e (length (db_sent ?st))" using assms(9) q(1,2) by simp
  from enqueue_appends [OF ok assms(3) r, of sock tid cmd co] c q show ?thesis by metis
qed

lemma message_enqueues_witness:
  "\<exists>cn' st' u. connection_message sample_env 3 (wsc_text ''7'' ''QUOTE'' ''A1b2C3d4E5'' (Some ''ABC'') @ [NUL]) conn_init server_init
      = (cn', st') \<and>
    conn_ok cn' \<and> server_ok st' \<and> getUser st' ''A1b2C3d4E5'' = Some u \<and>
    contents (commList (usr st' u)) =
      (case getUser server_init ''A1b2C3d4E5'' of None \<Rightarrow> [] | Some v \<Rightarrow> contents (commList (usr server_init v))) @
      [\<lparr>comm = Some ''ABC'', webServerSock = 3, transID = ''7'', userCmd = ''QUOTE''\<rparr>] \<and>
    avail st' = Suc (avail server_init) \<and> wire st' = wire server_init @ [(3, ''REC'')]"
proof (rule message_enqueues [OF conn_ok_init server_ok_init])
  show "validUserID (Some ''A1b2C3d4E5'')" by code_simp
  show "length (wsc_text ''7'' ''QUOTE'' ''A1b2C3d4E5'' (Some ''ABC'')) < 199" by (simp add: wsc_text_def)
qed (auto simp: field_def line_end_def NUL_def rows_ok_def sample_env_def)

text \<open>C20: The connection thread of the web variant serves the oldest socket of its queue and keeps
  the others in order; a workload command that arrives on it is appended to its user's queue with
  that socket, nothing is sent and the socket stays open.\<close>

theorem web_message_enqueues:
  assumes "conn_ok cn" "server_ok st" "validUserID (Some uid)" "field tid" "field cmd"
    "\<And>a. co = Some a \<Longrightarrow> field a \<and> (a \<noteq> [] \<longrightarrow> last a \<notin> line_end)"
    "length (wsc_text tid cmd uid co) < 199" "trail = [] \<or> trail = [NUL]"
    "getUser st uid = None \<Longrightarrow> rows_ok e (length (db_sent st))"
    "queue_inv wq" "contents wq = sock # socks"
  shows "\<exists>wq' cn' st' u. web_connection e (Some (wsc_text tid cmd uid co @ trail)) wq cn st = Some (wq', cn', st', False) \<and>
    queue_inv wq' \<and> contents wq' = socks \<and> conn_ok cn' \<and> server_ok st' \<and> getUser st' uid = Some u \<and>
    contents (commList (usr st' u)) =
      (case getUser st uid of None \<Rightarrow> [] | Some v \<Rightarrow> contents (commList (usr st v))) @
      [\<lparr>comm = co, webServerSock = sock, transID = tid, userCmd = cmd\<rparr>] \<and>
    avail st' = Suc (avail st) \<and> wire st' = wire st"
proof -
  obtain wq' where q: "wdeq wq = (Got (q_start wq) sock, wq')" "queue_inv wq'" "contents wq' = socks"
    using queue_inv_deq [OF assms(10,11), of True] unfolding wdeq_def by (metis prod.collapse)
  obtain cn1 cn2 cn' where p: "recv_message (wsc_text tid cmd uid co @ trail) cn = Some cn1"
      "split_message cn1 = Some (cn2, 4)"
      "internal_command e sock cn2 st = (cn', enqueue_command e sock tid cmd uid co st)" "conn_ok cn'"
    by (rule wsc_parsed [OF assms(1,3-8)])
  have c: "web_connection e (Some (wsc_text tid cmd uid co @ trail)) wq cn st =
      Some (wq', cn', enqueue_command e sock tid cmd uid co st, False)"
    unfolding web_connection_def q(1) p(1) option.case p(2) prod.case deq.case p(3) by simp
  from enqueue_appends [OF assms(2,3,9), of sock tid cmd co] c p(4) q(2,3) show ?thesis by metis
qed

lemma web_message_enqueues_witness:
  "\<exists>wq' cn' st' u. web_connection sample_env (Some (wsc_text ''7'' ''QUOTE'' ''A1b2C3d4E5'' (Some ''ABC'') @ []))
      (snd (wenq queue_init 3)) conn_init server_init = Some (wq', cn', st', False) \<and>
    queue_inv wq' \<and> contents wq' = [] \<and> conn_ok cn' \<and> server_ok st' \<and> getUser st' ''A1b2C3d4E5'' = Some u \<and>
    contents (commList (usr st' u)) =
      (case getUser server_init ''A1b2C3d4E5'' of None \<Rightarrow> [] | Some v \<Rightarrow> contents (commList (usr server_init v))) @
      [\<lparr>comm = Some ''ABC'', webServerSock = 3, transID = ''7'', userCmd = ''QUOTE''\<rparr>] \<and>
    avail st' = Suc (avail server_init) \<and> wire st' = wire server_init"
proof (rule web_message_enqueues [OF conn_ok_init server_ok_init])
  show "validUserID (Some ''A1b2C3d4E5'')" by code_simp
  show "length (wsc_text ''7'' ''QUOTE'' ''A1b2C3d4E5'' (Some ''ABC'')) < 199" by (simp add: wsc_text_def)
  have i: "queue_inv (queue_init :: nat queue)" "contents (queue_init :: nat queue) = []"
    using queue_inv_init by blast+
  show "queue_inv (snd (wenq queue_init 3))" "contents (snd (wenq queue_init 3)) = [3]"
    unfolding wenq_def using queue_inv_enq [OF i(1), of 3] i(2) by (metis append_Nil)+
qed (auto simp: field_def line_end_def NUL_def rows_ok_def sample_env_def)

text \<open>C21: A command thread takes the oldest command of its user's queue, splits its data at the
  commas and executes exactly the command of that name with these arguments, on a state that
  differs only in the queue; the result is well formed again.\<close>

theorem queued_command_runs:
  assumes "server_ok st" "u < u_fresh st" "contents (commList (usr st u)) = cm # cs"
    "\<And>a. comm cm = Some a \<Longrightarrow> is_cstr a" "length (args_of (comm cm)) \<le> 2"
  shows "\<exists>st'. run_command e r u st = exec_command e \<lparr>c_tid = transID cm, c_cmd = userCmd cm,
        c_args = args_of (comm cm), c_sock = webServerSock cm, c_returned = r, c_user = u\<rparr> st' \<and>
      server_ok st' \<and> contents (commList (usr st' u)) = cs \<and> (\<forall>v. account_of st' v = account_of st v) \<and>
      server_ok (run_command e r u st)"
proof -
  let ?c = "\<lparr>c_tid = transID cm, c_cmd = userCmd cm, c_args = args_of (comm cm),
      c_sock = webServerSock cm, c_returned = r, c_user = u\<rparr>"
  obtain st' where st': "run_command e r u st = exec_command e ?c st'"
      "server_ok st'" "u_fresh st' = u_fresh st" "contents (commList (usr st' u)) = cs"
      "\<And>v. account_of st' v = account_of st v" "replies st' = replies st"
    by (rule run_command_pops [OF assms, of e r]) (assumption | blast)+
  have "c_user ?c < u_fresh st'" using assms(2) st'(3) by simp
  from exec_command_safely [OF st'(2) this, of e] have "server_ok (run_command e r u st)"
    by (simp add: st'(1) safely_def)
  with st' show ?thesis by blast
qed

definition sample_queued :: server where
  "sample_queued = (upd_user 0 (\<lambda>x. x\<lparr>commList := snd (enq queue_init
     \<lparr>comm = Some ''ABC,10.00'', webServerSock = 3, transID = ''8'', userCmd = ''BUY''\<rparr>)\<rparr>) sample_server)\<lparr>avail := 1\<rparr>"

lemma sample_queued:
  "server_ok sample_queued" "0 < u_fresh sample_queued"
  "contents (commList (usr sample_queued 0)) =
     [\<lparr>comm = Some ''ABC,10.00'', webServerSock = 3, transID = ''8'', userCmd = ''BUY''\<rparr>]"
proof -
  let ?v = "\<lparr>comm = Some ''ABC,10.00'', webServerSock = 3, transID = ''8'', userCmd = ''BUY''\<rparr>"
  let ?q = "snd (enq queue_init ?v)"
  have i: "queue_inv (queue_init :: command queue)" "contents (queue_init :: command queue) = []"
    using queue_inv_init by blast+
  have q: "queue_inv ?q" "contents ?q = [?v]"
    using queue_inv_enq [OF i(1), of ?v] i(2) by (metis append_Nil)+
  show "server_ok sample_queued"
    unfolding sample_queued_def using sample_ok q(1) by (intro ok_commList) simp_all
  show "0 < u_fresh sample_queued" "contents (commList (usr sample_queued 0)) = [?v]"
    unfolding sample_queued_def using q(2) by (simp_all add: sample_ok(2))
qed

lemma queued_command_runs_witness:
  "\<exists>st'. run_command sample_env 0 0 sample_queued = exec_command sample_env \<lparr>c_tid = ''8'', c_cmd = ''BUY'',
        c_args = [''ABC'', ''10.00''], c_sock = 3, c_returned = 0, c_user = 0\<rparr> st' \<and>
      server_ok st' \<and> contents (commList (usr st' 0)) = [] \<and> (\<forall>v. account_of st' v = account_of sample_queued v) \<and>
      server_ok (run_command sample_env 0 0 sample_queued)"
proof -
  have "args_of (Some ''ABC,10.00'') = [''ABC'', ''10.00'']" by code_simp
  then show ?thesis
    using queued_command_runs [OF sample_queued(1-3), of sample_env 0] by (simp add: NUL_def)
qed

text \<open>A message of two fields starting with WSC, as the first message of a connection, makes
  the connection thread dereference the NULL in a cell of \<open>message\<close> the message did not set.\<close>

theorem short_message_faults:
  "fault (snd (connection_message e sock ''WSC|5'' conn_init st))"
proof -
  define cn where "cn = \<lparr>clientMessage = ''WSC'' @ NUL # ''5'' @ replicate 195 NUL, message = [Some 0, Some 4, None, None, None]\<rparr>"
  have "recv_message ''WSC|5'' conn_init = Some \<lparr>clientMessage = ''WSC|5'' @ replicate 195 NUL, message = replicate 5 None\<rparr>"
    by code_simp
  moreover have "split_message \<lparr>clientMessage = ''WSC|5'' @ replicate 195 NUL, message = replicate 5 None\<rparr> = Some (cn, 2)"
    unfolding cn_def by code_simp
  moreover have "cell_text cn 0 = Some ''WSC''" unfolding cn_def by code_simp
  moreover have "workload_command e sock cn x = (cn, crash x)" for x
  proof -
    have cut: "cut_at (\<lambda>s. delimSepMaxDelim s (CHR '','') 1) (clientMessage cn) (Option.bind (nth_opt (message cn) 3) id) =
        (clientMessage cn, [])"
      by (simp add: cut_at_def cn_def nth_opt_def)
    have st: "store_from 3 [] (message cn) = Some (message cn)" by (simp add: store_from_def cn_def)
    have c2: "cell_text \<lparr>clientMessage = clientMessage cn, message = message cn\<rparr> 2 = None"
      by (simp add: cell_text_def cn_def nth_opt_def)
    show ?thesis
      unfolding workload_command_def cut prod.case st option.case Let_def c2 by (simp split: option.split)
  qed
  ultimately show ?thesis by (simp add: connection_message_def internal_command_def Let_def)
qed

end
