(* ===== verification/Scheduling.thy ===== *)
theory Scheduling
  imports Connection
begin

text \<open>
  How a command thread finds its next command (\<open>command_handler\<close> before the dispatch): it goes to
  the next user of the ring, waits for the semaphore \<open>avail\<close>, and walks the ring until it locks a
  user whose queue is not empty. \<open>busy k\<close> is the outcome of attempt \<open>k\<close> on a user's mutex.
\<close>

definition has_work :: "server \<Rightarrow> addr \<Rightarrow> bool" where
  "has_work st u \<longleftrightarrow> q_length (commList (usr st u)) \<noteq> 0"

fun find_work :: "nat \<Rightarrow> (nat \<Rightarrow> bool) \<Rightarrow> nat \<Rightarrow> server \<Rightarrow> addr \<Rightarrow> (addr \<times> nat) option" where
  "find_work 0 busy k st u = None"
| "find_work (Suc fuel) busy k st u =
     (if busy k then find_work fuel busy (Suc k) st (r_next (u_ring st) u)
      else if \<not> has_work st u then find_work fuel busy (Suc k) st (r_next (u_ring st) u)
      else Some (u, Suc k))"

text \<open>
  One round of the loop: \<open>None\<close> while the semaphore is 0 or when the fuel of the walk is spent;
  otherwise the user served, the state after the command, and the attempts made so far.
\<close>

definition command_turn ::
  "env \<Rightarrow> nat \<Rightarrow> (nat \<Rightarrow> bool) \<Rightarrow> nat \<Rightarrow> nat \<Rightarrow> addr \<Rightarrow> server \<Rightarrow> (addr \<times> server \<times> nat) option" where
  "command_turn e fuel busy k returned cUser st =
     (let cUser = r_next (u_ring st) cUser
      in if avail st = 0 then None
         else
           (let st = st\<lparr>avail := avail st - 1\<rparr>
            in map_option (\<lambda>(u, k). (u, run_command e returned u st, k)) (find_work fuel busy k st cUser)))"

section \<open>The walk\<close>

lemma linked_nth: "linked nx pv xs \<Longrightarrow> Suc i < length xs \<Longrightarrow> nx (xs ! i) = xs ! Suc i"
  by (induction nx pv xs arbitrary: i rule: linked.induct) (auto simp: nth_Cons split: nat.splits)

lemma users_next:
  assumes "server_ok st" "u < u_fresh st"
  shows "r_next (u_ring st) u = Suc u mod u_fresh st"
proof -
  let ?n = "u_fresh st"
  have n: "[0..<?n] \<noteq> []" using assms(2) by simp
  have "ring_list (u_ring st) [0..<?n]" using assms(1) by (simp add: server_ok_def users_ok_def)
  then have "linked (r_next (u_ring st)) (r_prev (u_ring st)) ([0..<?n] @ [0])"
    using n assms(2) by (simp add: ring_list_def)
  from linked_nth [OF this, of u] show ?thesis
    using assms(2) by (cases "Suc u = ?n") (simp_all add: nth_append)
qed

lemma find_work_first:
  assumes ok: "server_ok st" and u: "u < u_fresh st" and j: "j < fuel" "\<not> busy (k + j)"
    and work: "has_work st ((u + j) mod u_fresh st)"
    and skip: "\<forall>i < j. busy (k + i) \<or> \<not> has_work st ((u + i) mod u_fresh st)"
  shows "find_work fuel busy k st u = Some ((u + j) mod u_fresh st, Suc (k + j))"
  using u j work skip
proof (induction fuel arbitrary: k u j)
  case 0
  then show ?case by simp
next
  case (Suc fuel)
  show ?case
  proof (cases j)
    case 0
    with Suc.prems show ?thesis by simp
  next
    case (Suc i)
    let ?v = "Suc u mod u_fresh st"
    have step: "(?v + m) mod u_fresh st = (u + Suc m) mod u_fresh st" for m by (simp add: mod_simps)
    have "busy k \<or> \<not> has_work st u" using Suc.prems(5) [rule_format, of 0] Suc Suc.prems(1) by simp
    then have "find_work (Suc fuel) busy k st u = find_work fuel busy (Suc k) st ?v"
      by (auto simp: users_next [OF ok Suc.prems(1)])
    also have "\<dots> = Some ((?v + i) mod u_fresh st, Suc (Suc k + i))"
    proof (rule Suc.IH)
      show "\<forall>m < i. busy (Suc k + m) \<or> \<not> has_work st ((?v + m) mod u_fresh st)"
        using Suc.prems(5) [rule_format, of "Suc m" for m] Suc unfolding step by simp
      show "has_work st ((?v + i) mod u_fresh st)" using Suc.prems(4) Suc unfolding step by simp
    qed (use Suc.prems Suc in simp_all)
    also have "\<dots> = Some ((u + j) mod u_fresh st, Suc (k + j))" unfolding step using Suc by simp
    finally show ?thesis .
  qed
qed

lemma has_work_contents:
  assumes "server_ok st" "u < u_fresh st"
  shows "has_work st u \<longleftrightarrow> contents (commList (usr st u)) \<noteq> []"
proof -
  have "queue_inv (commList (usr st u))" using ok_user_wf [OF assms] by (simp add: user_wf_def)
  then show ?thesis by (auto simp: has_work_def elim!: queue_inv_contents simp flip: length_greater_0_conv)
qed

text \<open>C22: A command thread whose cursor is at user \<open>u\<close> serves the first user after \<open>u\<close> in the ring whose
  mutex it gets and whose queue is not empty, skipping the others in ring order, at most one lap
  when no mutex is taken; the server is well formed afterwards and one unit of \<open>avail\<close> is used.\<close>

theorem scheduler_serves:
  assumes "server_ok st" "u < u_fresh st" "0 < avail st" "j < fuel" "\<not> busy (k + j)"
    "contents (commList (usr st ((u + Suc j) mod u_fresh st))) = cm # cs"
    "\<forall>i < j. busy (k + i) \<or> contents (commList (usr st ((u + Suc i) mod u_fresh st))) = []"
    "\<And>a. comm cm = Some a \<Longrightarrow> is_cstr a" "length (args_of (comm cm)) \<le> 2"
  shows "\<exists>st'. command_turn e fuel busy k r u st = Some ((u + Suc j) mod u_fresh st,
        exec_command e \<lparr>c_tid = transID cm, c_cmd = userCmd cm, c_args = args_of (comm cm),
          c_sock = webServerSock cm, c_returned = r, c_user = (u + Suc j) mod u_fresh st\<rparr> st', Suc (k + j)) \<and>
      server_ok st' \<and> contents (commList (usr st' ((u + Suc j) mod u_fresh st))) = cs \<and>
      (\<forall>v. account_of st' v = account_of st v)"
proof -
  let ?st = "st\<lparr>avail := avail st - 1\<rparr>" and ?n = "u_fresh st"
  let ?v = "(u + Suc j) mod ?n" and ?w = "Suc u mod ?n"
  have ok: "server_ok ?st"
    using server_ok_cong [OF assms(1)] server_ok_logs [OF assms(1)] server_ok_fault [OF assms(1)] by simp
  have n: "0 < ?n" using assms(2) by simp
  have step: "(?w + m) mod ?n = (u + Suc m) mod ?n" for m by (simp add: mod_simps)
  have w: "has_work ?st ((u + Suc m) mod ?n) \<longleftrightarrow> contents (commList (usr st ((u + Suc m) mod ?n))) \<noteq> []" for m
    using has_work_contents [OF ok, of "(u + Suc m) mod ?n"] n by simp
  have "find_work fuel busy k ?st ?w = Some ((?w + j) mod u_fresh ?st, Suc (k + j))"
  proof (rule find_work_first [OF ok])
    show "has_work ?st ((?w + j) mod u_fresh ?st)" using assms(6) w [of j] by (simp add: step)
    show "\<forall>i < j. busy (k + i) \<or> \<not> has_work ?st ((?w + i) mod u_fresh ?st)"
      using assms(7) w by (simp add: step)
  qed (use assms n in simp_all)
  then have f: "find_work fuel busy k ?st ?w = Some (?v, Suc (k + j))" by (simp add: step)
  have v: "?v < u_fresh ?st" "contents (commList (usr ?st ?v)) = cm # cs" using assms(6) n by simp_all
  obtain st' where st': "run_command e r ?v ?st = exec_command e \<lparr>c_tid = transID cm, c_cmd = userCmd cm,
        c_args = args_of (comm cm), c_sock = webServerSock cm, c_returned = r, c_user = ?v\<rparr> st'"
      "server_ok st'" "u_fresh st' = u_fresh ?st" "contents (commList (usr st' ?v)) = cs"
      "\<And>u. account_of st' u = account_of ?st u" "replies st' = replies ?st"
    by (rule run_command_pops [OF ok v assms(8,9), of e r]) (assumption | blast)+
  have "account_of st' u = account_of st u" for u using st'(5) by (simp add: account_of_def pending_of_def)
  moreover have "command_turn e fuel busy k r u st = Some (?v, run_command e r ?v ?st, Suc (k + j))"
    unfolding command_turn_def Let_def users_next [OF assms(1,2)] f using assms(3) by simp
  ultimately show ?thesis using st'(1,2,4) by metis
qed

lemma scheduler_serves_witness:
  "\<exists>st'. command_turn sample_env 2 (\<lambda>k. k = 0) 0 5 0 sample_queued = Some (0,
        exec_command sample_env \<lparr>c_tid = ''8'', c_cmd = ''BUY'', c_args = [''ABC'', ''10.00''],
          c_sock = 3, c_returned = 5, c_user = 0\<rparr> st', 2) \<and>
      server_ok st' \<and> contents (commList (usr st' 0)) = [] \<and> (\<forall>v. account_of st' v = account_of sample_queued v)"
proof -
  have a: "args_of (Some ''ABC,10.00'') = [''ABC'', ''10.00'']" by code_simp
  have n: "u_fresh sample_queued = 1" "avail sample_queued = 1" by (simp_all add: sample_queued_def sample_ok(2))
  show ?thesis
    using scheduler_serves [of sample_queued 0 1 2 "\<lambda>k. k = 0" 0 _ "[]" sample_env 5, OF sample_queued(1,2), unfolded n,
        simplified, OF sample_queued(3)] a
    by (simp add: NUL_def numeral_2_eq_2)
qed

end
