(* ===== verification/Handshake.thy ===== *)
theory Handshake
  imports Prelude
begin

text \<open>
  The two handshakes between a thread that queues a request and the thread that serves it, as
  interleaved step relations over the shared queue element: the database handshake
  (\<open>dbenq\<close> \<dots> \<open>sem_wait(destReturned)\<close> \<dots> \<open>sem_post(srcReturned)\<close> against \<open>dbWrite_handler\<close>
  and \<open>dbRead_handler\<close>) and the quote handshake (\<open>qenq\<close> \<dots> \<open>sem_wait(quoteResp->returned)\<close>
  against \<open>quote_handler\<close>). A use of the element or its result after it was freed sets \<open>misused\<close>.
\<close>

section \<open>The database handshake\<close>

text \<open>The caller: waiting for the answer, using it, done.\<close>

datatype caller = Asking | Using | Finished

text \<open>The database thread: executing, waiting for the caller, clearing the result, freeing, done.\<close>

datatype server_pc = Executing | Answered | Clearing | Freeing | Idle

record db_share =
  caller_at :: caller
  server_at :: server_pc
  dest_sem :: nat
  src_sem :: nat
  element_live :: bool
  result_live :: bool
  misused :: bool

definition db_start :: db_share where
  "db_start = \<lparr>caller_at = Asking, server_at = Executing, dest_sem = 0, src_sem = 0,
     element_live = True, result_live = False, misused = False\<rparr>"

inductive db_step :: "db_share \<Rightarrow> db_share \<Rightarrow> bool" where
  answer: "server_at s = Executing \<Longrightarrow>
    db_step s (s\<lparr>result_live := True, dest_sem := Suc (dest_sem s), server_at := Answered,
                 misused := misused s \<or> \<not> element_live s\<rparr>)"
| wait_dest: "caller_at s = Asking \<Longrightarrow> dest_sem s = Suc n \<Longrightarrow>
    db_step s (s\<lparr>dest_sem := n, caller_at := Using\<rparr>)"
| use_result: "caller_at s = Using \<Longrightarrow>
    db_step s (s\<lparr>misused := misused s \<or> \<not> element_live s \<or> \<not> result_live s\<rparr>)"
| post_src: "caller_at s = Using \<Longrightarrow>
    db_step s (s\<lparr>src_sem := Suc (src_sem s), caller_at := Finished, misused := misused s \<or> \<not> element_live s\<rparr>)"
| wait_src: "server_at s = Answered \<Longrightarrow> src_sem s = Suc n \<Longrightarrow>
    db_step s (s\<lparr>src_sem := n, server_at := Clearing\<rparr>)"
| clear_result: "server_at s = Clearing \<Longrightarrow>
    db_step s (s\<lparr>result_live := False, server_at := Freeing, misused := misused s \<or> \<not> result_live s\<rparr>)"
| free_element: "server_at s = Freeing \<Longrightarrow>
    db_step s (s\<lparr>element_live := False, server_at := Idle, misused := misused s \<or> \<not> element_live s\<rparr>)"

inductive db_reachable :: "db_share \<Rightarrow> bool" where
  start: "db_reachable db_start"
| step: "db_reachable s \<Longrightarrow> db_step s s' \<Longrightarrow> db_reachable s'"

text \<open>
  The invariant counts the semaphores by the positions of the two threads: the element and the
  result are released only after the caller has posted.
\<close>

definition db_invariant :: "db_share \<Rightarrow> bool" where
  "db_invariant s \<longleftrightarrow>
     \<not> misused s \<and>
     (case (caller_at s, server_at s) of
        (Asking, Executing) \<Rightarrow> dest_sem s = 0 \<and> src_sem s = 0 \<and> element_live s
      | (Asking, Answered) \<Rightarrow> dest_sem s = 1 \<and> src_sem s = 0 \<and> element_live s \<and> result_live s
      | (Using, Answered) \<Rightarrow> dest_sem s = 0 \<and> src_sem s = 0 \<and> element_live s \<and> result_live s
      | (Finished, Answered) \<Rightarrow> dest_sem s = 0 \<and> src_sem s = 1 \<and> element_live s \<and> result_live s
      | (Finished, Clearing) \<Rightarrow> dest_sem s = 0 \<and> src_sem s = 0 \<and> element_live s \<and> result_live s
      | (Finished, Freeing) \<Rightarrow> dest_sem s = 0 \<and> src_sem s = 0 \<and> element_live s \<and> \<not> result_live s
      | (Finished, Idle) \<Rightarrow> dest_sem s = 0 \<and> src_sem s = 0 \<and> \<not> element_live s \<and> \<not> result_live s
      | _ \<Rightarrow> False)"

lemma db_invariant_step: "db_step s s' \<Longrightarrow> db_invariant s \<Longrightarrow> db_invariant s'"
  by (induction rule: db_step.induct) (simp_all add: db_invariant_def split: caller.splits server_pc.splits)

lemma db_reachable_invariant: "db_reachable s \<Longrightarrow> db_invariant s"
proof (induction rule: db_reachable.induct)
  case start
  show ?case by (simp add: db_start_def db_invariant_def)
next
  case (step s s')
  then show ?case by (blast intro: db_invariant_step)
qed

lemma db_progress:
  assumes "db_invariant s" "\<not> (caller_at s = Finished \<and> server_at s = Idle)"
  shows "\<exists>s'. db_step s s' \<and> s' \<noteq> s"
proof -
  have ex: "db_step s t \<Longrightarrow> t \<noteq> s \<Longrightarrow> ?thesis" for t by blast
  show ?thesis
  proof (cases "server_at s")
    case Executing
    show ?thesis by (rule ex [OF answer [OF Executing]]) (use Executing in \<open>auto dest: arg_cong [of _ _ server_at]\<close>)
  next
    case Answered
    show ?thesis
    proof (cases "caller_at s")
      case Asking
      with Answered assms(1) have d: "dest_sem s = Suc 0" by (simp add: db_invariant_def)
      show ?thesis by (rule ex [OF wait_dest [OF Asking d]]) (use Asking in \<open>auto dest: arg_cong [of _ _ caller_at]\<close>)
    next
      case Using
      show ?thesis by (rule ex [OF post_src [OF Using]]) (use Using in \<open>auto dest: arg_cong [of _ _ caller_at]\<close>)
    next
      case Finished
      with Answered assms(1) have d: "src_sem s = Suc 0" by (simp add: db_invariant_def)
      show ?thesis by (rule ex [OF wait_src [OF Answered d]]) (use Answered in \<open>auto dest: arg_cong [of _ _ server_at]\<close>)
    qed
  next
    case Clearing
    show ?thesis by (rule ex [OF clear_result [OF Clearing]]) (use Clearing in \<open>auto dest: arg_cong [of _ _ server_at]\<close>)
  next
    case Freeing
    show ?thesis by (rule ex [OF free_element [OF Freeing]]) (use Freeing in \<open>auto dest: arg_cong [of _ _ server_at]\<close>)
  next
    case Idle
    with assms show ?thesis by (auto simp: db_invariant_def split: caller.splits)
  qed
qed

text \<open>C31: In no interleaving of a caller with the database thread is the queue element or the
  result used after it was released, and as long as the exchange is not over one of the two
  threads can take a step that changes the state: the handshake does not deadlock.\<close>

theorem db_handshake_safe:
  assumes "db_reachable s"
  shows "\<not> misused s \<and> ((caller_at s = Finished \<and> server_at s = Idle) \<or> (\<exists>s'. db_step s s' \<and> s' \<noteq> s))"
  using db_reachable_invariant [OF assms] db_progress [of s] by (auto simp: db_invariant_def)

lemma db_handshake_safe_witness:
  "\<not> misused db_start \<and> ((caller_at db_start = Finished \<and> server_at db_start = Idle) \<or>
     (\<exists>s'. db_step db_start s' \<and> s' \<noteq> db_start))"
  by (rule db_handshake_safe [OF start])

section \<open>The quote handshake\<close>

text \<open>The caller reads \<open>returned\<close> from the element, then waits on it; the quote thread posts, then frees.\<close>

datatype quote_caller = Queued | Waits | Woken
datatype quote_server = Serving | Posted | Freed

record quote_share =
  q_caller :: quote_caller
  q_server :: quote_server
  returned_sem :: nat
  q_live :: bool
  q_misused :: bool

definition quote_start :: quote_share where
  "quote_start = \<lparr>q_caller = Queued, q_server = Serving, returned_sem = 0, q_live = True, q_misused = False\<rparr>"

inductive quote_step :: "quote_share \<Rightarrow> quote_share \<Rightarrow> bool" where
  load_returned: "q_caller s = Queued \<Longrightarrow>
    quote_step s (s\<lparr>q_caller := Waits, q_misused := q_misused s \<or> \<not> q_live s\<rparr>)"
| wait_returned: "q_caller s = Waits \<Longrightarrow> returned_sem s = Suc n \<Longrightarrow>
    quote_step s (s\<lparr>q_caller := Woken, returned_sem := n\<rparr>)"
| post_returned: "q_server s = Serving \<Longrightarrow>
    quote_step s (s\<lparr>q_server := Posted, returned_sem := Suc (returned_sem s), q_misused := q_misused s \<or> \<not> q_live s\<rparr>)"
| free_request: "q_server s = Posted \<Longrightarrow>
    quote_step s (s\<lparr>q_server := Freed, q_live := False, q_misused := q_misused s \<or> \<not> q_live s\<rparr>)"

inductive quote_reachable :: "quote_share \<Rightarrow> bool" where
  quote_begin: "quote_reachable quote_start"
| quote_next: "quote_reachable s \<Longrightarrow> quote_step s s' \<Longrightarrow> quote_reachable s'"

text \<open>C32: The quote handshake has an interleaving in which the requester reads \<open>returned\<close> from an
  element the quote thread has already freed: that thread does not wait for the requester.\<close>

theorem quote_handshake_race: "\<exists>s. quote_reachable s \<and> q_misused s"
proof -
  have "quote_reachable (quote_start\<lparr>q_server := Posted, returned_sem := 1\<rparr>)" (is "quote_reachable ?a")
    using quote_next [OF quote_begin post_returned] by (simp add: quote_start_def)
  then have "quote_reachable (quote_start\<lparr>q_server := Freed, returned_sem := 1, q_live := False\<rparr>)" (is "quote_reachable ?b")
    using quote_next [OF _ free_request, of ?a] by (simp add: quote_start_def)
  then have "quote_reachable (quote_start\<lparr>q_caller := Waits, q_server := Freed, returned_sem := 1, q_live := False, q_misused := True\<rparr>)"
    using quote_next [OF _ load_returned, of ?b] by (simp add: quote_start_def)
  then show ?thesis by (intro exI) (rule conjI, assumption, simp)
qed

end
