(* ===== verification/Database.thy ===== *)
theory Database
  imports C_Queue
begin

text \<open>
  The database threads (\<open>dbWrite_handler\<close> and \<open>dbRead_handler\<close>, the same on their queues): a
  request is executed on the connection of its database until the library reports success, then
  the result goes to the requester. The PostgreSQL library is a stream of outcomes, one per
  iteration of the loop; the endless retry is a loop with fuel. The handshake with the requester
  is the subject of \<open>Handshake\<close>.
\<close>

text \<open>\<open>PQstatus\<close> not OK, \<open>PQexec\<close> with a failure status, or a result.\<close>

datatype 'r pq = No_connection | Exec_failed | Executed 'r

text \<open>The loop on one request; the list has the strings given to \<open>PQexec\<close> with their database.\<close>

fun db_execute ::
  "nat \<Rightarrow> (nat \<Rightarrow> 'r pq) \<Rightarrow> nat \<Rightarrow> db_request \<Rightarrow> (int \<times> string) list \<Rightarrow> ((int \<times> string) list \<times> 'r \<times> nat) option" where
  "db_execute 0 world k r execs = None"
| "db_execute (Suc fuel) world k r execs =
     (case world k of
        No_connection \<Rightarrow> db_execute fuel world (Suc k) r execs
      | Exec_failed \<Rightarrow> db_execute fuel world (Suc k) r (execs @ [(req_dbID r, request r)])
      | Executed res \<Rightarrow> Some (execs @ [(req_dbID r, request r)], res, Suc k))"

text \<open>
  A request taken from the queue: waiting on an empty queue, a NULL element or a database number
  outside the array \<open>db\<close>, still retrying, or answered through the semaphore \<open>destReturned\<close> and
  then freed.
\<close>

datatype 'r db_outcome = Db_blocked | Db_fault | Db_retrying | Db_answered nat 'r

definition db_round ::
  "nat \<Rightarrow> (nat \<Rightarrow> 'r pq) \<Rightarrow> nat \<Rightarrow> db_request queue \<Rightarrow> (int \<times> string) list \<Rightarrow>
   'r db_outcome \<times> db_request queue \<times> (int \<times> string) list \<times> nat" where
  "db_round fuel world k q execs =
     (case dbdeq q of
        (Blocked, q) \<Rightarrow> (Db_blocked, q, execs, k)
      | (Null, q) \<Rightarrow> (Db_fault, q, execs, k)
      | (Got a r, q) \<Rightarrow>
          if req_dbID r < 0 \<or> NUM_DB \<le> req_dbID r then (Db_fault, q, execs, k)
          else
            (case db_execute fuel world k r execs of
               None \<Rightarrow> (Db_retrying, q, execs, k)
             | Some (execs, res, k) \<Rightarrow> (Db_answered (destReturned r) res, free_cell a q, execs, k)))"

text \<open>The thread on its queue, at most \<open>n\<close> requests; the answers in order.\<close>

fun db_thread ::
  "nat \<Rightarrow> nat \<Rightarrow> (nat \<Rightarrow> 'r pq) \<Rightarrow> nat \<Rightarrow> db_request queue \<Rightarrow> (int \<times> string) list \<Rightarrow>
   (nat \<times> 'r) list \<times> db_request queue \<times> (int \<times> string) list \<times> nat" where
  "db_thread 0 fuel world k q execs = ([], q, execs, k)"
| "db_thread (Suc n) fuel world k q execs =
     (case db_round fuel world k q execs of
        (Db_answered dest res, q, execs, k) \<Rightarrow>
          (case db_thread n fuel world k q execs of (answers, rest) \<Rightarrow> ((dest, res) # answers, rest))
      | (_, rest) \<Rightarrow> ([], rest))"

section \<open>Execution\<close>

definition succeeds :: "'r pq \<Rightarrow> bool" where
  "succeeds w \<longleftrightarrow> (\<exists>r. w = Executed r)"

lemma db_execute_first:
  assumes "j < fuel" "world (k + j) = Executed res" "\<forall>i < j. \<not> succeeds (world (k + i))"
  shows "\<exists>m \<le> j. db_execute fuel world k r execs =
    Some (execs @ replicate (Suc m) (req_dbID r, request r), res, Suc (k + j))"
  using assms
proof (induction fuel arbitrary: k j execs)
  case 0
  then show ?case by simp
next
  case (Suc fuel)
  show ?case
  proof (cases j)
    case 0
    with Suc.prems show ?thesis by simp
  next
    case (Suc i)
    have "\<forall>x < i. \<not> succeeds (world (Suc k + x))"
    proof (intro allI impI)
      fix x assume "x < i"
      then show "\<not> succeeds (world (Suc k + x))" using Suc.prems(3) [rule_format, of "Suc x"] Suc by simp
    qed
    then have IH: "\<exists>m \<le> i. db_execute fuel world (Suc k) r ex =
        Some (ex @ replicate (Suc m) (req_dbID r, request r), res, Suc (Suc k + i))" for ex
      using Suc.IH [of i "Suc k" ex] Suc.prems(1,2) Suc by simp
    consider "world k = No_connection" | "world k = Exec_failed"
      using Suc.prems(3) [rule_format, of 0] Suc by (cases "world k") (auto simp: succeeds_def)
    then show ?thesis
    proof cases
      case 1
      with IH [of execs] Suc show ?thesis by (auto intro: le_SucI)
    next
      case 2
      from IH [of "execs @ [(req_dbID r, request r)]"] obtain m where "m \<le> i"
          "db_execute fuel world (Suc k) r (execs @ [(req_dbID r, request r)]) =
            Some ((execs @ [(req_dbID r, request r)]) @ replicate (Suc m) (req_dbID r, request r), res, Suc (Suc k + i))"
        by blast
      with 2 Suc show ?thesis by (intro exI [of _ "Suc m"]) simp
    qed
  qed
qed

lemma first_success:
  fixes fuel k :: nat
  assumes "\<exists>j < fuel. succeeds (world (k + j))"
  obtains j res where "j < fuel" "world (k + j) = Executed res" "\<forall>i < j. \<not> succeeds (world (k + i))"
proof -
  let ?j = "LEAST j. succeeds (world (k + j))"
  obtain j0 where j0: "j0 < fuel" "succeeds (world (k + j0))" using assms by blast
  have "succeeds (world (k + ?j))" using LeastI [of "\<lambda>j. succeeds (world (k + j))" j0] j0(2) by blast
  moreover have "?j \<le> j0" using Least_le [of "\<lambda>j. succeeds (world (k + j))" j0] j0(2) by blast
  moreover have "\<not> succeeds (world (k + i))" if "i < ?j" for i using not_less_Least [OF that] .
  ultimately show thesis using that j0(1) by (metis le_less_trans succeeds_def)
qed

text \<open>The requests of a queue one after the other, each executed at least once on its own database.\<close>

fun executed_in_order :: "db_request list \<Rightarrow> (int \<times> string) list \<Rightarrow> bool" where
  "executed_in_order [] ex \<longleftrightarrow> ex = []"
| "executed_in_order (r # rs) ex \<longleftrightarrow>
     (\<exists>m rest. ex = replicate (Suc m) (req_dbID r, request r) @ rest \<and> executed_in_order rs rest)"

lemma db_thread_serves:
  assumes "\<forall>k. \<exists>j < fuel. succeeds (world (k + j))"
    and "queue_inv q" "contents q = rs" "\<forall>r \<in> set rs. 0 \<le> req_dbID r \<and> req_dbID r < NUM_DB"
  shows "\<exists>answers q' ex k'. db_thread (length rs) fuel world k q execs = (answers, q', execs @ ex, k') \<and>
    map fst answers = map destReturned rs \<and> queue_inv q' \<and> contents q' = [] \<and> executed_in_order rs ex \<and>
    k' \<le> k + fuel * length rs"
  using assms(2-)
proof (induction rs arbitrary: q k execs)
  case Nil
  then show ?case by simp
next
  case (Cons r rs)
  obtain a q1 where d: "deq False q = (Got a r, q1)" "queue_inv (free_cell a q1)" "contents (free_cell a q1) = rs"
    by (rule deq_free [OF Cons.prems(1,2)])
  obtain j res where j: "j < fuel" "world (k + j) = Executed res" "\<forall>i < j. \<not> succeeds (world (k + i))"
    by (rule first_success [OF assms(1) [rule_format, of k]])
  obtain m where x: "db_execute fuel world k r execs =
      Some (execs @ replicate (Suc m) (req_dbID r, request r), res, Suc (k + j))"
    using db_execute_first [where world = world and k = k, OF j] by blast
  have rd: "db_round fuel world k q execs =
      (Db_answered (destReturned r) res, free_cell a q1, execs @ replicate (Suc m) (req_dbID r, request r), Suc (k + j))"
    using Cons.prems(3) by (simp add: db_round_def dbdeq_def d(1) x del: replicate_Suc)
  have range: "\<forall>r \<in> set rs. 0 \<le> req_dbID r \<and> req_dbID r < NUM_DB" using Cons.prems(3) by simp
  obtain answers q' ex k' where r: "db_thread (length rs) fuel world (Suc (k + j)) (free_cell a q1)
        (execs @ replicate (Suc m) (req_dbID r, request r)) =
      (answers, q', (execs @ replicate (Suc m) (req_dbID r, request r)) @ ex, k')"
      "map fst answers = map destReturned rs" "queue_inv q'" "contents q' = []" "executed_in_order rs ex"
      "k' \<le> Suc (k + j) + fuel * length rs"
    using Cons.IH [OF d(2,3) range, of "Suc (k + j)" "execs @ replicate (Suc m) (req_dbID r, request r)"] by blast
  let ?ex = "replicate (Suc m) (req_dbID r, request r) @ ex"
  have a: "db_thread (length (r # rs)) fuel world k q execs =
      ((destReturned r, res) # answers, q', execs @ ?ex, k')"
    using r(1) by (simp add: rd del: replicate_Suc)
  have o1: "executed_in_order (r # rs) ?ex" using r(5) by auto
  have o2: "k' \<le> k + fuel * length (r # rs)" using r(6) j(1) by simp
  have o3: "map fst ((destReturned r, res) # answers) = map destReturned (r # rs)" using r(2) by simp
  show ?case
    by (rule exI [of _ "(destReturned r, res) # answers"], rule exI [of _ q'], rule exI [of _ ?ex], rule exI [of _ k'])
      (intro conjI a o1 o2 o3 r(3,4))
qed

text \<open>C30: If the library executes a statement within any \<open>fuel\<close> iterations, a database thread answers
  the queued requests exactly once each and in order, having executed each at least once, on the
  database it names and on no other, and before the next one.\<close>

theorem requests_executed:
  assumes "\<forall>k. \<exists>j < fuel. succeeds (world (k + j))"
    and "queue_inv q" "contents q = rs" "\<forall>r \<in> set rs. 0 \<le> req_dbID r \<and> req_dbID r < NUM_DB"
  shows "\<exists>answers q' ex k'. db_thread (length rs) fuel world k q execs = (answers, q', execs @ ex, k') \<and>
    map fst answers = map destReturned rs \<and> queue_inv q' \<and> contents q' = [] \<and> executed_in_order rs ex \<and>
    k' \<le> k + fuel * length rs"
  by (rule db_thread_serves [OF assms])

lemma requests_executed_witness:
  "\<exists>answers q' ex k'.
    db_thread (length [\<lparr>request = ''SELECT 1;'', db_transID = ''7'', db_userCmd = ''ADD'', req_dbID = userSort (Some ''Ab''), destReturned = 4\<rparr>])
      2 (\<lambda>k. if even k then Exec_failed else Executed ()) 0
      (snd (dbenq queue_init ''SELECT 1;'' ''7'' ''ADD'' 4 (userSort (Some ''Ab'')))) [] = (answers, q', [] @ ex, k') \<and>
    map fst answers = map destReturned
      [\<lparr>request = ''SELECT 1;'', db_transID = ''7'', db_userCmd = ''ADD'', req_dbID = userSort (Some ''Ab''), destReturned = 4\<rparr>] \<and>
    queue_inv q' \<and> contents q' = [] \<and>
    executed_in_order [\<lparr>request = ''SELECT 1;'', db_transID = ''7'', db_userCmd = ''ADD'', req_dbID = userSort (Some ''Ab''), destReturned = 4\<rparr>] ex \<and>
    k' \<le> 0 + 2 * length [\<lparr>request = ''SELECT 1;'', db_transID = ''7'', db_userCmd = ''ADD'', req_dbID = userSort (Some ''Ab''), destReturned = 4\<rparr>]"
proof (rule requests_executed)
  have i: "queue_inv (queue_init :: db_request queue)" "contents (queue_init :: db_request queue) = []"
    using queue_inv_init by blast+
  let ?q = "snd (dbenq queue_init ''SELECT 1;'' ''7'' ''ADD'' 4 (userSort (Some ''Ab'')))"
  show "queue_inv ?q" "contents ?q =
      [\<lparr>request = ''SELECT 1;'', db_transID = ''7'', db_userCmd = ''ADD'', req_dbID = userSort (Some ''Ab''), destReturned = 4\<rparr>]"
    using queue_inv_enq [OF i(1)] i(2) by (simp_all add: dbenq_def)
  show "\<forall>r \<in> set [\<lparr>request = ''SELECT 1;'', db_transID = ''7'', db_userCmd = ''ADD'', req_dbID = userSort (Some ''Ab''), destReturned = 4\<rparr>].
      0 \<le> req_dbID r \<and> req_dbID r < NUM_DB"
    using userSort_range [of "''Ab''"] by simp
  show "\<forall>k :: nat. \<exists>j < 2. succeeds (if even (k + j) then Exec_failed else Executed ())"
  proof
    fix k :: nat
    show "\<exists>j < 2. succeeds (if even (k + j) then Exec_failed else Executed ())"
      by (rule exI [of _ "if even k then 1 else 0"]) (simp add: succeeds_def)
  qed
qed

end
