(* ===== verification/Network.thy ===== *)
theory Network
  imports C_Queue C_Buffer
begin

text \<open>
  The network as the client threads see it, a stream of attempts, and the thread that sends the
  log lines of a server to the log server (\<open>log_handler\<close>, the same in \<open>transServer.c\<close> and
  \<open>loadBalancer.c\<close>): it takes the lines from the log queue one by one and repeats each until
  the log server has acknowledged it.
\<close>

section \<open>Attempts\<close>

text \<open>\<open>getaddrinfo\<close>, \<open>socket\<close> and \<open>connect\<close>; \<open>answer\<close> is what \<open>recv\<close> returns, \<open>None\<close> for less than 1.\<close>

datatype reach = No_address | No_socket | Refused | Reached

record attempt =
  reach :: reach
  sent :: bool
  answer :: "string option"

section \<open>The log client\<close>

definition NUM_LOG :: nat where "NUM_LOG = 1"

record log_client =
  log_connected :: "bool list"
  currLOG :: nat
  log_sent :: "(nat \<times> string) list"

definition log_client_init :: log_client where
  "log_client_init = \<lparr>log_connected = replicate NUM_LOG False, currLOG = 0, log_sent = []\<rparr>"

definition log_connect :: "reach \<Rightarrow> log_client \<Rightarrow> log_client \<times> bool" where
  "log_connect r cl =
     (if log_connected cl ! currLOG cl then (cl, True)
      else case r of
        No_address \<Rightarrow> (cl\<lparr>currLOG := (currLOG cl + 1) mod NUM_LOG\<rparr>, False)
      | No_socket \<Rightarrow> (cl, False)
      | Refused \<Rightarrow> (cl, False)
      | Reached \<Rightarrow> (cl\<lparr>log_connected := (log_connected cl)[currLOG cl := True]\<rparr>, True))"

definition log_drop :: "log_client \<Rightarrow> log_client" where
  "log_drop cl = cl\<lparr>log_connected := (log_connected cl)[currLOG cl := False]\<rparr>"

text \<open>One iteration with the line in hand; the flag says whether it was acknowledged.\<close>

definition log_attempt :: "string \<Rightarrow> attempt \<Rightarrow> log_client \<Rightarrow> log_client \<times> bool" where
  "log_attempt line a cl =
     (let (cl, ok) = log_connect (reach a) cl
      in if \<not> ok then (cl, False)
         else if \<not> sent a then (log_drop cl, False)
         else
           (let cl = cl\<lparr>log_sent := log_sent cl @ [(currLOG cl, line)]\<rparr>
            in case answer a of
                 None \<Rightarrow> (log_drop cl, False)
               | Some _ \<Rightarrow> (cl\<lparr>currLOG := (currLOG cl + 1) mod NUM_LOG\<rparr>, True)))"

fun log_deliver :: "nat \<Rightarrow> string \<Rightarrow> (nat \<Rightarrow> attempt) \<Rightarrow> nat \<Rightarrow> log_client \<Rightarrow> (log_client \<times> nat) option" where
  "log_deliver 0 line net k cl = None"
| "log_deliver (Suc fuel) line net k cl =
     (case log_attempt line (net k) cl of
        (cl, done) \<Rightarrow> if done then Some (cl, Suc k) else log_deliver fuel line net (Suc k) cl)"

text \<open>
  The thread on a queue: at most \<open>n\<close> lines, each with the given fuel; the result is the queue,
  the client, the acknowledged lines and the number of attempts made. \<open>None\<close> when the fuel of a
  line is spent or a dequeue returns NULL, which \<open>strlen\<close> would dereference.
\<close>

fun log_thread ::
  "nat \<Rightarrow> nat \<Rightarrow> (nat \<Rightarrow> attempt) \<Rightarrow> nat \<Rightarrow> string queue \<Rightarrow> log_client \<Rightarrow> (string queue \<times> log_client \<times> string list \<times> nat) option" where
  "log_thread 0 fuel net k lq cl = Some (lq, cl, [], k)"
| "log_thread (Suc n) fuel net k lq cl =
     (case ldeq lq of
        (Blocked, lq) \<Rightarrow> Some (lq, cl, [], k)
      | (Null, lq) \<Rightarrow> None
      | (Got a line, lq) \<Rightarrow>
          (case log_deliver fuel line net k cl of
             None \<Rightarrow> None
           | Some (cl, k) \<Rightarrow>
               map_option (\<lambda>(lq, cl, acked, k). (lq, cl, line # acked, k)) (log_thread n fuel net k lq cl)))"

section \<open>Delivery\<close>

definition good_attempt :: "attempt \<Rightarrow> bool" where
  "good_attempt a \<longleftrightarrow> reach a = Reached \<and> sent a \<and> answer a \<noteq> None"

definition log_client_ok :: "log_client \<Rightarrow> bool" where
  "log_client_ok cl \<longleftrightarrow> length (log_connected cl) = NUM_LOG \<and> currLOG cl < NUM_LOG"

lemma log_attempt_ok:
  assumes "log_client_ok cl" "log_attempt line a cl = (cl', done)"
  shows "log_client_ok cl'" "good_attempt a \<Longrightarrow> done"
    "log_sent cl' = log_sent cl @ replicate (length (log_sent cl') - length (log_sent cl)) (0, line)"
    "length (log_sent cl') \<le> Suc (length (log_sent cl))" "done \<Longrightarrow> length (log_sent cl') = Suc (length (log_sent cl))"
  using assms
  by (auto simp: log_attempt_def log_connect_def log_drop_def log_client_ok_def NUM_LOG_def good_attempt_def Let_def
      split: if_splits reach.splits option.splits)

text \<open>With a good attempt among the next \<open>fuel\<close> ones the line is delivered, after some repetitions.\<close>

lemma log_deliver_ok:
  assumes "log_client_ok cl" "j < fuel" "good_attempt (net (k + j))"
  obtains cl' m where "log_deliver fuel line net k cl = Some (cl', k + Suc m)" "m \<le> j" "log_client_ok cl'"
    "\<exists>c \<le> m. log_sent cl' = log_sent cl @ replicate (Suc c) (0, line)"
  using assms
proof (induction fuel arbitrary: k cl j thesis)
  case 0
  then show ?case by simp
next
  case (Suc fuel)
  obtain cl1 fin where a: "log_attempt line (net k) cl = (cl1, fin)" by force
  note l = log_attempt_ok [OF Suc.prems(2) a]
  show ?case
  proof (cases fin)
    case True
    then show ?thesis using Suc.prems(1) [of cl1 0] a l(1,3,5) by auto
  next
    case False
    then have "j \<noteq> 0" using l(2) Suc.prems(4) by (cases j) auto
    then obtain i where j: "j = Suc i" by (cases j) auto
    have g: "i < fuel" "good_attempt (net (Suc k + i))" using Suc.prems(3,4) j by simp_all
    obtain cl' m c where r: "log_deliver fuel line net (Suc k) cl1 = Some (cl', Suc k + Suc m)" "m \<le> i" "log_client_ok cl'"
        "c \<le> m" "log_sent cl' = log_sent cl1 @ replicate (Suc c) (0, line)"
      using Suc.IH [OF _ l(1) g] by metis
    obtain x where x: "x \<le> 1" "log_sent cl1 = log_sent cl @ replicate x (0, line)"
      using l(3,4) by (intro that [of "length (log_sent cl1) - length (log_sent cl)"]) auto
    have "log_sent cl' = log_sent cl @ replicate (Suc (x + c)) (0, line)"
      by (simp only: r(5) x(2) append_assoc replicate_add [symmetric] add_Suc_right)
    with x(1) r(4) have "\<exists>c \<le> Suc m. log_sent cl' = log_sent cl @ replicate (Suc c) (0, line)"
      by (intro exI [of _ "x + c"]) simp
    then show ?thesis using Suc.prems(1) [of cl' "Suc m"] a False r(1-3) j by simp
  qed
qed

text \<open>The lines as they went out: each at least once, in order.\<close>

fun repeated :: "string list \<Rightarrow> (nat \<times> string) list \<Rightarrow> bool" where
  "repeated [] out \<longleftrightarrow> out = []"
| "repeated (l # ls) out \<longleftrightarrow> (\<exists>c rest. out = replicate (Suc c) (0, l) @ rest \<and> repeated ls rest)"

lemma log_thread_delivers:
  assumes "log_client_ok cl" "queue_inv lq" "contents lq = ls" "\<forall>k. \<exists>j < fuel. good_attempt (net (k + j))"
  obtains lq' cl' k' out where "log_thread (length ls) fuel net k lq cl = Some (lq', cl', ls, k')"
    "k' \<le> k + fuel * length ls" "queue_inv lq'" "contents lq' = []" "log_client_ok cl'"
    "log_sent cl' = log_sent cl @ out" "repeated ls out"
  using assms(1-3)
proof (induction ls arbitrary: k lq cl thesis)
  case Nil
  then show ?case using Nil.prems(1) [of lq cl k "[]"] by simp
next
  case (Cons l ls)
  obtain q where q: "ldeq lq = (Got (q_start lq) l, q)" "queue_inv q" "contents q = ls"
    using queue_inv_deq [OF Cons.prems(3,4), of True] unfolding ldeq_def by (metis prod.collapse)
  obtain j where j: "j < fuel" "good_attempt (net (k + j))" using assms(4) by blast
  obtain cl1 m c where d: "log_deliver fuel l net k cl = Some (cl1, k + Suc m)" "m \<le> j" "log_client_ok cl1"
      "log_sent cl1 = log_sent cl @ replicate (Suc c) (0, l)"
    using log_deliver_ok [where net = net and k = k, OF Cons.prems(2) j] by metis
  obtain lq' cl' k' out where r: "log_thread (length ls) fuel net (k + Suc m) q cl1 = Some (lq', cl', ls, k')"
      "k' \<le> k + Suc m + fuel * length ls" "queue_inv lq'" "contents lq' = []" "log_client_ok cl'"
      "log_sent cl' = log_sent cl1 @ out" "repeated ls out"
    using Cons.IH [OF _ d(3) q(2,3)] by metis
  have "repeated (l # ls) (replicate (Suc c) (0, l) @ out)" using r(7) by auto
  moreover have "k' \<le> k + fuel * length (l # ls)" using r(2) d(2) j(1) by simp
  ultimately show ?case
    using Cons.prems(1) [of lq' cl' k' "replicate (Suc c) (0, l) @ out"] r d q(1) by simp
qed

text \<open>C29: If among any \<open>fuel\<close> consecutive attempts one reaches the log server and is answered, the log
  thread delivers all queued lines: each is acknowledged exactly once and in order, with at most
  \<open>fuel\<close> attempts a line, and what went out on the network are these lines in order, some repeated
  (a line whose acknowledgement is lost is sent again).\<close>

theorem logs_delivered:
  assumes "log_client_ok cl" "queue_inv lq" "contents lq = ls" "\<forall>k. \<exists>j < fuel. good_attempt (net (k + j))"
  shows "\<exists>lq' cl' k' out. log_thread (length ls) fuel net k lq cl = Some (lq', cl', ls, k') \<and>
    k' \<le> k + fuel * length ls \<and> queue_inv lq' \<and> contents lq' = [] \<and> log_client_ok cl' \<and>
    log_sent cl' = log_sent cl @ out \<and> repeated ls out"
  using log_thread_delivers [OF assms] by metis

lemma logs_delivered_witness:
  "\<exists>lq' cl' k' out.
    log_thread (length [''a'', ''b'']) 2
      (\<lambda>k. if even k then \<lparr>reach = Reached, sent = True, answer = None\<rparr>
           else \<lparr>reach = Reached, sent = True, answer = Some ''OK''\<rparr>) 0
      (snd (enq (snd (enq queue_init ''a'')) ''b'')) log_client_init = Some (lq', cl', [''a'', ''b''], k') \<and>
    k' \<le> 0 + 2 * length [''a'', ''b''] \<and> queue_inv lq' \<and> contents lq' = [] \<and> log_client_ok cl' \<and>
    log_sent cl' = log_sent log_client_init @ out \<and> repeated [''a'', ''b''] out"
proof (rule logs_delivered)
  show "log_client_ok log_client_init" by (simp add: log_client_ok_def log_client_init_def NUM_LOG_def)
  have i: "queue_inv (queue_init :: string queue)" "contents (queue_init :: string queue) = []"
    using queue_inv_init by blast+
  note a = queue_inv_enq [OF i(1), of "''a''"]
  show "queue_inv (snd (enq (snd (enq queue_init ''a'')) ''b''))"
    "contents (snd (enq (snd (enq queue_init ''a'')) ''b'')) = [''a'', ''b'']"
    using a queue_inv_enq [OF conjunct1 [OF a], of "''b''"] i(2) by simp_all
  show "\<forall>k :: nat. \<exists>j < 2. good_attempt (if even (k + j) then \<lparr>reach = Reached, sent = True, answer = None\<rparr>
      else \<lparr>reach = Reached, sent = True, answer = Some ''OK''\<rparr>)"
  proof
    fix k :: nat
    show "\<exists>j < 2. good_attempt (if even (k + j) then \<lparr>reach = Reached, sent = True, answer = None\<rparr>
        else \<lparr>reach = Reached, sent = True, answer = Some ''OK''\<rparr>)"
      by (rule exI [of _ "if even k then 1 else 0"]) (simp add: good_attempt_def)
  qed
qed

end
