(* ===== verification/Quote_Client.thy ===== *)
theory Quote_Client
  imports Commands Network
begin

text \<open>
  The thread of the transaction server that gets quotes (\<open>quote_handler\<close>): it asks every load
  balancer for a cached quote of the requested stock, then, when none has one, asks the current
  one to fetch it, stores price, time and key in the stock and wakes the requester. The network
  is a stream of attempts, one per exchange with a balancer; the endless retry is a loop with
  fuel. The last lemmas say when a request is served and that an address error on a client that
  is not connected silences it for good.
\<close>

section \<open>The client\<close>

definition NUM_LB :: nat where "NUM_LB = 1"

record lb_client =
  lb_connected :: "bool list"
  currLB :: nat
  noneConnected :: bool
  isCached :: bool
  response :: string
  quoteResponse :: "nat option list"
  lb_out :: "(nat \<times> string) list"

definition lb_init :: "string \<Rightarrow> lb_client" where
  "lb_init buf = \<lparr>lb_connected = replicate NUM_LB False, currLB = 0, noneConnected = False, isCached = False,
     response = buf, quoteResponse = replicate 5 None, lb_out = []\<rparr>"

definition lb_advance :: "lb_client \<Rightarrow> lb_client" where
  "lb_advance cl = cl\<lparr>currLB := (currLB cl + 1) mod NUM_LB\<rparr>"

definition lb_drop :: "nat \<Rightarrow> lb_client \<Rightarrow> lb_client" where
  "lb_drop i cl = cl\<lparr>lb_connected := (lb_connected cl)[i := False]\<rparr>"

definition lb_note :: "nat \<Rightarrow> string \<Rightarrow> lb_client \<Rightarrow> lb_client" where
  "lb_note i msg cl = cl\<lparr>lb_out := lb_out cl @ [(i, msg)]\<rparr>"

text \<open>The request, and the same with \<open>request[1] = 'N'\<close>.\<close>

definition quote_text :: "string \<Rightarrow> string \<Rightarrow> string \<Rightarrow> string \<Rightarrow> string" where
  "quote_text tid cmd sid uid = ''QCR|'' @ tid @ ''|'' @ cmd @ ''|'' @ sid @ '','' @ uid @ [CHR 0x0A]"

definition fetch_text :: "string \<Rightarrow> string" where
  "fetch_text req = req[1 := CHR ''N'']"

text \<open>
  The received bytes overwrite the start of \<open>response\<close> and the string there is cut at its
  commas; \<open>None\<close> when there is no NUL in the buffer or more than five fields.
\<close>

definition read_reply :: "string \<Rightarrow> lb_client \<Rightarrow> (lb_client \<times> nat) option" where
  "read_reply bytes cl =
     (let buf = overwrite (response cl) 0 (take 200 bytes)
      in if NUL \<notin> set buf then None
         else
           (let (buf, ps) = cut_at (\<lambda>s. delimSepNoCpy s (CHR '','')) buf (Some 0)
            in map_option (\<lambda>ptrs. (cl\<lparr>response := buf, quoteResponse := ptrs\<rparr>, length ps))
                 (store_from 0 ps (quoteResponse cl))))"

definition reply_cell :: "lb_client \<Rightarrow> nat \<Rightarrow> string option" where
  "reply_cell cl k = map_option (cstr_at (response cl)) (Option.bind (nth_opt (quoteResponse cl) k) id)"

text \<open>Price, time and key into the stock; the key's block has 57 bytes.\<close>

definition store_quote :: "lb_client \<Rightarrow> stock \<Rightarrow> stock option" where
  "store_quote cl s =
     (case (reply_cell cl 3, reply_cell cl 4) of
        (Some t, Some k) \<Rightarrow>
          if length k < 57
          then Some (s\<lparr>price := str2price (reply_cell cl 0), ts := strtol10 t, quote_key := k\<rparr>)
          else None
      | _ \<Rightarrow> None)"

section \<open>Asking for a cached quote\<close>

definition lb_connect :: "nat \<Rightarrow> reach \<Rightarrow> lb_client \<Rightarrow> lb_client \<times> bool" where
  "lb_connect i r cl =
     (if lb_connected cl ! i then (cl, True)
      else case r of
        No_address \<Rightarrow>
          ((if i = currLB cl then lb_advance cl else cl)\<lparr>noneConnected := \<not> list_ex id (lb_connected cl)\<rparr>, False)
      | No_socket \<Rightarrow> (cl, False)
      | Refused \<Rightarrow> (lb_drop i cl, False)
      | Reached \<Rightarrow> (cl\<lparr>lb_connected := (lb_connected cl)[i := True]\<rparr>, True))"

text \<open>The body of the loop over the balancers; the flag is its \<open>break\<close>.\<close>

definition lb_attempt :: "string \<Rightarrow> nat \<Rightarrow> attempt \<Rightarrow> lb_client \<Rightarrow> stock \<Rightarrow> (lb_client \<times> stock \<times> bool) option" where
  "lb_attempt req i a cl s =
     (let (cl, ok) = lb_connect i (reach a) cl
      in if \<not> ok then Some (cl, s, False)
         else if \<not> sent a then Some (lb_drop i cl, s, False)
         else
           (let cl = lb_note i req cl
            in case answer a of
                 None \<Rightarrow> Some (lb_drop i cl, s, False)
               | Some bytes \<Rightarrow>
                   (case read_reply bytes cl of
                      None \<Rightarrow> None
                    | Some (cl, respLen) \<Rightarrow>
                        if respLen = 5
                        then map_option (\<lambda>s. (cl\<lparr>isCached := True\<rparr>, s, True)) (store_quote cl s)
                        else Some (cl, s, False))))"

fun lb_loop ::
  "string \<Rightarrow> (nat \<Rightarrow> attempt) \<Rightarrow> nat \<Rightarrow> nat list \<Rightarrow> lb_client \<Rightarrow> stock \<Rightarrow> (lb_client \<times> stock \<times> nat) option" where
  "lb_loop req net k [] cl s = Some (cl, s, k)"
| "lb_loop req net k (i # is) cl s =
     (case lb_attempt req i (net k) cl s of
        None \<Rightarrow> None
      | Some (cl, s, found) \<Rightarrow>
          if found then Some (cl, s, Suc k) else lb_loop req net (Suc k) is cl s)"

section \<open>Serving a request\<close>

text \<open>The exchange with the current balancer when no cached quote was found; the flag is success.\<close>

definition lb_fetch :: "string \<Rightarrow> attempt \<Rightarrow> lb_client \<Rightarrow> stock \<Rightarrow> (lb_client \<times> stock \<times> bool) option" where
  "lb_fetch req a cl s =
     (let cl = cl\<lparr>isCached := False\<rparr>
      in if \<not> sent a then Some (lb_drop (currLB cl) cl, s, False)
         else
           (let cl = lb_note (currLB cl) (fetch_text req) cl
            in case answer a of
                 None \<Rightarrow> Some (lb_drop (currLB cl) cl, s, False)
               | Some bytes \<Rightarrow>
                   (case read_reply bytes cl of
                      None \<Rightarrow> None
                    | Some (cl, _) \<Rightarrow> map_option (\<lambda>s. (cl, s, True)) (store_quote cl s))))"

text \<open>One iteration of the endless loop; the flag says whether the request has been served.\<close>

definition quote_pass ::
  "string \<Rightarrow> (nat \<Rightarrow> attempt) \<Rightarrow> nat \<Rightarrow> lb_client \<Rightarrow> stock \<Rightarrow> (lb_client \<times> stock \<times> bool \<times> nat) option" where
  "quote_pass req net k cl s =
     (case lb_loop req net k [0..<NUM_LB] cl s of
        None \<Rightarrow> None
      | Some (cl, s, k) \<Rightarrow>
          if noneConnected cl then Some (cl, s, False, k)
          else if isCached cl then Some (lb_advance (cl\<lparr>isCached := False\<rparr>), s, True, k)
          else
            (case lb_fetch req (net k) cl s of
               None \<Rightarrow> None
             | Some (cl, s, ok) \<Rightarrow>
                 if ok then Some (lb_advance (cl\<lparr>isCached := False\<rparr>), s, True, Suc k)
                 else Some (cl, s, False, Suc k)))"

datatype serving = Served lb_client stock nat | Faulted | Waiting lb_client stock nat

fun serve_quote :: "nat \<Rightarrow> string \<Rightarrow> (nat \<Rightarrow> attempt) \<Rightarrow> nat \<Rightarrow> lb_client \<Rightarrow> stock \<Rightarrow> serving" where
  "serve_quote 0 req net k cl s = Waiting cl s k"
| "serve_quote (Suc fuel) req net k cl s =
     (case quote_pass req net k cl s of
        None \<Rightarrow> Faulted
      | Some (cl, s, served, k) \<Rightarrow>
          if served then Served cl s k else serve_quote fuel req net k cl s)"

text \<open>
  A request from the queue: its text must fit the 200 bytes of \<open>request\<close>; when it is served the
  stock is updated, the requester's semaphore posted and the element freed. \<open>None\<close> while the
  queue is empty or the fuel is spent.
\<close>

definition quote_round ::
  "nat \<Rightarrow> (nat \<Rightarrow> attempt) \<Rightarrow> nat \<Rightarrow> quote_request queue \<Rightarrow> lb_client \<Rightarrow> server \<Rightarrow>
   (quote_request queue \<times> lb_client \<times> server \<times> nat option \<times> nat) option" where
  "quote_round fuel net k qq cl st =
     (case qdeq qq of
        (Blocked, _) \<Rightarrow> None
      | (Null, qq) \<Rightarrow> Some (qq, cl, crash st, None, k)
      | (Got a r, qq) \<Rightarrow>
          (let req = quote_text (qr_transID r) (qr_userCmd r) (stockID (stk st (qr_stock r))) (qr_userID r)
           in if 200 \<le> length req then Some (qq, cl, crash st, None, k)
              else case serve_quote fuel req net k cl (stk st (qr_stock r)) of
                     Waiting _ _ _ \<Rightarrow> None
                   | Faulted \<Rightarrow> Some (qq, cl, crash st, None, k)
                   | Served cl s k \<Rightarrow>
                       Some (free_cell a qq, cl, upd_stock (qr_stock r) (\<lambda>_. s) st, Some (qr_returned r), k)))"

section \<open>What a well-formed reply does\<close>

definition client_ok :: "lb_client \<Rightarrow> bool" where
  "client_ok cl \<longleftrightarrow> length (response cl) = 200 \<and> length (quoteResponse cl) = 5 \<and>
     length (lb_connected cl) = NUM_LB \<and> currLB cl < NUM_LB"

lemma client_ok_init: "length buf = 200 \<Longrightarrow> client_ok (lb_init buf)"
  by (simp add: client_ok_def lb_init_def NUM_LB_def)

lemma client_ok_steps [simp]:
  "client_ok (lb_advance cl) = client_ok cl" if "currLB cl < NUM_LB"
  using that by (simp add: client_ok_def lb_advance_def NUM_LB_def)

lemma client_ok_drop [simp]: "client_ok (lb_drop i cl) = client_ok cl" "client_ok (lb_note i m cl) = client_ok cl"
  by (simp_all add: client_ok_def lb_drop_def lb_note_def)

text \<open>A reply with at most five fields fills the first cells and changes nothing else of the client.\<close>

lemma read_reply_fields:
  assumes ok: "client_ok cl" and s: "is_cstr s" "s \<noteq> []" "length s < 200"
    and fs: "split_on (CHR '','') None s = fs" and n: "length fs \<le> 5"
  obtains b ptrs where "read_reply (s @ [NUL]) cl = Some (cl\<lparr>response := b, quoteResponse := ptrs\<rparr>, length fs)"
    "client_ok (cl\<lparr>response := b, quoteResponse := ptrs\<rparr>)"
    "\<forall>i < length fs. reply_cell (cl\<lparr>response := b, quoteResponse := ptrs\<rparr>) i = Some (fs ! i)"
proof -
  let ?r = "drop (Suc (length s)) (response cl)"
  have ov: "overwrite (response cl) 0 (take 200 (s @ [NUL])) = s @ NUL # ?r"
    using s(3) by (simp add: overwrite_def)
  obtain b ps where c: "cut_at (\<lambda>s. delimSepNoCpy s (CHR '','')) (s @ NUL # ?r) (Some 0) = (b, ps)"
      "map (cstr_at b) ps = fs" "length b = length s + Suc (length ?r)"
    using cut_fields [OF s(1,2), of "CHR '',''" ?r] unfolding fs by (auto simp: NUL_def)
  have len: "length ps = length fs" by (metis c(2) length_map)
  define ptrs where "ptrs = map Some ps @ drop (length ps) (quoteResponse cl)"
  have st: "store_from 0 ps (quoteResponse cl) = Some ptrs"
    using n len ok by (simp add: store_from_def client_ok_def ptrs_def)
  have "read_reply (s @ [NUL]) cl = Some (cl\<lparr>response := b, quoteResponse := ptrs\<rparr>, length fs)"
    unfolding read_reply_def ov Let_def c(1) prod.case st by (simp add: len)
  moreover have "client_ok (cl\<lparr>response := b, quoteResponse := ptrs\<rparr>)"
    using ok s(3) n len by (simp add: client_ok_def c(3) ptrs_def)
  moreover have "\<forall>i < length fs. reply_cell (cl\<lparr>response := b, quoteResponse := ptrs\<rparr>) i = Some (fs ! i)"
  proof (intro allI impI)
    fix i assume that: "i < length fs"
    have "nth_opt ptrs i = Some (Some (ps ! i))" using that len by (simp add: nth_opt_def ptrs_def nth_append)
    moreover have "cstr_at b (ps ! i) = fs ! i" using that len c(2) by (metis nth_map)
    ultimately show "reply_cell (cl\<lparr>response := b, quoteResponse := ptrs\<rparr>) i = Some (fs ! i)"
      by (simp add: reply_cell_def)
  qed
  ultimately show thesis by (rule that)
qed

text \<open>A reply of five fields stores the price, the time and the key.\<close>

definition quoted_stock :: "string \<Rightarrow> string \<Rightarrow> string \<Rightarrow> stock \<Rightarrow> stock" where
  "quoted_stock p t key s = s\<lparr>price := str2price (Some p), ts := strtol10 t, quote_key := key\<rparr>"

definition is_reply :: "string \<Rightarrow> string \<Rightarrow> string \<Rightarrow> string \<Rightarrow> bool" where
  "is_reply r p t key \<longleftrightarrow> (\<exists>sym uid. r = join (CHR '','') [p, sym, uid, t, key] \<and>
     (\<forall>f \<in> {p, sym, uid, t, key}. clean (CHR '','') f) \<and> length r < 200 \<and> length key < 57)"

lemma is_reply_split:
  assumes "is_reply r p t key"
  obtains sym uid where "split_on (CHR '','') None r = [p, sym, uid, t, key]" "is_cstr r" "r \<noteq> []" "length r < 200" "length key < 57"
proof -
  obtain sym uid where r: "r = join (CHR '','') [p, sym, uid, t, key]"
      "\<forall>f \<in> {p, sym, uid, t, key}. clean (CHR '','') f" "length r < 200" "length key < 57"
    using assms unfolding is_reply_def by blast
  have "is_cstr r" "split_on (CHR '','') None r = [p, sym, uid, t, key]"
    unfolding r(1) using r(2) by (intro join_clean; simp add: NUL_def)+
  with r(3,4) show thesis by (intro that) (simp_all add: r(1))
qed

lemma reply_stored:
  assumes "client_ok cl" "is_reply r p t key"
  obtains b ptrs where "read_reply (r @ [NUL]) cl = Some (cl\<lparr>response := b, quoteResponse := ptrs\<rparr>, 5)"
    "client_ok (cl\<lparr>response := b, quoteResponse := ptrs\<rparr>)"
    "store_quote (cl\<lparr>response := b, quoteResponse := ptrs\<rparr>) s = Some (quoted_stock p t key s)"
proof -
  obtain sym uid where f: "split_on (CHR '','') None r = [p, sym, uid, t, key]" "is_cstr r" "r \<noteq> []"
      "length r < 200" "length key < 57"
    using assms(2) by (rule is_reply_split)
  have len: "length [p, sym, uid, t, key] \<le> 5" by simp
  obtain b ptrs where rd: "read_reply (r @ [NUL]) cl = Some (cl\<lparr>response := b, quoteResponse := ptrs\<rparr>, length [p, sym, uid, t, key])"
      "client_ok (cl\<lparr>response := b, quoteResponse := ptrs\<rparr>)"
      "\<forall>i < length [p, sym, uid, t, key].
        reply_cell (cl\<lparr>response := b, quoteResponse := ptrs\<rparr>) i = Some ([p, sym, uid, t, key] ! i)"
    by (rule read_reply_fields [OF assms(1) f(2-4,1) len])
  have "store_quote (cl\<lparr>response := b, quoteResponse := ptrs\<rparr>) s = Some (quoted_stock p t key s)"
    using rd(3) [rule_format, of 0] rd(3) [rule_format, of 3] rd(3) [rule_format, of 4] f(5) by (simp add: store_quote_def quoted_stock_def)
  with rd(1,2) show thesis by (intro that) simp_all
qed

section \<open>Serving\<close>

text \<open>With one balancer a pass is at most one cached attempt and one fetch.\<close>

lemma quote_pass_one:
  "quote_pass req net k cl s =
     (case lb_attempt req 0 (net k) cl s of
        None \<Rightarrow> None
      | Some (cl, s, found) \<Rightarrow>
          if noneConnected cl then Some (cl, s, False, Suc k)
          else if isCached cl then Some (lb_advance (cl\<lparr>isCached := False\<rparr>), s, True, Suc k)
          else
            (case lb_fetch req (net (Suc k)) cl s of
               None \<Rightarrow> None
             | Some (cl, s, ok) \<Rightarrow>
                 if ok then Some (lb_advance (cl\<lparr>isCached := False\<rparr>), s, True, Suc (Suc k))
                 else Some (cl, s, False, Suc (Suc k))))"
  by (auto simp: quote_pass_def NUM_LB_def split: option.split)

definition lost :: "attempt \<Rightarrow> bool" where
  "lost a \<longleftrightarrow> reach a \<noteq> No_address \<and> (\<not> sent a \<or> answer a = None)"

definition answers_with :: "attempt \<Rightarrow> string \<Rightarrow> bool" where
  "answers_with a bytes \<longleftrightarrow> reach a = Reached \<and> sent a \<and> answer a = Some bytes"

definition ready :: "lb_client \<Rightarrow> bool" where
  "ready cl \<longleftrightarrow> client_ok cl \<and> \<not> noneConnected cl \<and> \<not> isCached cl"

lemma lb_connect_ready:
  assumes "ready cl" "r \<noteq> No_address"
  obtains cs ok where "lb_connect 0 r cl = (cl\<lparr>lb_connected := cs\<rparr>, ok)" "ready (cl\<lparr>lb_connected := cs\<rparr>)"
    "r = Reached \<longrightarrow> ok"
proof (cases "lb_connected cl ! 0")
  case True
  then show thesis using that [of "lb_connected cl" True] assms by (simp add: lb_connect_def)
next
  case False
  then show thesis
    using that [of "lb_connected cl" False] that [of "(lb_connected cl)[0 := False]" False]
      that [of "(lb_connected cl)[0 := True]" True] assms
    by (cases r) (simp_all add: lb_connect_def lb_drop_def ready_def client_ok_def)
qed

lemma ready_steps:
  "ready cl \<Longrightarrow> ready (lb_drop i cl)" "ready cl \<Longrightarrow> ready (lb_note i m cl)"
  by (simp_all add: ready_def lb_drop_def lb_note_def client_ok_def)

lemma attempt_lost:
  assumes "ready cl" "lost a"
  obtains cl' where "lb_attempt req 0 a cl s = Some (cl', s, False)" "ready cl'"
proof -
  obtain cs ok where c: "lb_connect 0 (reach a) cl = (cl\<lparr>lb_connected := cs\<rparr>, ok)" "ready (cl\<lparr>lb_connected := cs\<rparr>)"
    using lb_connect_ready [OF assms(1), of "reach a"] assms(2) unfolding lost_def by metis
  let ?cl = "cl\<lparr>lb_connected := cs\<rparr>"
  consider "\<not> ok" | "ok" "\<not> sent a" | "ok" "sent a" "answer a = None" using assms(2) unfolding lost_def by auto
  then show thesis
  proof cases
    case 1
    then show thesis using that [of ?cl] c by (simp add: lb_attempt_def)
  next
    case 2
    then show thesis using that [of "lb_drop 0 ?cl"] ready_steps(1) [OF c(2), of 0] c(1) by (simp add: lb_attempt_def)
  next
    case 3
    then show thesis
      using that [of "lb_drop 0 (lb_note 0 req ?cl)"] ready_steps(1) [OF ready_steps(2) [OF c(2), of 0 req], of 0] c(1)
      by (simp add: lb_attempt_def)
  qed
qed

lemma fetch_lost:
  assumes "ready cl" "lost a"
  obtains cl' where "lb_fetch req a cl s = Some (cl', s, False)" "ready cl'"
proof -
  have c: "cl\<lparr>isCached := False\<rparr> = cl" using assms(1) by (cases cl) (simp add: ready_def)
  show thesis
  proof (cases "sent a")
    case False
    then show thesis
      using that [of "lb_drop (currLB cl) cl"] ready_steps(1) [OF assms(1)] by (simp add: lb_fetch_def c)
  next
    case True
    then have "answer a = None" using assms(2) by (simp add: lost_def)
    with True show thesis
      using that [of "lb_drop (currLB cl) (lb_note (currLB cl) (fetch_text req) cl)"] ready_steps [OF assms(1)]
        ready_steps(1) [OF ready_steps(2) [OF assms(1)]]
      by (simp add: lb_fetch_def c lb_note_def)
  qed
qed

lemma serve_lost:
  assumes "ready cl" "\<forall>i < 2 * n. lost (net (k + i))"
  obtains cl' where "ready cl'"
    "\<And>m. serve_quote (n + m) req net k cl s = serve_quote m req net (k + 2 * n) cl' s"
  using assms
proof (induction n arbitrary: k cl thesis)
  case 0
  show ?case by (rule "0.prems"(1) [of cl]) (simp_all add: "0.prems")
next
  case (Suc n)
  have q: "lost (net k)" "lost (net (Suc k))" using Suc.prems(3) by (auto dest: spec [of _ 0] spec [of _ 1])
  obtain cl1 where a: "lb_attempt req 0 (net k) cl s = Some (cl1, s, False)" "ready cl1"
    by (rule attempt_lost [OF Suc.prems(2) q(1)])
  obtain cl2 where f: "lb_fetch req (net (Suc k)) cl1 s = Some (cl2, s, False)" "ready cl2"
    by (rule fetch_lost [OF a(2) q(2)])
  have pass: "quote_pass req net k cl s = Some (cl2, s, False, k + 2)"
    using a(2) by (simp add: quote_pass_one a(1) f(1) ready_def)
  have "\<forall>i < 2 * n. lost (net (k + 2 + i))"
  proof (intro allI impI)
    fix i assume "i < 2 * n"
    then show "lost (net (k + 2 + i))" using Suc.prems(3) [rule_format, of "2 + i"] by (simp add: add.assoc)
  qed
  then obtain cl' where "ready cl'"
      "\<And>m. serve_quote (n + m) req net (k + 2) cl2 s = serve_quote m req net (k + 2 + 2 * n) cl' s"
    using Suc.IH [OF _ f(2)] by metis
  then show ?case by (intro Suc.prems(1) [of cl']) (simp_all add: pass)
qed

lemma attempt_cached:
  assumes "ready cl" "answers_with a (r @ [NUL])" "is_reply r p t key"
  obtains cl' where "lb_attempt req 0 a cl s = Some (cl'\<lparr>isCached := True\<rparr>, quoted_stock p t key s, True)"
    "ready cl'"
proof -
  have re: "reach a = Reached" "reach a \<noteq> No_address" using assms(2) by (simp_all add: answers_with_def)
  obtain cs where c: "lb_connect 0 (reach a) cl = (cl\<lparr>lb_connected := cs\<rparr>, True)" "ready (cl\<lparr>lb_connected := cs\<rparr>)"
    by (rule lb_connect_ready [OF assms(1) re(2)]) (simp add: re(1))
  define cl1 where "cl1 = lb_note 0 req (cl\<lparr>lb_connected := cs\<rparr>)"
  have r1: "ready cl1" unfolding cl1_def by (rule ready_steps(2) [OF c(2)])
  then have "client_ok cl1" by (simp add: ready_def)
  then obtain b ptrs where rd: "read_reply (r @ [NUL]) cl1 = Some (cl1\<lparr>response := b, quoteResponse := ptrs\<rparr>, 5)"
      "client_ok (cl1\<lparr>response := b, quoteResponse := ptrs\<rparr>)"
      "store_quote (cl1\<lparr>response := b, quoteResponse := ptrs\<rparr>) s = Some (quoted_stock p t key s)"
    by (rule reply_stored [OF _ assms(3)])
  have "sent a" "answer a = Some (r @ [NUL])" using assms(2) by (simp_all add: answers_with_def)
  then have "lb_attempt req 0 a cl s =
      Some (cl1\<lparr>response := b, quoteResponse := ptrs, isCached := True\<rparr>, quoted_stock p t key s, True)"
    unfolding lb_attempt_def c(1) Let_def prod.case cl1_def [symmetric] by (simp add: rd)
  moreover have "ready (cl1\<lparr>response := b, quoteResponse := ptrs\<rparr>)" using r1 rd(2) by (simp add: ready_def)
  ultimately show thesis by (intro that [of "cl1\<lparr>response := b, quoteResponse := ptrs\<rparr>"])
qed

lemma serve_cached:
  assumes "ready cl" "answers_with (net k) (r @ [NUL])" "is_reply r p t key"
  obtains cl' where "serve_quote (Suc m) req net k cl s = Served cl' (quoted_stock p t key s) (Suc k)" "ready cl'"
proof -
  obtain cl1 where a: "lb_attempt req 0 (net k) cl s = Some (cl1\<lparr>isCached := True\<rparr>, quoted_stock p t key s, True)"
      "ready cl1"
    by (rule attempt_cached [OF assms])
  have e: "cl1\<lparr>isCached := False\<rparr> = cl1" using a(2) by (cases cl1) (simp add: ready_def)
  have "serve_quote (Suc m) req net k cl s = Served (lb_advance cl1) (quoted_stock p t key s) (Suc k)"
    using a(2) by (simp add: quote_pass_one a(1) ready_def e)
  moreover have "ready (lb_advance cl1)"
    using a(2) by (simp add: ready_def lb_advance_def client_ok_def NUM_LB_def)
  ultimately show thesis by (rule that)
qed

lemma serve_fetched:
  assumes "ready cl" "answers_with (net k) (''NOT'' @ [NUL])" "answers_with (net (Suc k)) (r @ [NUL])" "is_reply r p t key"
  obtains cl' ms where "serve_quote (Suc m) req net k cl s = Served cl' (quoted_stock p t key s) (Suc (Suc k))" "ready cl'"
    "lb_out cl' = ms @ [(0, req), (0, fetch_text req)]"
proof -
  have re: "reach (net k) = Reached" "reach (net k) \<noteq> No_address" using assms(2) by (simp_all add: answers_with_def)
  obtain cs where c: "lb_connect 0 (reach (net k)) cl = (cl\<lparr>lb_connected := cs\<rparr>, True)" "ready (cl\<lparr>lb_connected := cs\<rparr>)"
    by (rule lb_connect_ready [OF assms(1) re(2)]) (simp add: re(1))
  define cl1 where "cl1 = lb_note 0 req (cl\<lparr>lb_connected := cs\<rparr>)"
  have r1: "ready cl1" unfolding cl1_def by (rule ready_steps(2) [OF c(2)])
  have n: "is_cstr ''NOT''" "''NOT'' \<noteq> []" "length ''NOT'' < 200" "split_on (CHR '','') None ''NOT'' = [''NOT'']"
      "length [''NOT''] \<le> 5"
    by (simp_all add: is_cstr_def NUL_def)
  have "client_ok cl1" using r1 by (simp add: ready_def)
  then obtain b ptrs where rd: "read_reply (''NOT'' @ [NUL]) cl1 = Some (cl1\<lparr>response := b, quoteResponse := ptrs\<rparr>, length [''NOT''])"
      "client_ok (cl1\<lparr>response := b, quoteResponse := ptrs\<rparr>)"
    by (rule read_reply_fields [OF _ n])
  define cl2 where "cl2 = cl1\<lparr>response := b, quoteResponse := ptrs\<rparr>"
  have r2: "ready cl2" unfolding cl2_def using r1 rd(2) by (simp add: ready_def)
  have "sent (net k)" "answer (net k) = Some (''NOT'' @ [NUL])" using assms(2) by (simp_all add: answers_with_def)
  then have a: "lb_attempt req 0 (net k) cl s = Some (cl2, s, False)"
    unfolding lb_attempt_def c(1) Let_def prod.case cl1_def [symmetric] cl2_def by (simp add: rd [simplified])
  define cl3 where "cl3 = lb_note 0 (fetch_text req) cl2"
  have r3: "ready cl3" unfolding cl3_def by (rule ready_steps(2) [OF r2])
  have "client_ok cl3" using r3 by (simp add: ready_def)
  then obtain b' ptrs' where rd': "read_reply (r @ [NUL]) cl3 = Some (cl3\<lparr>response := b', quoteResponse := ptrs'\<rparr>, 5)"
      "client_ok (cl3\<lparr>response := b', quoteResponse := ptrs'\<rparr>)"
      "store_quote (cl3\<lparr>response := b', quoteResponse := ptrs'\<rparr>) s = Some (quoted_stock p t key s)"
    by (rule reply_stored [OF _ assms(4)])
  define cl4 where "cl4 = cl3\<lparr>response := b', quoteResponse := ptrs'\<rparr>"
  have r4: "ready cl4" unfolding cl4_def using r3 rd'(2) by (simp add: ready_def)
  have z: "currLB cl2 = 0" using r2 by (simp add: ready_def client_ok_def NUM_LB_def)
  have e: "cl2\<lparr>isCached := False\<rparr> = cl2" using r2 by (cases cl2) (simp add: ready_def)
  have e4: "cl4\<lparr>isCached := False\<rparr> = cl4" using r4 by (cases cl4) (simp add: ready_def)
  have "sent (net (Suc k))" "answer (net (Suc k)) = Some (r @ [NUL])" using assms(3) by (simp_all add: answers_with_def)
  then have f: "lb_fetch req (net (Suc k)) cl2 s = Some (cl4, quoted_stock p t key s, True)"
    unfolding lb_fetch_def e z Let_def cl3_def [symmetric] cl4_def by (simp add: rd')
  have "serve_quote (Suc m) req net k cl s = Served (lb_advance cl4) (quoted_stock p t key s) (Suc (Suc k))"
    using r2 r4 by (simp add: quote_pass_one a f ready_def e4)
  moreover have "ready (lb_advance cl4)" using r4 by (simp add: ready_def lb_advance_def client_ok_def NUM_LB_def)
  moreover have "lb_out (lb_advance cl4) = lb_out cl @ [(0, req), (0, fetch_text req)]"
    by (simp add: lb_advance_def cl4_def cl3_def cl2_def cl1_def lb_note_def)
  ultimately show thesis by (rule that)
qed

text \<open>An address error on an unconnected client: \<open>noneConnected\<close> is set and never cleared.\<close>

definition silenced :: "lb_client \<Rightarrow> bool" where
  "silenced cl \<longleftrightarrow> client_ok cl \<and> noneConnected cl"

lemma read_reply_frame:
  assumes "read_reply bytes cl = Some (cl', n)"
  shows "noneConnected cl' = noneConnected cl \<and> lb_connected cl' = lb_connected cl"
  using assms by (auto simp: read_reply_def Let_def split_beta split: if_splits)

lemma silenced_attempt:
  assumes "length (lb_connected cl) = NUM_LB" "noneConnected cl \<or> \<not> lb_connected cl ! 0 \<and> reach a = No_address"
    "lb_attempt req 0 a cl s = Some (cl', s', found)"
  shows "length (lb_connected cl') = NUM_LB" "noneConnected cl'"
proof -
  have one: "\<not> lb_connected cl ! 0 \<Longrightarrow> \<not> list_ex id (lb_connected cl)"
    using assms(1) by (cases "lb_connected cl") (simp_all add: NUM_LB_def)
  obtain cl1 ok where c: "lb_connect 0 (reach a) cl = (cl1, ok)" by force
  have c1: "length (lb_connected cl1) = NUM_LB" "noneConnected cl1"
    using c assms(1,2) one by (auto simp: lb_connect_def lb_drop_def lb_advance_def split: if_splits reach.splits)
  have "length (lb_connected cl') = NUM_LB \<and> noneConnected cl'"
    using assms(3) c c1
    by (auto simp: lb_attempt_def lb_drop_def lb_note_def Let_def split: if_splits option.splits prod.splits dest!: read_reply_frame)
  then show "length (lb_connected cl') = NUM_LB" "noneConnected cl'" by simp_all
qed

lemma silenced_serve:
  assumes "length (lb_connected cl) = NUM_LB" "noneConnected cl \<or> \<not> lb_connected cl ! 0 \<and> reach (net k) = No_address"
  shows "serve_quote fuel req net k cl s \<noteq> Served cl' s' k'"
  using assms
proof (induction fuel arbitrary: k cl s)
  case 0
  then show ?case by simp
next
  case (Suc fuel)
  show ?case
  proof (cases "lb_attempt req 0 (net k) cl s")
    case None
    then show ?thesis by (simp add: quote_pass_one)
  next
    case (Some r)
    obtain cl1 s1 found where r: "r = (cl1, s1, found)" by (cases r)
    note c1 = silenced_attempt [OF Suc.prems Some [unfolded r]]
    have "quote_pass req net k cl s = Some (cl1, s1, False, Suc k)"
      using Some r c1 by (simp add: quote_pass_one)
    with Suc.IH [OF c1(1) disjI1 [OF c1(2)]] show ?thesis by simp
  qed
qed

end
