(* ===== verification/Quotes.thy ===== *)
theory Quotes
  imports Quote_Client Samples
begin

text \<open>
  The properties of the quote thread of the transaction server: a request is served through any
  number of lost exchanges, from the cache of the balancer or by a fetch, and an address error
  on a client without connections stops it.
\<close>

lemma quote_round_served:
  assumes q: "queue_inv qq" "contents qq = r # rs"
    and len: "length (quote_text (qr_transID r) (qr_userCmd r) (stockID (stk st (qr_stock r))) (qr_userID r)) < 200"
    and s: "serve_quote fuel (quote_text (qr_transID r) (qr_userCmd r) (stockID (stk st (qr_stock r))) (qr_userID r))
      net k cl (stk st (qr_stock r)) = Served cl' (f (stk st (qr_stock r))) k'"
  obtains qq' where "quote_round fuel net k qq cl st =
      Some (qq', cl', upd_stock (qr_stock r) f st, Some (qr_returned r), k')" "queue_inv qq'" "contents qq' = rs"
proof -
  obtain a q' where d: "deq False qq = (Got a r, q')" "queue_inv (free_cell a q')" "contents (free_cell a q') = rs"
    by (rule deq_free [OF q])
  have "quote_round fuel net k qq cl st =
      Some (free_cell a q', cl', upd_stock (qr_stock r) f st, Some (qr_returned r), k')"
    using len by (simp add: quote_round_def qdeq_def d(1) s upd_stock_def del: serve_quote.simps)
  with d that show thesis by blast
qed

text \<open>C24: A quote request is served from the cache of the balancer once an exchange succeeds, after
  any number of passes in which messages are lost (and no address lookup fails): the price, the
  time and the key of the reply are stored in the requested stock only, the requester's semaphore
  is posted, the request leaves the queue and the client is ready for the next one.\<close>

theorem quote_served:
  assumes "queue_inv qq" "contents qq = r # rs" "ready cl"
    "length (quote_text (qr_transID r) (qr_userCmd r) (stockID (stk st (qr_stock r))) (qr_userID r)) < 200"
    "\<forall>i < 2 * n. lost (net (k + i))" "answers_with (net (k + 2 * n)) (rep @ [NUL])" "is_reply rep p t key"
  shows "\<exists>qq' cl'. quote_round (Suc n) net k qq cl st =
      Some (qq', cl', upd_stock (qr_stock r) (quoted_stock p t key) st, Some (qr_returned r), Suc (k + 2 * n)) \<and>
    queue_inv qq' \<and> contents qq' = rs \<and> ready cl'"
proof -
  let ?req = "quote_text (qr_transID r) (qr_userCmd r) (stockID (stk st (qr_stock r))) (qr_userID r)"
    and ?s = "stk st (qr_stock r)"
  obtain cl1 where c1: "ready cl1"
      "\<And>m. serve_quote (n + m) ?req net k cl ?s = serve_quote m ?req net (k + 2 * n) cl1 ?s"
    using serve_lost [OF assms(3,5), of ?req ?s] by blast
  obtain cl' where c': "serve_quote (Suc 0) ?req net (k + 2 * n) cl1 ?s = Served cl' (quoted_stock p t key ?s) (Suc (k + 2 * n))"
      "ready cl'"
    by (rule serve_cached [where net = net and k = "k + 2 * n", OF c1(1) assms(6,7)])
  have "serve_quote (Suc n) ?req net k cl ?s = Served cl' (quoted_stock p t key ?s) (Suc (k + 2 * n))"
    using c1(2) [of "Suc 0"] c'(1) by simp
  from quote_round_served [where f = "quoted_stock p t key", OF assms(1,2,4) this] c'(2) show ?thesis by metis
qed

definition sample_net :: "nat \<Rightarrow> attempt" where
  "sample_net k =
     (if k < 2 then \<lparr>reach = Refused, sent = False, answer = None\<rparr>
      else \<lparr>reach = Reached, sent = True, answer = Some (''10.00,ABC,A1b2C3d4E5,1700000000000,k3y='' @ [NUL])\<rparr>)"

definition sample_requests :: "quote_request queue" where
  "sample_requests = snd (qenq queue_init 0 ''A1b2C3d4E5'' ''7'' ''QUOTE'' 9)"

lemma sample_requests:
  "queue_inv sample_requests"
  "contents sample_requests = [\<lparr>qr_stock = 0, qr_userID = ''A1b2C3d4E5'', qr_transID = ''7'', qr_userCmd = ''QUOTE'', qr_returned = 9\<rparr>]"
proof -
  have i: "queue_inv (queue_init :: quote_request queue)" "contents (queue_init :: quote_request queue) = []"
    using queue_inv_init by blast+
  show "queue_inv sample_requests"
    "contents sample_requests = [\<lparr>qr_stock = 0, qr_userID = ''A1b2C3d4E5'', qr_transID = ''7'', qr_userCmd = ''QUOTE'', qr_returned = 9\<rparr>]"
    using queue_inv_enq [OF i(1)] i(2) unfolding sample_requests_def qenq_def by simp_all
qed

lemma sample_client: "ready (lb_init (replicate 200 (CHR ''x'')))"
  using client_ok_init [of "replicate 200 (CHR ''x'')"] by (simp add: ready_def lb_init_def)

lemma sample_reply: "is_reply ''10.00,ABC,A1b2C3d4E5,1700000000000,k3y='' ''10.00'' ''1700000000000'' ''k3y=''"
  unfolding is_reply_def
  by (intro exI [of _ "''ABC''"] exI [of _ "''A1b2C3d4E5''"]) (simp add: clean_def is_cstr_def NUL_def)

lemma quote_served_witness:
  "\<exists>qq' cl'. quote_round 2 sample_net 0 sample_requests (lb_init (replicate 200 (CHR ''x''))) server_init =
      Some (qq', cl', upd_stock 0 (quoted_stock ''10.00'' ''1700000000000'' ''k3y='') server_init, Some 9, 3) \<and>
    queue_inv qq' \<and> contents qq' = [] \<and> ready cl'"
proof -
  have "length (quote_text ''7'' ''QUOTE'' (stockID (stk server_init 0)) ''A1b2C3d4E5'') < 200"
    by (simp add: quote_text_def server_init_def new_stock_def)
  moreover have "\<forall>i < 2 * 1. lost (sample_net (0 + i))" by (simp add: lost_def sample_net_def [of i for i])
  moreover have "answers_with (sample_net (0 + 2 * 1)) (''10.00,ABC,A1b2C3d4E5,1700000000000,k3y='' @ [NUL])"
    by (simp add: answers_with_def sample_net_def)
  ultimately show ?thesis
    using quote_served [OF sample_requests sample_client, of server_init 1 sample_net 0, OF _ _ _ sample_reply]
    by (simp add: eval_nat_numeral del: serve_quote.simps)
qed

text \<open>C25: When the balancer answers the cached request with NOT, the same request is sent to it
  as a fetch (QNR), and the reply to that is stored.\<close>

theorem quote_fetched:
  assumes "queue_inv qq" "contents qq = r # rs" "ready cl"
    "length (quote_text (qr_transID r) (qr_userCmd r) (stockID (stk st (qr_stock r))) (qr_userID r)) < 200"
    "\<forall>i < 2 * n. lost (net (k + i))" "answers_with (net (k + 2 * n)) (''NOT'' @ [NUL])"
    "answers_with (net (Suc (k + 2 * n))) (rep @ [NUL])" "is_reply rep p t key"
    "req = quote_text (qr_transID r) (qr_userCmd r) (stockID (stk st (qr_stock r))) (qr_userID r)"
  shows "\<exists>qq' cl' ms. quote_round (Suc n) net k qq cl st =
      Some (qq', cl', upd_stock (qr_stock r) (quoted_stock p t key) st, Some (qr_returned r), Suc (Suc (k + 2 * n))) \<and>
    contents qq' = rs \<and> ready cl' \<and>
    lb_out cl' = ms @ [(0, req), (0, ''QNR|'' @ drop 4 req)]"
proof -
  let ?s = "stk st (qr_stock r)"
  obtain cl1 where c1: "ready cl1" "\<And>m. serve_quote (n + m) req net k cl ?s = serve_quote m req net (k + 2 * n) cl1 ?s"
    using serve_lost [OF assms(3,5), of req ?s] by blast
  obtain cl' ms where c': "serve_quote (Suc 0) req net (k + 2 * n) cl1 ?s =
        Served cl' (quoted_stock p t key ?s) (Suc (Suc (k + 2 * n)))"
      "ready cl'" "lb_out cl' = ms @ [(0, req), (0, fetch_text req)]"
    by (rule serve_fetched [where net = net and k = "k + 2 * n", OF c1(1) assms(6-8)])
  have "serve_quote (Suc n) req net k cl ?s = Served cl' (quoted_stock p t key ?s) (Suc (Suc (k + 2 * n)))"
    using c1(2) [of "Suc 0"] c'(1) by simp
  note sv = quote_round_served [where f = "quoted_stock p t key", OF assms(1,2,4) this [unfolded assms(9)]]
  have "fetch_text req = ''QNR|'' @ drop 4 req" by (simp add: assms(9) fetch_text_def quote_text_def)
  with sv c'(2,3) show ?thesis by metis
qed

definition sample_cold :: "nat \<Rightarrow> attempt" where
  "sample_cold k = \<lparr>reach = Reached, sent = True,
     answer = Some ((if k = 0 then ''NOT'' else ''10.00,ABC,A1b2C3d4E5,1700000000000,k3y='') @ [NUL])\<rparr>"

lemma quote_fetched_witness:
  "\<exists>qq' cl' ms. quote_round 1 sample_cold 0 sample_requests (lb_init (replicate 200 (CHR ''x''))) server_init =
      Some (qq', cl', upd_stock 0 (quoted_stock ''10.00'' ''1700000000000'' ''k3y='') server_init, Some 9, 2) \<and>
    contents qq' = [] \<and> ready cl' \<and>
    lb_out cl' = ms @ [(0, quote_text ''7'' ''QUOTE'' [] ''A1b2C3d4E5''), (0, ''QNR|7|QUOTE|,A1b2C3d4E5'' @ [CHR 0x0A])]"
proof -
  have id: "stockID (stk server_init 0) = []" by (simp add: server_init_def new_stock_def)
  have "length (quote_text ''7'' ''QUOTE'' (stockID (stk server_init 0)) ''A1b2C3d4E5'') < 200"
    by (simp add: quote_text_def id)
  moreover have "\<forall>i < 2 * 0. lost (sample_cold (0 + i))" by simp
  moreover have "answers_with (sample_cold (0 + 2 * 0)) (''NOT'' @ [NUL])"
    "answers_with (sample_cold (Suc (0 + 2 * 0))) (''10.00,ABC,A1b2C3d4E5,1700000000000,k3y='' @ [NUL])"
    by (simp_all add: answers_with_def sample_cold_def)
  ultimately show ?thesis
    using quote_fetched [OF sample_requests sample_client, of server_init 0 sample_cold 0, OF _ _ _ _ sample_reply refl]
    by (simp add: id quote_text_def eval_nat_numeral del: serve_quote.simps)
qed

text \<open>Once the address of the only balancer cannot be resolved while the client is not
  connected to it, no quote request is ever served again, whatever the network does afterwards:
  \<open>noneConnected\<close> is cleared only by a later address error.\<close>

theorem quotes_silenced:
  assumes "client_ok cl" "\<not> lb_connected cl ! 0" "reach (net k) = No_address"
  shows "\<forall>fuel. case quote_round fuel net k qq cl st of
    None \<Rightarrow> True | Some (qq', cl', st', posted, k') \<Rightarrow> posted = None"
proof -
  have len: "length (lb_connected cl) = NUM_LB" using assms(1) by (simp add: client_ok_def)
  have "serve_quote fuel req net k cl s \<noteq> Served cl' s' k'" for fuel req s cl' s' k'
    using assms(2,3) by (intro silenced_serve [OF len] disjI2 conjI)
  then show ?thesis
    by (auto simp: quote_round_def Let_def split: prod.splits deq.splits if_splits serving.splits)
qed

lemma quotes_silenced_witness:
  "\<forall>fuel. case
     quote_round fuel (\<lambda>i. \<lparr>reach = (if i = 0 then No_address else Reached), sent = True, answer = Some (''NOT'' @ [NUL])\<rparr>) 0
       sample_requests (lb_init (replicate 200 (CHR ''x''))) server_init of
    None \<Rightarrow> True | Some (qq', cl', st', posted, k') \<Rightarrow> posted = None"
  by (rule quotes_silenced) (simp_all add: client_ok_init lb_init_def NUM_LB_def client_ok_def)

end
