(* ===== verification/Load_Balancer.thy ===== *)
theory Load_Balancer
  imports Network
begin

text \<open>
  The load balancer (\<open>loadBalancer.c\<close>): a cache of quotes with one entry for each three letter
  stock, connection threads that answer the requests of the transaction servers from it
  (\<open>connection_handler\<close>), the thread that has missing quotes fetched and stores them
  (\<open>quote_handler\<close>), and the threads that talk to the quote server (\<open>get_quote_thread\<close>).
\<close>

section \<open>State\<close>

definition CHAR_LIM :: int where "CHAR_LIM = 26"
definition cache_size :: int where "cache_size = CHAR_LIM * CHAR_LIM * CHAR_LIM"
definition lb_quoteTo :: int where "lb_quoteTo = 28000"

text \<open>An entry of the cache: NULL strings and time 0 until a quote is stored.\<close>

record lb_quote =
  q_price :: "string option"
  q_sym :: "string option"
  q_user :: "string option"
  q_key :: "string option"
  q_ts :: int

definition no_quote :: lb_quote where
  "no_quote = \<lparr>q_price = None, q_sym = None, q_user = None, q_key = None, q_ts = 0\<rparr>"

record lb_request =
  lr_request :: string
  lr_requestLen :: nat
  lr_transID :: string
  lr_quoteAddress :: int

record balancer =
  cache :: "nat \<Rightarrow> lb_quote"
  lb_quotes :: "lb_request queue"
  lb_logs :: "string queue"

text \<open>The start of \<open>main\<close>: an empty entry for each address, empty queues.\<close>

definition balancer_init :: balancer where
  "balancer_init = \<lparr>cache = (\<lambda>_. no_quote), lb_quotes = queue_init, lb_logs = queue_init\<rparr>"

definition lb_lenq :: "string queue \<Rightarrow> string \<Rightarrow> nat \<Rightarrow> string queue option" where
  "lb_lenq q str strsize = (if length str + 1 \<le> strsize then Some (snd (enq q str)) else None)"

text \<open>On a NULL line \<open>ldeq\<close> returns without unlocking the queue; it is not reached on a well-formed queue.\<close>

definition lb_ldeq :: "string queue \<Rightarrow> string deq \<times> string queue" where
  "lb_ldeq q = deq True q"

definition lb_qenq :: "lb_request queue \<Rightarrow> string \<Rightarrow> nat \<Rightarrow> string \<Rightarrow> int \<Rightarrow> addr \<times> lb_request queue" where
  "lb_qenq q req len tid a =
     enq q \<lparr>lr_request = req, lr_requestLen = len, lr_transID = tid, lr_quoteAddress = a\<rparr>"

definition lb_qdeq :: "lb_request queue \<Rightarrow> lb_request deq \<times> lb_request queue" where
  "lb_qdeq q = deq False q"

section \<open>Requests\<close>

text \<open>
  The cache address of a request: three characters, each through the C remainder, which is
  negative below \<open>A\<close>; \<open>None\<close> when the string ends before the third character is read.
\<close>

definition quoteAddress :: "string \<Rightarrow> int option" where
  "quoteAddress req =
     (let ch = (\<lambda>i. cmod (c_int ((req @ [NUL]) ! i) - 65) CHAR_LIM)
      in if length req < 2 then None
         else Some ((ch 0 * CHAR_LIM + ch 1) * CHAR_LIM + ch 2))"

record lb_conn =
  lb_buffer :: string
  messageSep :: "string option list"

definition lb_conn_init :: "string \<Rightarrow> lb_conn" where
  "lb_conn_init buf = \<lparr>lb_buffer = buf, messageSep = replicate 4 None\<rparr>"

text \<open>The received bytes, copied apart at the bars into \<open>messageSep\<close>; \<open>None\<close> past its four cells.\<close>

definition lb_receive :: "string \<Rightarrow> lb_conn \<Rightarrow> lb_conn option" where
  "lb_receive bytes cn =
     (let buf = overwrite (lb_buffer cn) 0 (take 200 bytes)
      in if NUL \<notin> set buf then None
         else
           (let fs = delimSep (Some (cstr_at buf 0)) (CHR ''|'')
            in if length fs > length (messageSep cn) then None
               else Some \<lparr>lb_buffer = buf, messageSep = map Some fs @ drop (length fs) (messageSep cn)\<rparr>))"

text \<open>\<open>%llu\<close>, and the reply format; \<open>None\<close> when a string is NULL or the 200 bytes of \<open>reply\<close> overflow.\<close>

definition show_ullong :: "int \<Rightarrow> string" where
  "show_ullong i = show_nat (nat (i mod 2 ^ 64))"

definition lb_text :: "lb_quote \<Rightarrow> string option" where
  "lb_text q =
     (case (q_price q, q_sym q, q_user q, q_key q) of
        (Some p, Some s, Some u, Some k) \<Rightarrow>
          (let text = join (CHR '','') [p, s, u, show_ullong (q_ts q), k]
           in if length text < 200 then Some text else None)
      | _ \<Rightarrow> None)"

text \<open>A reply sent at once, a request queued for the quote thread, or an access out of bounds.\<close>

datatype lb_answer = Reply string | Fetch | Bad_access

definition lb_send :: "lb_quote \<Rightarrow> lb_answer" where
  "lb_send q = (case lb_text q of None \<Rightarrow> Bad_access | Some text \<Rightarrow> Reply text)"

definition is_fresh :: "int \<Rightarrow> lb_quote \<Rightarrow> bool" where
  "is_fresh now q \<longleftrightarrow> s64 (now - q_ts q) < lb_quoteTo"

text \<open>What follows the splitting, with the cells of \<open>messageSep\<close> and the time.\<close>

definition lb_dispatch :: "int \<Rightarrow> string option list \<Rightarrow> balancer \<Rightarrow> lb_answer \<times> balancer" where
  "lb_dispatch now ms bal =
     (case (Option.bind (nth_opt ms 0) id, Option.bind (nth_opt ms 1) id, Option.bind (nth_opt ms 3) id) of
        (Some kind, Some tid, Some req) \<Rightarrow>
          (case quoteAddress req of
             None \<Rightarrow> (Bad_access, bal)
           | Some a \<Rightarrow>
               if a < 0 \<or> cache_size \<le> a then (Bad_access, bal)
               else
                 (let q = cache bal (nat a)
                  in if take 3 kind = ''QCR'' then
                       (if is_fresh now q then lb_send q else Reply ''NOT'', bal)
                     else if take 3 kind = ''QNR'' then
                       (if is_fresh now q then (lb_send q, bal)
                        else (Fetch, bal\<lparr>lb_quotes := snd (lb_qenq (lb_quotes bal) req (length req + 1) tid a)\<rparr>))
                     else (Reply ''ERR'', bal)))
      | _ \<Rightarrow> (Bad_access, bal))"

definition lb_message :: "int \<Rightarrow> string \<Rightarrow> lb_conn \<Rightarrow> balancer \<Rightarrow> lb_answer \<times> lb_conn \<times> balancer" where
  "lb_message now bytes cn bal =
     (case lb_receive bytes cn of
        None \<Rightarrow> (Bad_access, cn, bal)
      | Some cn \<Rightarrow> (case lb_dispatch now (messageSep cn) bal of (ans, bal) \<Rightarrow> (ans, cn, bal)))"

section \<open>Fetching\<close>

text \<open>
  One iteration of a thread that asks the quote server: where it fails, or the bytes received.
  \<open>Lost_race\<close> covers the time-out of \<open>recv\<close> and another thread having returned before.
\<close>

datatype quote_attempt =
    Address_error | Socket_error | Connect_error | Select_error | Select_timeout | Send_error
  | Lost_race | Received string

record quote_thread =
  qt_connected :: bool
  qt_reply :: string

text \<open>
  The reply loses one NUL and one newline at its end and is terminated; \<open>None\<close> when it is empty
  or fills the 200 bytes.
\<close>

definition trim_reply :: "string \<Rightarrow> string \<Rightarrow> string option" where
  "trim_reply bytes rep =
     (let buf = overwrite rep 0 bytes; n = length bytes
      in if n = 0 then None
         else
           (let n = (if buf ! (n - 1) = NUL then n - 1 else n)
            in if n = 0 then None
               else
                 (let n = (if buf ! (n - 1) = CHR 0x0A then n - 1 else n)
                  in if n < length buf then Some (buf[n := NUL]) else None)))"

definition quoteLog :: "int \<Rightarrow> string \<Rightarrow> string \<Rightarrow> string" where
  "quoteLog now tid rep = join (CHR '','') [''quote'', show_long now, ''LOAD1'', tid, rep]"

text \<open>
  The iteration; the flag says that the thread has published its number in \<open>threadReturnedID\<close>
  (\<open>won\<close>: it got the mutex \<open>threadReturned\<close>). A reply with a price is logged.
\<close>

definition quote_iteration ::
  "int \<Rightarrow> string \<Rightarrow> bool \<Rightarrow> quote_attempt \<Rightarrow> quote_thread \<Rightarrow> string queue \<Rightarrow> (quote_thread \<times> string queue \<times> bool) option" where
  "quote_iteration now tid won a th lq =
     (case a of
        Address_error \<Rightarrow> Some (th, lq, False)
      | Socket_error \<Rightarrow> Some (th\<lparr>qt_connected := False\<rparr>, lq, False)
      | Connect_error \<Rightarrow> Some (th\<lparr>qt_connected := False\<rparr>, lq, False)
      | Select_error \<Rightarrow> Some (th\<lparr>qt_connected := False\<rparr>, lq, False)
      | Select_timeout \<Rightarrow> Some (th\<lparr>qt_connected := True\<rparr>, lq, False)
      | Send_error \<Rightarrow> Some (th\<lparr>qt_connected := False\<rparr>, lq, False)
      | Lost_race \<Rightarrow> Some (th\<lparr>qt_connected := True\<rparr>, lq, False)
      | Received bytes \<Rightarrow>
          (case trim_reply (take 200 bytes) (qt_reply th) of
             None \<Rightarrow> None
           | Some rep \<Rightarrow>
               (let th = \<lparr>qt_connected = True, qt_reply = rep\<rparr>; text = cstr_at rep 0
                in case lb_str2price rep of
                     None \<Rightarrow> None
                   | Some p \<Rightarrow>
                       if p = - 1 then Some (th, lq, won)
                       else
                         (let line = quoteLog now tid text
                          in if 500 \<le> length line then None
                             else map_option (\<lambda>lq. (th, lq, won)) (lb_lenq lq line (length line + 1))))))"

text \<open>
  The quote thread on its next request, with the reply string of the thread that returned first:
  an empty reply ends it, five fields are stored with the time of arrival, any other number
  leaves uninitialised pointers in \<open>newQuote\<close> or overflows it.
\<close>

datatype lb_outcome = Waiting_request | Stopped | Broken | Stored lb_request

definition lb_round :: "int \<Rightarrow> string \<Rightarrow> balancer \<Rightarrow> lb_outcome \<times> balancer" where
  "lb_round now rep bal =
     (case lb_qdeq (lb_quotes bal) of
        (Blocked, _) \<Rightarrow> (Waiting_request, bal)
      | (Null, q) \<Rightarrow> (Broken, bal\<lparr>lb_quotes := q\<rparr>)
      | (Got el r, q) \<Rightarrow>
          if lr_quoteAddress r < 0 \<or> cache_size \<le> lr_quoteAddress r then (Broken, bal\<lparr>lb_quotes := q\<rparr>)
          else
            (case delimSep (Some rep) (CHR '','') of
               [] \<Rightarrow> (Stopped, bal\<lparr>lb_quotes := q\<rparr>)
             | [p, s, u, t, k] \<Rightarrow>
                 (Stored r, bal\<lparr>lb_quotes := free_cell el q,
                    cache := (cache bal)(nat (lr_quoteAddress r) :=
                      \<lparr>q_price = Some p, q_sym = Some s, q_user = Some u, q_key = Some k, q_ts = now\<rparr>)\<rparr>)
             | _ \<Rightarrow> (Broken, bal\<lparr>lb_quotes := q\<rparr>)))"

section \<open>Addresses\<close>

lemma stock_char:
  assumes "valid_stock_char c"
  shows "cmod (c_int c - 65) CHAR_LIM = c_int c - 65" "65 \<le> c_int c" "c_int c \<le> 90"
  using assms by (simp_all add: valid_stock_char_def Let_def CHAR_LIM_def)

definition stock_address :: "string \<Rightarrow> int" where
  "stock_address s = ((c_int (s ! 0) - 65) * 26 + (c_int (s ! 1) - 65)) * 26 + (c_int (s ! 2) - 65)"

lemma quoteAddress_valid:
  assumes "validStockID (Some s)"
  shows "quoteAddress (s @ r) = Some (stock_address s)" "0 \<le> stock_address s" "stock_address s < cache_size"
proof -
  obtain a b c where s: "s = [a, b, c]" "valid_stock_char a" "valid_stock_char b" "valid_stock_char c"
    using validStockID_obtain [OF assms] by auto
  note ch = stock_char [OF s(2)] stock_char [OF s(3)] stock_char [OF s(4)]
  show "quoteAddress (s @ r) = Some (stock_address s)"
    using ch by (simp add: quoteAddress_def stock_address_def s(1) Let_def CHAR_LIM_def eval_nat_numeral)
  show "0 \<le> stock_address s" "stock_address s < cache_size"
    using ch by (simp_all add: stock_address_def s(1) cache_size_def CHAR_LIM_def eval_nat_numeral)
qed

lemma digit_unique:
  assumes "x * 26 + y = x' * 26 + (y' :: int)" "0 \<le> y" "y < 26" "0 \<le> y'" "y' < 26"
  shows "x = x' \<and> y = y'"
proof -
  have "(x * 26 + y) mod 26 = y" "(x' * 26 + y') mod 26 = y'" using assms(2-5) by simp_all
  then have "y = y'" using assms(1) by simp
  then show ?thesis using assms(1) by simp
qed

lemma stock_address_inj:
  assumes "validStockID (Some s)" "validStockID (Some s')" "stock_address s = stock_address s'"
  shows "s = s'"
proof -
  obtain a b c a' b' c' where s: "s = [a, b, c]" "s' = [a', b', c']"
      "valid_stock_char a" "valid_stock_char b" "valid_stock_char c" "valid_stock_char a'" "valid_stock_char b'" "valid_stock_char c'"
    using validStockID_obtain [OF assms(1)] validStockID_obtain [OF assms(2)] by (metis option.inject)
  have e: "((c_int a - 65) * 26 + (c_int b - 65)) * 26 + (c_int c - 65) =
      ((c_int a' - 65) * 26 + (c_int b' - 65)) * 26 + (c_int c' - 65)"
    using assms(3) by (simp add: s(1,2) stock_address_def)
  note ch = stock_char [OF s(3)] stock_char [OF s(4)] stock_char [OF s(5)] stock_char [OF s(6)]
    stock_char [OF s(7)] stock_char [OF s(8)]
  have ab: "(c_int a - 65) * 26 + (c_int b - 65) = (c_int a' - 65) * 26 + (c_int b' - 65) \<and> c_int c - 65 = c_int c' - 65"
    using ch by (intro digit_unique [OF e]) simp_all
  have "c_int a - 65 = c_int a' - 65 \<and> c_int b - 65 = c_int b' - 65"
    using ch by (intro digit_unique [OF conjunct1 [OF ab]]) simp_all
  with ab have "c_int a = c_int a' \<and> c_int b = c_int b' \<and> c_int c = c_int c'" by simp
  then show ?thesis using c_int_inj by (simp add: s(1,2))
qed

text \<open>C27: Every valid stock has its own entry of the cache: the address of a request is inside the
  cache, whatever follows the identifier, and two stocks share an address only when equal.\<close>

theorem cache_addresses_exact:
  assumes "validStockID (Some s)" "validStockID (Some s')"
  shows "\<exists>a a'. quoteAddress (s @ r) = Some a \<and> quoteAddress (s' @ r') = Some a' \<and>
    0 \<le> a \<and> a < cache_size \<and> (a = a' \<longleftrightarrow> s = s')"
  using quoteAddress_valid [OF assms(1)] quoteAddress_valid [OF assms(2)] stock_address_inj [OF assms] by auto

lemma cache_addresses_exact_witness:
  "\<exists>a a'. quoteAddress (''ABC'' @ '',u'') = Some a \<and> quoteAddress (''ZZZ'' @ '',v'') = Some a' \<and>
    0 \<le> a \<and> a < cache_size \<and> (a = a' \<longleftrightarrow> ''ABC'' = ''ZZZ'')"
proof (rule cache_addresses_exact)
  show "validStockID (Some ''ABC'')" by code_simp
  show "validStockID (Some ''ZZZ'')" by code_simp
qed

section \<open>Answering\<close>

definition request_text :: "string \<Rightarrow> string \<Rightarrow> string \<Rightarrow> string \<Rightarrow> string \<Rightarrow> string" where
  "request_text kind tid cmd sid uid = join (CHR ''|'') [kind, tid, cmd, sid @ CHR '','' # uid @ [CHR 0x0A]]"

definition lb_conn_ok :: "lb_conn \<Rightarrow> bool" where
  "lb_conn_ok cn \<longleftrightarrow> length (lb_buffer cn) = 200 \<and> length (messageSep cn) = 4"

lemma lb_receive_request:
  assumes "lb_conn_ok cn" "\<forall>f \<in> {kind, tid, cmd, sid, uid}. clean (CHR ''|'') f"
    "length (request_text kind tid cmd sid uid) < 200"
  obtains cn' where "lb_receive (request_text kind tid cmd sid uid @ [NUL]) cn = Some cn'" "lb_conn_ok cn'"
    "messageSep cn' = map Some [kind, tid, cmd, sid @ CHR '','' # uid @ [CHR 0x0A]]"
proof -
  let ?m = "request_text kind tid cmd sid uid" and ?fs = "[kind, tid, cmd, sid @ CHR '','' # uid @ [CHR 0x0A]]"
  let ?r = "drop (Suc (length ?m)) (lb_buffer cn)"
  have c: "is_cstr ?m" "split_on (CHR ''|'') None ?m = ?fs" "?m \<noteq> []"
    unfolding request_text_def using assms(2) by (intro join_clean; simp add: clean_def NUL_def)+ simp
  have ov: "overwrite (lb_buffer cn) 0 (take 200 (?m @ [NUL])) = ?m @ NUL # ?r"
    using assms(3) by (simp add: overwrite_def)
  have s: "cstr_at (?m @ NUL # ?r) 0 = ?m" using text_at [OF c(1), of "[]" 0 ?r] by simp
  have f: "delimSep (Some ?m) (CHR ''|'') = ?fs" using delimSep_split [OF c(3)] c(2) by simp
  have "lb_receive (?m @ [NUL]) cn = Some \<lparr>lb_buffer = ?m @ NUL # ?r, messageSep = map Some ?fs\<rparr>"
    unfolding lb_receive_def ov Let_def s f using assms(1) by (simp add: lb_conn_ok_def)
  moreover have "lb_conn_ok \<lparr>lb_buffer = ?m @ NUL # ?r, messageSep = map Some ?fs\<rparr>"
    using assms(1,3) by (simp add: lb_conn_ok_def)
  ultimately show thesis by (intro that [of "\<lparr>lb_buffer = ?m @ NUL # ?r, messageSep = map Some ?fs\<rparr>"]) simp_all
qed

text \<open>What the balancer says to a request of kind \<open>QCR\<close> or \<open>QNR\<close> for a valid stock.\<close>

definition lb_expected :: "int \<Rightarrow> string \<Rightarrow> string \<Rightarrow> string \<Rightarrow> string \<Rightarrow> balancer \<Rightarrow> lb_answer \<times> balancer" where
  "lb_expected now kind tid sid uid bal =
     (let q = cache bal (nat (stock_address sid)); req = sid @ CHR '','' # uid @ [CHR 0x0A]
      in if is_fresh now q then (lb_send q, bal)
         else if kind = ''QCR'' then (Reply ''NOT'', bal)
         else (Fetch, bal\<lparr>lb_quotes := snd (lb_qenq (lb_quotes bal) req (length req + 1) tid (stock_address sid))\<rparr>))"

lemma lb_message_request:
  assumes "lb_conn_ok cn" "kind \<in> {''QCR'', ''QNR''}" "\<forall>f \<in> {tid, cmd, uid}. clean (CHR ''|'') f"
    "validStockID (Some sid)" "length (request_text kind tid cmd sid uid) < 200"
  obtains cn' where "lb_message now (request_text kind tid cmd sid uid @ [NUL]) cn bal =
      (fst (lb_expected now kind tid sid uid bal), cn', snd (lb_expected now kind tid sid uid bal))" "lb_conn_ok cn'"
proof -
  have "\<not> valid_stock_char (CHR ''|'')" "\<not> valid_stock_char NUL" by code_simp+
  then have "clean (CHR ''|'') sid" using assms(4) by (auto simp: clean_def is_cstr_def validStockID_iff)
  moreover have "clean (CHR ''|'') kind" using assms(2) by (auto simp: clean_def is_cstr_def NUL_def)
  ultimately have cl: "\<forall>f \<in> {kind, tid, cmd, sid, uid}. clean (CHR ''|'') f" using assms(3) by blast
  obtain cn' where cn': "lb_receive (request_text kind tid cmd sid uid @ [NUL]) cn = Some cn'" "lb_conn_ok cn'"
      "messageSep cn' = map Some [kind, tid, cmd, sid @ CHR '','' # uid @ [CHR 0x0A]]"
    by (rule lb_receive_request [OF assms(1) cl assms(5)])
  note a = quoteAddress_valid(1) [OF assms(4), of "CHR '','' # uid @ [CHR 0x0A]"] quoteAddress_valid(2,3) [OF assms(4)]
  have "lb_dispatch now (messageSep cn') bal = lb_expected now kind tid sid uid bal"
  proof -
    have cells: "Option.bind (nth_opt (messageSep cn') 0) id = Some kind" "Option.bind (nth_opt (messageSep cn') 1) id = Some tid"
        "Option.bind (nth_opt (messageSep cn') 3) id = Some (sid @ CHR '','' # uid @ [CHR 0x0A])"
      by (simp_all add: cn'(3) nth_opt_def)
    have t: "take 3 kind = kind" "kind = ''QCR'' \<or> kind = ''QNR''" using assms(2) by auto
    have "(stock_address sid < 0 \<or> cache_size \<le> stock_address sid) = False" using a by simp
    then show ?thesis
      unfolding lb_dispatch_def cells prod.case option.case a(1) if_False lb_expected_def Let_def t(1)
      using t(2) by (elim disjE) simp_all
  qed
  then show thesis using that [OF _ cn'(2)] by (simp add: lb_message_def cn'(1) split_beta)
qed

text \<open>C26: A request for a valid stock is answered from the stock's own entry when that is younger than
  28 seconds; otherwise a cached request gets NOT, and a fetch is appended to the queue of the
  quote thread with the stock's address. The cache is not changed and the connection is ready for
  the next message.\<close>

theorem balancer_answers:
  assumes "lb_conn_ok cn" "kind \<in> {''QCR'', ''QNR''}" "\<forall>f \<in> {tid, cmd, uid}. clean (CHR ''|'') f"
    "validStockID (Some sid)" "length (request_text kind tid cmd sid uid) < 200" "queue_inv (lb_quotes bal)"
  shows "\<exists>ans cn' bal'. lb_message now (request_text kind tid cmd sid uid @ [NUL]) cn bal = (ans, cn', bal') \<and>
    lb_conn_ok cn' \<and> cache bal' = cache bal \<and> queue_inv (lb_quotes bal') \<and>
    (if is_fresh now (cache bal (nat (stock_address sid)))
     then ans = lb_send (cache bal (nat (stock_address sid))) \<and> bal' = bal
     else if kind = ''QCR'' then ans = Reply ''NOT'' \<and> bal' = bal
     else ans = Fetch \<and> contents (lb_quotes bal') = contents (lb_quotes bal) @
       [\<lparr>lr_request = sid @ CHR '','' # uid @ [CHR 0x0A], lr_requestLen = length sid + length uid + 3,
         lr_transID = tid, lr_quoteAddress = stock_address sid\<rparr>])"
proof -
  let ?e = "lb_expected now kind tid sid uid bal"
  obtain cn' where m: "lb_message now (request_text kind tid cmd sid uid @ [NUL]) cn bal = (fst ?e, cn', snd ?e)" "lb_conn_ok cn'"
    by (rule lb_message_request [OF assms(1-5)])
  have "cache (snd ?e) = cache bal \<and> queue_inv (lb_quotes (snd ?e)) \<and>
    (if is_fresh now (cache bal (nat (stock_address sid)))
     then fst ?e = lb_send (cache bal (nat (stock_address sid))) \<and> snd ?e = bal
     else if kind = ''QCR'' then fst ?e = Reply ''NOT'' \<and> snd ?e = bal
     else fst ?e = Fetch \<and> contents (lb_quotes (snd ?e)) = contents (lb_quotes bal) @
       [\<lparr>lr_request = sid @ CHR '','' # uid @ [CHR 0x0A], lr_requestLen = length sid + length uid + 3,
         lr_transID = tid, lr_quoteAddress = stock_address sid\<rparr>])"
    using assms(6) queue_inv_enq [OF assms(6)] by (simp add: lb_expected_def Let_def lb_qenq_def)
  with m show ?thesis by blast
qed

lemma balancer_answers_witness:
  "\<exists>ans cn' bal'. lb_message 1700000000000 (request_text ''QNR'' ''7'' ''BUY'' ''ABC'' ''A1b2C3d4E5'' @ [NUL])
      (lb_conn_init (replicate 200 NUL)) balancer_init = (ans, cn', bal') \<and>
    lb_conn_ok cn' \<and> cache bal' = cache balancer_init \<and> queue_inv (lb_quotes bal') \<and>
    (if is_fresh 1700000000000 (cache balancer_init (nat (stock_address ''ABC'')))
     then ans = lb_send (cache balancer_init (nat (stock_address ''ABC''))) \<and> bal' = balancer_init
     else if ''QNR'' = ''QCR'' then ans = Reply ''NOT'' \<and> bal' = balancer_init
     else ans = Fetch \<and> contents (lb_quotes bal') = contents (lb_quotes balancer_init) @
       [\<lparr>lr_request = ''ABC'' @ CHR '','' # ''A1b2C3d4E5'' @ [CHR 0x0A],
         lr_requestLen = length ''ABC'' + length ''A1b2C3d4E5'' + 3,
         lr_transID = ''7'', lr_quoteAddress = stock_address ''ABC''\<rparr>])"
proof (rule balancer_answers)
  show "validStockID (Some ''ABC'')" by code_simp
qed (auto simp: lb_conn_ok_def lb_conn_init_def clean_def is_cstr_def NUL_def request_text_def balancer_init_def queue_inv_init)

section \<open>Storing\<close>

lemma lb_round_stores:
  assumes "queue_inv (lb_quotes bal)" "contents (lb_quotes bal) = r # rs"
    "0 \<le> lr_quoteAddress r" "lr_quoteAddress r < cache_size" "\<forall>f \<in> {p, s, u, t, k}. clean (CHR '','') f"
  obtains bal' where "lb_round now (join (CHR '','') [p, s, u, t, k]) bal = (Stored r, bal')"
    "cache bal' = (cache bal)(nat (lr_quoteAddress r) :=
       \<lparr>q_price = Some p, q_sym = Some s, q_user = Some u, q_key = Some k, q_ts = now\<rparr>)"
    "queue_inv (lb_quotes bal')" "contents (lb_quotes bal') = rs"
proof -
  let ?rep = "join (CHR '','') [p, s, u, t, k]"
  obtain a q where d: "deq False (lb_quotes bal) = (Got a r, q)" "queue_inv (free_cell a q)" "contents (free_cell a q) = rs"
    by (rule deq_free [OF assms(1,2)])
  have "split_on (CHR '','') None ?rep = [p, s, u, t, k]"
    using assms(5) by (intro join_clean; simp add: NUL_def)
  then have f: "delimSep (Some ?rep) (CHR '','') = [p, s, u, t, k]"
    using delimSep_split [of ?rep "CHR '',''"] by simp
  have "(lr_quoteAddress r < 0 \<or> cache_size \<le> lr_quoteAddress r) = False" using assms(3,4) by simp
  then show thesis
    using that d unfolding lb_round_def lb_qdeq_def d(1) prod.case deq.case f by simp
qed

section \<open>The threads that ask the quote server\<close>

lemma trim_reply_text:
  assumes "is_cstr text" "text \<noteq> []" "last text \<noteq> CHR 0x0A" "length rep = 200" "length text < 198"
  shows "trim_reply (text @ [CHR 0x0A]) rep = Some (text @ NUL # drop (Suc (length text)) rep)"
proof -
  have buf: "overwrite rep 0 (text @ [CHR 0x0A]) = text @ CHR 0x0A # drop (Suc (length text)) rep"
    by (simp add: overwrite_def)
  have "(text @ CHR 0x0A # drop (Suc (length text)) rep) ! length text = CHR 0x0A" by simp
  moreover have "CHR 0x0A \<noteq> NUL" by (simp add: NUL_def)
  ultimately show ?thesis
    using assms(2,4,5) unfolding trim_reply_def buf Let_def by (simp add: list_update_append)
qed

text \<open>C28: A thread that receives a line from the quote server keeps it without its newline, whatever
  its buffer held, logs it with the transaction it was fetched for exactly when the first field is a
  price, and reports it when it gets the mutex.\<close>

theorem quote_line_kept:
  assumes "is_cstr text" "CHR '','' \<in> set text" "last text \<noteq> CHR 0x0A" "length (qt_reply th) = 200" "length text < 198"
    "is_cstr tid" "length (quoteLog now tid text) < 500"
  shows "\<exists>th' lq'. quote_iteration now tid won (Received (text @ [CHR 0x0A])) th lq = Some (th', lq', won) \<and>
    cstr_at (qt_reply th') 0 = text \<and> length (qt_reply th') = 200 \<and>
    lq' = (if str2price (Some (takeWhile (\<lambda>c. c \<noteq> CHR '','') text)) = - 1 then lq else snd (enq lq (quoteLog now tid text)))"
proof -
  let ?rep = "text @ NUL # drop (Suc (length text)) (qt_reply th)"
  have ne: "text \<noteq> []" using assms(2) by auto
  have t: "trim_reply (take 200 (text @ [CHR 0x0A])) (qt_reply th) = Some ?rep"
    using trim_reply_text [OF assms(1) ne assms(3-5)] assms(5) by simp
  have c: "cstr_at ?rep 0 = text" using text_at [OF assms(1), of "[]" 0] by simp
  have "takeWhile (\<lambda>c. c \<noteq> CHR '','') ?rep = takeWhile (\<lambda>c. c \<noteq> CHR '','') text"
    using assms(2) by (intro takeWhile_append1) auto
  then have p: "lb_str2price ?rep = Some (str2price (Some (takeWhile (\<lambda>c. c \<noteq> CHR '','') text)))"
    using assms(2) by (simp add: lb_str2price_def)
  show ?thesis
    using assms(4,5,7) unfolding quote_iteration_def quote_attempt.case t option.case Let_def p c
    by (simp add: lb_lenq_def c)
qed

lemma quote_line_kept_witness:
  "\<exists>th' lq'. quote_iteration 12 ''7'' True (Received (''10.00,ABC,u,1,k'' @ [CHR 0x0A]))
      \<lparr>qt_connected = True, qt_reply = replicate 200 (CHR '','')\<rparr> queue_init = Some (th', lq', True) \<and>
    cstr_at (qt_reply th') 0 = ''10.00,ABC,u,1,k'' \<and> length (qt_reply th') = 200 \<and>
    lq' = (if str2price (Some (takeWhile (\<lambda>c. c \<noteq> CHR '','') ''10.00,ABC,u,1,k'')) = - 1 then queue_init
           else snd (enq queue_init (quoteLog 12 ''7'' ''10.00,ABC,u,1,k'')))"
proof -
  have "length (quoteLog 12 ''7'' ''10.00,ABC,u,1,k'') < 500" by code_simp
  then show ?thesis by (intro quote_line_kept) (simp_all add: is_cstr_def NUL_def)
qed

end
