(* ===== verification/Quote_Path.thy ===== *)
theory Quote_Path
  imports Quotes Load_Balancer
begin

text \<open>
  A quote on its whole way: fetched by the load balancer, stored in its cache, asked for by a
  transaction server and stored in the server's stock. The two programs were written with
  formats of their own on both sides; the lemmas show that they agree.
\<close>

lemma quote_text_request: "quote_text tid cmd sid uid = request_text ''QCR'' tid cmd sid uid"
  by (simp add: quote_text_def request_text_def)

lemma fetch_text_request: "fetch_text (quote_text tid cmd sid uid) = request_text ''QNR'' tid cmd sid uid"
  by (simp add: quote_text_def fetch_text_def request_text_def)

lemma lb_text_reply:
  assumes "\<forall>f \<in> {p, s, u, k}. clean (CHR '','') f" "length k < 57"
    "length (join (CHR '','') [p, s, u, show_ullong now, k]) < 200"
  shows "\<exists>text. lb_send \<lparr>q_price = Some p, q_sym = Some s, q_user = Some u, q_key = Some k, q_ts = now\<rparr> = Reply text \<and>
    is_reply text p (show_ullong now) k"
proof -
  let ?text = "join (CHR '','') [p, s, u, show_ullong now, k]"
  have "clean (CHR '','') (show_ullong now)" by (simp add: show_ullong_def show_nat_clean)
  then have "is_reply ?text p (show_ullong now) k" using assms unfolding is_reply_def by blast
  moreover have "lb_send \<lparr>q_price = Some p, q_sym = Some s, q_user = Some u, q_key = Some k, q_ts = now\<rparr> = Reply ?text"
    using assms(3) by (simp add: lb_send_def lb_text_def Let_def)
  ultimately show ?thesis by blast
qed

lemma strtol10_ullong: "0 \<le> now \<Longrightarrow> now < 2 ^ 63 \<Longrightarrow> strtol10 (show_ullong now) = now"
  using strtol10_show_nat [of "nat now"] by (simp add: show_ullong_def)

text \<open>C23: End to end: a reply of the quote server that the load balancer stores at time \<open>now\<close> reaches a
  transaction server that asks for the same stock less than 28 seconds later: its stock gets the
  price of the reply, the time at which the balancer stored it and the key of the reply.\<close>

theorem quote_travels:
  assumes "queue_inv (lb_quotes bal)" "contents (lb_quotes bal) = r # rs" "lr_quoteAddress r = stock_address sid"
    "validStockID (Some sid)" "\<forall>f \<in> {p, s, u, t, key}. clean (CHR '','') f"
    "0 \<le> now" "now < 2 ^ 63" "now \<le> later" "later < now + 28000"
    "length key < 57" "length (join (CHR '','') [p, s, u, show_ullong now, key]) < 200"
    "lb_conn_ok cn" "\<forall>f \<in> {tid, cmd, uid}. clean (CHR ''|'') f" "length (quote_text tid cmd sid uid) < 200" "ready cl"
  shows "\<exists>bal' text cn'. lb_round now (join (CHR '','') [p, s, u, t, key]) bal = (Stored r, bal') \<and>
    lb_message later (quote_text tid cmd sid uid @ [NUL]) cn bal' = (Reply text, cn', bal') \<and>
    (\<exists>cl'. serve_quote 1 (quote_text tid cmd sid uid)
        (\<lambda>_. \<lparr>reach = Reached, sent = True, answer = Some (text @ [NUL])\<rparr>) i cl stk0 =
      Served cl' (stk0\<lparr>price := str2price (Some p), ts := now, quote_key := key\<rparr>) (Suc i))"
proof -
  let ?q = "\<lparr>q_price = Some p, q_sym = Some s, q_user = Some u, q_key = Some key, q_ts = now\<rparr>"
  note va = quoteAddress_valid(2,3) [OF assms(4)]
  obtain bal' where b: "lb_round now (join (CHR '','') [p, s, u, t, key]) bal = (Stored r, bal')"
      "cache bal' = (cache bal)(nat (stock_address sid) := ?q)"
    using lb_round_stores [OF assms(1,2) _ _ assms(5), of now] va assms(3) by metis
  have fresh: "is_fresh later (cache bal' (nat (stock_address sid)))"
    using assms(6-9) by (simp add: is_fresh_def b(2) lb_quoteTo_def s64_in_range)
  obtain msg where msg: "lb_send ?q = Reply msg" "is_reply msg p (show_ullong now) key"
    using lb_text_reply [of p s u key now] assms(5,10,11) by blast
  have len: "length (request_text ''QCR'' tid cmd sid uid) < 200" using assms(14) by (simp only: quote_text_request)
  have kind: "''QCR'' \<in> {''QCR'', ''QNR''}" by simp
  have "lb_expected later ''QCR'' tid sid uid bal' = (Reply msg, bal')"
    using fresh msg(1) by (simp add: lb_expected_def Let_def b(2))
  then obtain cn' where m: "lb_message later (quote_text tid cmd sid uid @ [NUL]) cn bal' = (Reply msg, cn', bal')"
    using lb_message_request [OF assms(12) kind assms(13,4) len, of later bal'] unfolding quote_text_request by auto
  define net :: "nat \<Rightarrow> attempt" where "net = (\<lambda>_. \<lparr>reach = Reached, sent = True, answer = Some (msg @ [NUL])\<rparr>)"
  have "answers_with (net i) (msg @ [NUL])" by (simp add: net_def answers_with_def)
  then have "\<exists>cl'. serve_quote 1 (quote_text tid cmd sid uid) net i cl stk0 =
        Served cl' (stk0\<lparr>price := str2price (Some p), ts := now, quote_key := key\<rparr>) (Suc i)"
    using serve_cached [where net = net and k = i and m = 0 and s = stk0, OF assms(15) _ msg(2)] assms(6,7)
    by (simp only: One_nat_def quoted_stock_def strtol10_ullong) metis
  with b(1) m show ?thesis unfolding net_def by blast
qed

definition sample_fetching :: balancer where
  "sample_fetching = balancer_init\<lparr>lb_quotes := snd (lb_qenq queue_init ''ABC,u'' 6 ''7'' (stock_address ''ABC''))\<rparr>"

lemma quote_travels_witness:
  "\<exists>bal' text cn'. lb_round 1000000 (join (CHR '','') [''10.00'', ''ABC'', ''u'', ''999'', ''k3y='']) sample_fetching =
      (Stored \<lparr>lr_request = ''ABC,u'', lr_requestLen = 6, lr_transID = ''7'', lr_quoteAddress = stock_address ''ABC''\<rparr>, bal') \<and>
    lb_message 1020000 (quote_text ''8'' ''BUY'' ''ABC'' ''v'' @ [NUL]) (lb_conn_init (replicate 200 NUL)) bal' = (Reply text, cn', bal') \<and>
    (\<exists>cl'. serve_quote 1 (quote_text ''8'' ''BUY'' ''ABC'' ''v'')
        (\<lambda>_. \<lparr>reach = Reached, sent = True, answer = Some (text @ [NUL])\<rparr>) 0
        (lb_init (replicate 200 (CHR ''x''))) (new_stock ''ABC'') =
      Served cl' ((new_stock ''ABC'')\<lparr>price := str2price (Some ''10.00''), ts := 1000000, quote_key := ''k3y=''\<rparr>) (Suc 0))"
proof (rule quote_travels)
  have i: "queue_inv (queue_init :: lb_request queue)" "contents (queue_init :: lb_request queue) = []"
    using queue_inv_init by blast+
  show "queue_inv (lb_quotes sample_fetching)" "contents (lb_quotes sample_fetching) =
      [\<lparr>lr_request = ''ABC,u'', lr_requestLen = 6, lr_transID = ''7'', lr_quoteAddress = stock_address ''ABC''\<rparr>]"
    using queue_inv_enq [OF i(1)] i(2) by (simp_all add: sample_fetching_def lb_qenq_def)
  show "validStockID (Some ''ABC'')" by code_simp
  have "length (show_ullong 1000000) \<le> 7" using length_show_nat [of 1000000 7] by (simp add: show_ullong_def)
  then show "length (join (CHR '','') [''10.00'', ''ABC'', ''u'', show_ullong 1000000, ''k3y='']) < 200" by simp
  show "ready (lb_init (replicate 200 (CHR ''x'')))" by (rule sample_client)
qed (auto simp: lb_conn_ok_def lb_conn_init_def clean_def is_cstr_def NUL_def quote_text_def)

end
