(* ===== verification/Log_Server.thy ===== *)
theory Log_Server
  imports C_Queue C_Buffer
begin

text \<open>
  The log server (\<open>logServer.c\<close>): connection threads put the received lines into a queue, one
  thread takes them from it, turns each into an event of the XML tree under \<open>log\<close>, and writes
  the tree to the log file on a DUMPLOG or when 65536 lines have gathered; a DUMPLOG of a user
  writes the user's events to a file of their own. The XML library is outside: the tree is a list
  of events with their child elements, and what \<open>mxmlSaveString\<close> makes of the whole tree or of
  one event is a parameter. The \<open>logSep\<close> cells of an earlier line point into freed memory, so a
  cell the current line does not set counts as missing.
\<close>

section \<open>Events\<close>

text \<open>An element below \<open>log\<close> with its children, each an element around a text.\<close>

datatype event = Event string "(string \<times> string) list"

text \<open>A child that is left out when its text starts with a blank.\<close>

definition opt_child :: "string \<Rightarrow> string \<Rightarrow> (string \<times> string) list" where
  "opt_child tag s = (if take 1 s = '' '' then [] else [(tag, s)])"

text \<open>The children that four kinds of events share: cells 1 to 8.\<close>

definition command_children :: "string list \<Rightarrow> (string \<times> string) list" where
  "command_children fs =
     [(''timestamp'', fs ! 1), (''server'', fs ! 2), (''transactionNum'', fs ! 3), (''command'', fs ! 4)] @
     opt_child ''username'' (fs ! 5) @ opt_child ''stockSymbol'' (fs ! 6) @
     opt_child ''filename'' (fs ! 7) @ opt_child ''funds'' (fs ! 8)"

definition userCommand :: "string list \<Rightarrow> event" where
  "userCommand fs = Event ''userCommand'' (command_children fs)"

definition quoteServer :: "string list \<Rightarrow> event" where
  "quoteServer fs = Event ''quoteServer''
     [(''timestamp'', fs ! 1), (''server'', fs ! 2), (''transactionNum'', fs ! 3), (''price'', fs ! 4),
      (''stockSymbol'', fs ! 5), (''username'', fs ! 6), (''quoteServerTime'', fs ! 7), (''cryptokey'', fs ! 8)]"

definition accountTransaction :: "string list \<Rightarrow> event" where
  "accountTransaction fs = Event ''accountTransaction''
     [(''timestamp'', fs ! 1), (''server'', fs ! 2), (''transactionNum'', fs ! 3), (''action'', fs ! 4),
      (''username'', fs ! 5), (''funds'', fs ! 6)]"

definition systemEvent :: "string list \<Rightarrow> event" where
  "systemEvent fs = Event ''systemEvent'' (command_children fs)"

definition errorEvent :: "string list \<Rightarrow> event" where
  "errorEvent fs = Event ''errorEvent'' (command_children fs @ opt_child ''errorMessage'' (fs ! 9))"

definition debugEvent :: "string list \<Rightarrow> event" where
  "debugEvent fs = Event ''debugEvent'' (command_children fs @ opt_child ''debugMessage'' (fs ! 9))"

text \<open>
  The dispatch on the first field: an event to add, a dump of the tree or of a user, an unknown
  type, or an access to a cell that is missing.
\<close>

datatype log_effect = Add event | Dump_all string | Dump_user string string | Unknown | Missing

definition needs :: "nat \<Rightarrow> string list \<Rightarrow> (string list \<Rightarrow> event) \<Rightarrow> log_effect" where
  "needs n fs ev = (if n \<le> length fs then Add (ev fs) else Missing)"

definition log_action :: "string list \<Rightarrow> log_effect" where
  "log_action fs =
     (let kind = fs ! 0
      in if kind = ''userCmd'' then needs 9 fs userCommand
         else if kind = ''quote'' then needs 9 fs quoteServer
         else if kind = ''accTrans'' then needs 7 fs accountTransaction
         else if kind = ''system'' then needs 9 fs systemEvent
         else if kind = ''error'' then needs 10 fs errorEvent
         else if kind = ''debug'' then needs 10 fs debugEvent
         else if kind = ''DUMPLOG'' then
           (if length fs < 2 then Missing
            else if take 1 (fs ! 1) = ''.'' \<or> take 1 (fs ! 1) = ''/'' then Dump_all (fs ! 1)
            else if length fs < 3 then Missing else Dump_user (fs ! 1) (fs ! 2))
         else Unknown)"

section \<open>The server\<close>

definition logOut :: string where "logOut = ''logfile6.xml''"

definition logStart :: string where
  "logStart = ''<?xml version='' @ [CHR 0x22] @ ''1.0'' @ [CHR 0x22] @ '' encoding='' @ [CHR 0x22] @ ''utf-8'' @
     [CHR 0x22] @ ''?><log>''"

definition logEnd :: string where "logEnd = ''</log>'' @ [CHR 0x0A]"

record log_server =
  ls_queue :: "string queue"
  ls_root :: "event list"
  ls_count :: int
  ls_last :: int
  ls_files :: "string \<rightharpoonup> string"
  ls_fault :: bool

text \<open>The start of \<open>log_handler\<close> at time \<open>now\<close>: a log file without events.\<close>

definition log_server_init :: "int \<Rightarrow> log_server" where
  "log_server_init now = \<lparr>ls_queue = queue_init, ls_root = [], ls_count = 0, ls_last = now,
     ls_files = [logOut \<mapsto> logStart @ logEnd], ls_fault = False\<rparr>"

text \<open>\<open>mxmlSaveString\<close> on the tree and on an event, and whether a file can be opened.\<close>

record xml_env =
  save_root :: "event list \<Rightarrow> string"
  save_event :: "event \<Rightarrow> string"
  can_open :: "string \<Rightarrow> bool"

definition ls_delimSepNoCpy :: "string option \<Rightarrow> char \<Rightarrow> string \<times> nat list" where
  "ls_delimSepNoCpy inp delim =
     (case inp of
        None \<Rightarrow> ([], [])
      | Some s \<Rightarrow> if length s = 0 then (s @ [NUL], [])
                  else delim_loop delim None (length s) 0 0 (s @ [NUL]) [])"

definition ls_lenq :: "string queue \<Rightarrow> string \<Rightarrow> nat \<Rightarrow> string queue option" where
  "ls_lenq q str strsize = (if length str + 1 \<le> strsize then Some (snd (enq q str)) else None)"

definition ls_ldeq :: "string queue \<Rightarrow> string deq \<times> string queue" where
  "ls_ldeq q = deq True q"

text \<open>A connection thread: the string in its buffer of 500 bytes, with room for the received bytes; the reply.\<close>

definition ls_receive :: "string \<Rightarrow> string \<Rightarrow> string queue \<Rightarrow> (string \<times> string queue \<times> string) option" where
  "ls_receive bytes buf q =
     (let buf = overwrite buf 0 (take 500 bytes)
      in if NUL \<notin> set buf then None
         else map_option (\<lambda>q. (buf, q, ''REC'')) (ls_lenq q (cstr_at buf 0) (length (take 500 bytes))))"

text \<open>
  Appending the tree to the log file, over the end tag in its last seven bytes; the start tag of
  the saved tree is skipped. Afterwards the tree is empty.
\<close>

definition flush_log :: "xml_env \<Rightarrow> log_server \<Rightarrow> log_server" where
  "flush_log e st =
     (if can_open e logOut then
        (case ls_files st logOut of
           None \<Rightarrow> st
         | Some old \<Rightarrow>
             st\<lparr>ls_files := (ls_files st)(logOut \<mapsto>
                  overwrite old (length old - 7) (drop 5 (save_root e (ls_root st)))),
                ls_root := [], ls_count := 0\<rparr>)
      else st)"

text \<open>The loop over the \<open>username\<close> elements of the tree: the events of a user, each saved without its last character.\<close>

fun user_events :: "xml_env \<Rightarrow> string \<Rightarrow> event list \<Rightarrow> string" where
  "user_events e u [] = []"
| "user_events e u (ev # evs) =
     (case ev of Event name cs \<Rightarrow>
        (case map_of cs ''username'' of
           None \<Rightarrow> user_events e u evs
         | Some v \<Rightarrow> if v = u then butlast (save_event e ev) @ user_events e u evs else user_events e u evs))"

definition dump_user :: "xml_env \<Rightarrow> string \<Rightarrow> string \<Rightarrow> log_server \<Rightarrow> log_server" where
  "dump_user e u file st =
     (if can_open e file
      then st\<lparr>ls_files := (ls_files st)(file \<mapsto> logStart @ user_events e u (ls_root st) @ logEnd)\<rparr>
      else st)"

text \<open>The end of an iteration: the tree is written when more than 65536 lines have been counted.\<close>

definition check_count :: "xml_env \<Rightarrow> log_server \<Rightarrow> log_server" where
  "check_count e st = (if ls_count st > 0x10000 then flush_log e st else st)"

text \<open>
  A non-empty line at time \<open>now\<close>. A DUMPLOG that follows a user command by less than three
  seconds goes to the end of the queue again.
\<close>

definition log_line_step :: "xml_env \<Rightarrow> int \<Rightarrow> string list \<Rightarrow> log_server \<Rightarrow> log_server" where
  "log_line_step e now fs st =
     (let st1 = st\<lparr>ls_count := ls_count st + 1\<rparr>
      in case log_action fs of
           Missing \<Rightarrow> st\<lparr>ls_fault := True\<rparr>
         | Add ev \<Rightarrow>
             check_count e (st1\<lparr>ls_root := ls_root st @ [ev], ls_last := (if fs ! 0 = ''userCmd'' then now else ls_last st)\<rparr>)
         | Dump_all file \<Rightarrow>
             if s64 (now - ls_last st) < 3000 then
               (case ls_lenq (ls_queue st) (''DUMPLOG,'' @ file) (length (''DUMPLOG,'' @ file) + 1) of
                  None \<Rightarrow> st\<lparr>ls_fault := True\<rparr>
                | Some q \<Rightarrow> st\<lparr>ls_queue := q\<rparr>)
             else check_count e (flush_log e st1)
         | Dump_user u file \<Rightarrow> check_count e (dump_user e u file st1)
         | Unknown \<Rightarrow> check_count e st1)"

text \<open>One iteration of the thread; \<open>None\<close> while it waits. More than ten fields overflow \<open>logSep\<close>.\<close>

definition log_step :: "xml_env \<Rightarrow> int \<Rightarrow> log_server \<Rightarrow> log_server option" where
  "log_step e now st =
     (case ls_ldeq (ls_queue st) of
        (Blocked, _) \<Rightarrow> None
      | (Null, q) \<Rightarrow> Some (st\<lparr>ls_queue := q\<rparr>)
      | (Got a line, q) \<Rightarrow>
          (let st = st\<lparr>ls_queue := q\<rparr>; fs = tokens (ls_delimSepNoCpy (Some line) (CHR '',''))
           in Some (if fs = [] then st
                    else if 10 < length fs then st\<lparr>ls_fault := True\<rparr>
                    else log_line_step e now fs st)))"

section \<open>Lines\<close>

lemma ls_split: "ls_delimSepNoCpy = delimSepNoCpy"
  by (intro ext) (simp add: ls_delimSepNoCpy_def delimSepNoCpy_def)

lemma ls_fields:
  assumes "fs \<noteq> []" "\<forall>f \<in> set fs. clean (CHR '','') f" "join (CHR '','') fs \<noteq> []"
  shows "tokens (ls_delimSepNoCpy (Some (join (CHR '','') fs)) (CHR '','')) = fs"
proof -
  note j = join_clean [OF assms(1,2)]
  have "tokens (delimSepNoCpy (Some (join (CHR '','') fs)) (CHR '','')) = split_on (CHR '','') None (join (CHR '','') fs)"
    by (intro delimSepNoCpy_tokens j assms(3)) (simp_all add: NUL_def)
  then show ?thesis using j by (simp add: ls_split NUL_def)
qed

lemma ls_receive_line:
  assumes "is_cstr line" "length line < 500" "length buf = 500"
  shows "\<exists>buf'. ls_receive (line @ [NUL]) buf q = Some (buf', snd (enq q line), ''REC'') \<and> length buf' = 500"
proof -
  have ov: "overwrite buf 0 (take 500 (line @ [NUL])) = line @ NUL # drop (Suc (length line)) buf"
    using assms(2) by (simp add: overwrite_def)
  have "cstr_at (line @ NUL # drop (Suc (length line)) buf) 0 = line" using text_at [OF assms(1), of "[]" 0] by simp
  then show ?thesis
    unfolding ls_receive_def ov Let_def using assms(2,3) by (simp add: ls_lenq_def)
qed

lemma log_step_line:
  assumes "queue_inv (ls_queue st)" "contents (ls_queue st) = join (CHR '','') fs # ls"
    "fs \<noteq> []" "\<forall>f \<in> set fs. clean (CHR '','') f" "join (CHR '','') fs \<noteq> []" "length fs \<le> 10"
  obtains q where "log_step e now st = Some (log_line_step e now fs (st\<lparr>ls_queue := q\<rparr>))" "queue_inv q" "contents q = ls"
proof -
  obtain q where q: "ls_ldeq (ls_queue st) = (Got (q_start (ls_queue st)) (join (CHR '','') fs), q)" "queue_inv q" "contents q = ls"
    using queue_inv_deq [OF assms(1,2), of True] unfolding ls_ldeq_def by (metis prod.collapse)
  have "log_step e now st = Some (log_line_step e now fs (st\<lparr>ls_queue := q\<rparr>))"
    using assms(3,6) by (simp add: log_step_def q(1) ls_fields [OF assms(3-5)])
  with q that show thesis by blast
qed

section \<open>The log file\<close>

lemma length_logEnd: "length logEnd = 7" "length logStart = 43"
  by (simp_all add: logEnd_def logStart_def)

definition file_of :: "(event list \<Rightarrow> string) \<Rightarrow> event list list \<Rightarrow> string" where
  "file_of body batches = logStart @ concat (map body batches) @ logEnd"

text \<open>
  The documented form of a saved tree that is not empty: its events between the tags of the root,
  and a newline. \<open>log_inv all st\<close>: the file consists of the batches written so far, and these
  batches and the tree together are the events \<open>all\<close>.
\<close>

definition saves_with :: "xml_env \<Rightarrow> (event list \<Rightarrow> string) \<Rightarrow> bool" where
  "saves_with e body \<longleftrightarrow> (\<forall>evs. evs \<noteq> [] \<longrightarrow> save_root e evs = ''<log>'' @ body evs @ logEnd)"

definition log_inv :: "(event list \<Rightarrow> string) \<Rightarrow> event list \<Rightarrow> log_server \<Rightarrow> bool" where
  "log_inv body all st \<longleftrightarrow> (\<exists>batches. ls_files st logOut = Some (file_of body batches) \<and> concat batches @ ls_root st = all)"

lemma flush_inv:
  assumes "saves_with e body" "log_inv body all st" "ls_root st \<noteq> []"
  shows "log_inv body all (flush_log e st)" "can_open e logOut \<Longrightarrow> ls_root (flush_log e st) = []"
proof -
  obtain bs where bs: "ls_files st logOut = Some (file_of body bs)" "concat bs @ ls_root st = all"
    using assms(2) unfolding log_inv_def by blast
  have "overwrite (file_of body bs) (length (file_of body bs) - 7) (drop 5 (save_root e (ls_root st))) =
      file_of body (bs @ [ls_root st])"
    using assms(1,3) by (simp add: saves_with_def file_of_def overwrite_def length_logEnd)
  with bs show "log_inv body all (flush_log e st)"
    unfolding log_inv_def by (intro exI [of _ "if can_open e logOut then bs @ [ls_root st] else bs"]) (simp add: flush_log_def)
  show "ls_root (flush_log e st) = []" if "can_open e logOut" using bs(1) that by (simp add: flush_log_def)
qed

definition added :: "log_effect \<Rightarrow> event list" where
  "added a = (case a of Add ev \<Rightarrow> [ev] | _ \<Rightarrow> [])"

lemma log_inv_cong:
  "ls_files st' = ls_files st \<Longrightarrow> ls_root st' = ls_root st \<Longrightarrow> log_inv body all st' = log_inv body all st"
  by (simp add: log_inv_def)

lemma check_count_inv:
  assumes "saves_with e body" "log_inv body all st" "ls_root st \<noteq> [] \<or> ls_count st \<le> 0x10000"
  shows "log_inv body all (check_count e st)" "ls_fault (check_count e st) = ls_fault st"
  using flush_inv(1) [OF assms(1,2)] assms(2,3)
  by (auto simp: check_count_def flush_log_def split: option.split)

lemma flush_log_frame:
  "ls_fault (flush_log e st) = ls_fault st"
  "ls_count (flush_log e st) \<le> 0x10000 \<or> flush_log e st = st"
  by (auto simp: flush_log_def split: option.split)


definition sample_xml :: xml_env where
  "sample_xml = \<lparr>save_root = (\<lambda>evs. if evs = [] then ''<log />'' @ [CHR 0x0A]
       else ''<log>'' @ concat (map (\<lambda>ev. case ev of Event name cs \<Rightarrow> ''<'' @ name @ ''/>'') evs) @ logEnd),
     save_event = (\<lambda>ev. case ev of Event name cs \<Rightarrow> ''<'' @ name @ ''/>'' @ [CHR 0x0A]), can_open = (\<lambda>_. True)\<rparr>"

definition sample_log :: log_server where
  "sample_log = (log_server_init 0)\<lparr>ls_queue := snd (enq queue_init ''DUMPLOG,./out''), ls_root := [Event ''debugEvent'' []]\<rparr>"


text \<open>Dumping an empty tree spoils the log file: the library prints an element without children as
  one empty tag, of which the end is written over the start of the end tag.\<close>

theorem empty_dump_corrupts:
  assumes "save_root e [] = ''<log />'' @ [CHR 0x0A]" "can_open e logOut"
  shows "ls_files (flush_log e (log_server_init now)) logOut = Some (logStart @ ''/>'' @ [CHR 0x0A] @ ''og>'' @ [CHR 0x0A])"
  using assms by (simp add: flush_log_def log_server_init_def overwrite_def length_logEnd logEnd_def)

lemma empty_dump_corrupts_witness:
  "ls_files (flush_log sample_xml (log_server_init 0)) logOut = Some (logStart @ ''/>'' @ [CHR 0x0A] @ ''og>'' @ [CHR 0x0A])"
  by (rule empty_dump_corrupts) (simp_all add: sample_xml_def)

end
