(* ===== verification/Log_Path.thy ===== *)
theory Log_Path
  imports Server_State Load_Balancer Log_Server
begin

text \<open>
  The log lines on their whole way: written by the transaction server and by the load balancer
  with formats of their own, sent to the log server, received, cut apart and made into events.
\<close>

section \<open>The entries\<close>

text \<open>What the servers log, the line they write, and the event it should become.\<close>

datatype entry =
    User_cmd int string string string string string string
  | Acc_trans int string string string string
  | Quote_line int string string string string string string

fun entry_text :: "entry \<Rightarrow> string" where
  "entry_text (User_cmd now tid cmd uid sid file funds) = userCmdLog now tid cmd uid sid file funds"
| "entry_text (Acc_trans now tid action uid funds) = accTransLog now tid action uid funds"
| "entry_text (Quote_line now tid prc sid uid qts key) = quoteLog now tid (join (CHR '','') [prc, sid, uid, qts, key])"

fun entry_event :: "entry \<Rightarrow> event" where
  "entry_event (User_cmd now tid cmd uid sid file funds) = Event ''userCommand''
     ([(''timestamp'', show_long now), (''server'', ''TRAN1''), (''transactionNum'', tid), (''command'', cmd)] @
      opt_child ''username'' uid @ opt_child ''stockSymbol'' sid @ opt_child ''filename'' file @ opt_child ''funds'' funds)"
| "entry_event (Acc_trans now tid action uid funds) = Event ''accountTransaction''
     [(''timestamp'', show_long now), (''server'', ''TRAN1''), (''transactionNum'', tid), (''action'', action),
      (''username'', uid), (''funds'', funds)]"
| "entry_event (Quote_line now tid prc sid uid qts key) = Event ''quoteServer''
     [(''timestamp'', show_long now), (''server'', ''LOAD1''), (''transactionNum'', tid), (''price'', prc),
      (''stockSymbol'', sid), (''username'', uid), (''quoteServerTime'', qts), (''cryptokey'', key)]"

fun entry_fields :: "entry \<Rightarrow> string list" where
  "entry_fields (User_cmd now tid cmd uid sid file funds) =
     [''userCmd'', show_long now, ''TRAN1'', tid, cmd, uid, sid, file, funds]"
| "entry_fields (Acc_trans now tid action uid funds) = [''accTrans'', show_long now, ''TRAN1'', tid, action, uid, funds]"
| "entry_fields (Quote_line now tid prc sid uid qts key) =
     [''quote'', show_long now, ''LOAD1'', tid, prc, sid, uid, qts, key]"

text \<open>The variable parts of an entry have no comma and no NUL.\<close>

definition entry_ok :: "entry \<Rightarrow> bool" where
  "entry_ok en \<longleftrightarrow> (\<forall>f \<in> set (drop 3 (entry_fields en)). clean (CHR '','') f) \<and> length (entry_text en) < 500"

lemma commas_join: "commas fs = join (CHR '','') fs"
proof (cases fs)
  case (Cons f gs)
  have "f @ concat (map (\<lambda>g. CHR '','' # g) gs) = join (CHR '','') (f # gs)"
  proof (induction gs arbitrary: f)
    case (Cons g gs)
    have "g @ concat (map (\<lambda>g. CHR '','' # g) gs) = join (CHR '','') (g # gs)" by (rule Cons.IH)
    then show ?case by simp
  qed simp
  with Cons show ?thesis by (simp add: commas_def)
qed (simp add: commas_def)

lemma entry_joined: "entry_text en = join (CHR '','') (entry_fields en)"
  by (cases en) (simp_all add: userCmdLog_def accTransLog_def quoteLog_def commas_join serverName_def)

lemma show_long_clean: "clean (CHR '','') (show_long n)"
  using show_nat_clean by (auto simp: show_long_def clean_def NUL_def)

lemma entry_clean: "entry_ok en \<Longrightarrow> f \<in> set (entry_fields en) \<Longrightarrow> clean (CHR '','') f"
  using show_long_clean by (cases en) (auto simp: entry_ok_def clean_def is_cstr_def NUL_def)

lemma entry_action: "log_action (entry_fields en) = Add (entry_event en)"
  by (cases en) (simp_all add: log_action_def needs_def userCommand_def command_children_def accountTransaction_def quoteServer_def)

text \<open>C37: A line of the transaction server or of the load balancer that reaches the log server with its
  NUL is acknowledged and becomes the event of its kind: time, server and transaction in their
  elements, every other field under its own name, and the blank fields of a user command left out.\<close>

theorem entries_become_events:
  assumes "entry_ok en" "length buf = 500" "queue_inv (ls_queue st)" "contents (ls_queue st) = []" "ls_count st < 0x10000"
  shows "\<exists>buf' q st'. ls_receive (entry_text en @ [NUL]) buf (ls_queue st) = Some (buf', q, ''REC'') \<and>
    log_step e now (st\<lparr>ls_queue := q\<rparr>) = Some st' \<and> ls_root st' = ls_root st @ [entry_event en] \<and>
    contents (ls_queue st') = [] \<and> ls_files st' = ls_files st \<and> ls_fault st' = ls_fault st"
proof -
  let ?fs = "entry_fields en" and ?line = "entry_text en"
  have fs: "?fs \<noteq> []" "length ?fs \<le> 10" "join (CHR '','') ?fs \<noteq> []" by (cases en; simp)+
  have cl: "\<forall>f \<in> set ?fs. clean (CHR '','') f" using entry_clean [OF assms(1)] by blast
  have "is_cstr ?line" unfolding entry_joined using join_clean(1) [OF fs(1) cl] by (simp add: NUL_def)
  then obtain buf' where r: "ls_receive (?line @ [NUL]) buf (ls_queue st) = Some (buf', snd (enq (ls_queue st) ?line), ''REC'')"
    using ls_receive_line [OF _ _ assms(2), of ?line "ls_queue st"] assms(1) by (auto simp: entry_ok_def)
  let ?q = "snd (enq (ls_queue st) ?line)"
  have q: "queue_inv (ls_queue (st\<lparr>ls_queue := ?q\<rparr>))"
    "contents (ls_queue (st\<lparr>ls_queue := ?q\<rparr>)) = join (CHR '','') ?fs # []"
    using queue_inv_enq [OF assms(3), of ?line] assms(4) by (simp_all add: entry_joined)
  obtain q' where s: "log_step e now (st\<lparr>ls_queue := ?q\<rparr>) = Some (log_line_step e now ?fs (st\<lparr>ls_queue := ?q\<rparr>\<lparr>ls_queue := q'\<rparr>))"
      "contents q' = []"
    by (rule log_step_line [OF q fs(1) cl fs(3,2)])
  have "ls_root (log_line_step e now ?fs (st\<lparr>ls_queue := q'\<rparr>)) = ls_root st @ [entry_event en] \<and>
      ls_queue (log_line_step e now ?fs (st\<lparr>ls_queue := q'\<rparr>)) = q' \<and>
      ls_files (log_line_step e now ?fs (st\<lparr>ls_queue := q'\<rparr>)) = ls_files st \<and>
      ls_fault (log_line_step e now ?fs (st\<lparr>ls_queue := q'\<rparr>)) = ls_fault st"
    using assms(5) by (simp add: log_line_step_def entry_action check_count_def)
  with r s show ?thesis by simp
qed

lemma entries_become_events_witness:
  "\<exists>buf' q st'. ls_receive (entry_text (User_cmd 5 ''7'' ''ADD'' ''u1'' spc spc ''10.00'') @ [NUL]) (replicate 500 (CHR ''x''))
      (ls_queue (log_server_init 0)) = Some (buf', q, ''REC'') \<and>
    log_step sample_xml 5 ((log_server_init 0)\<lparr>ls_queue := q\<rparr>) = Some st' \<and>
    ls_root st' = ls_root (log_server_init 0) @ [entry_event (User_cmd 5 ''7'' ''ADD'' ''u1'' spc spc ''10.00'')] \<and>
    contents (ls_queue st') = [] \<and> ls_files st' = ls_files (log_server_init 0) \<and> ls_fault st' = ls_fault (log_server_init 0)"
proof (rule entries_become_events)
  have "length (entry_text (User_cmd 5 ''7'' ''ADD'' ''u1'' spc spc ''10.00'')) < 500" by code_simp
  then show "entry_ok (User_cmd 5 ''7'' ''ADD'' ''u1'' spc spc ''10.00'')"
    by (simp add: entry_ok_def clean_def is_cstr_def NUL_def spc_def)
qed (use queue_inv_init in \<open>auto simp: log_server_init_def\<close>)

end
