(* ===== verification/Workload.thy ===== *)
theory Workload
  imports C_Queue C_Buffer
begin

text \<open>
  The workload generator (\<open>Workload.c\<close>): \<open>main\<close> reads the command file line by line, makes the
  message of each command and puts it into the queue of one of 50 sender threads, chosen by the
  user's identifier; a sender transmits its messages one by one, each after the reply to the one
  before, until it finds the end marker.
\<close>

section \<open>Queues\<close>

text \<open>An element without a string (\<open>comm\<close> NULL) is the end marker; \<open>None\<close> is an overflow of the copy.\<close>

definition wl_cenq :: "(string option \<times> nat) queue \<Rightarrow> string option \<Rightarrow> nat \<Rightarrow> (string option \<times> nat) queue option" where
  "wl_cenq q co commLen =
     (case co of
        None \<Rightarrow> Some (snd (enq q (None, commLen)))
      | Some s \<Rightarrow> if length s + 1 \<le> commLen then Some (snd (enq q (Some s, commLen))) else None)"

text \<open>The end marker is unlinked as well, and NULL returned.\<close>

definition wl_cdeq :: "(string option \<times> nat) queue \<Rightarrow> (string \<times> nat) deq \<times> (string option \<times> nat) queue" where
  "wl_cdeq q =
     (case deq False q of
        (Got a (Some s, n), q) \<Rightarrow> (Got a (s, n), q)
      | (Got a (None, n), q) \<Rightarrow> (Null, q)
      | (Blocked, q) \<Rightarrow> (Blocked, q)
      | (Null, q) \<Rightarrow> (Null, q))"

section \<open>Reading the command file\<close>

record workload =
  wl_op :: string
  wl_sep :: "nat option list"
  wl_transID :: int
  wl_queues :: "nat \<Rightarrow> (string option \<times> nat) queue"

definition workload_init :: "string \<Rightarrow> workload" where
  "workload_init buf = \<lparr>wl_op = buf, wl_sep = replicate 4 None, wl_transID = 1, wl_queues = (\<lambda>_. queue_init)\<rparr>"

definition wl_cell :: "string \<Rightarrow> nat option list \<Rightarrow> nat \<Rightarrow> string option" where
  "wl_cell buf ptrs k = map_option (cstr_at buf) (Option.bind (nth_opt ptrs k) id)"

text \<open>
  The line in the buffer without its newline and one blank; \<open>None\<close> when it is empty before one
  of the tests, which then reads before the buffer. (The test for a NUL before the end of the
  string never holds.)
\<close>

definition wl_trim :: "string \<Rightarrow> string \<Rightarrow> string option" where
  "wl_trim line buf =
     (let buf = overwrite buf 0 (line @ [NUL]); n = length line
      in if n = 0 then None
         else
           (let n = (if buf ! (n - 1) = CHR 0x0A then n - 1 else n)
            in if n = 0 then None
               else Some (buf[if buf ! (n - 1) = CHR '' '' then n - 1 else n := NUL])))"

text \<open>The line is cut at its blanks into cells 0 to 2, then cell 1 at its commas into cells 1 to 3.\<close>

definition wl_split :: "string \<Rightarrow> nat option list \<Rightarrow> (string \<times> nat option list) option" where
  "wl_split buf ptrs =
     (let ptrs = ptrs[3 := None];
          (buf, ps) = cut_at (\<lambda>s. wl_delimSepNoCpy s (CHR '' '')) buf (Some 0)
      in case store_from 0 ps ptrs of
           None \<Rightarrow> None
         | Some ptrs \<Rightarrow>
             (let (buf, ps) = cut_at (\<lambda>s. wl_delimSepNoCpy s (CHR '','')) buf (Option.bind (nth_opt ptrs 1) id)
              in map_option (Pair buf) (store_from 1 ps ptrs)))"

text \<open>
  One line, as \<open>fgets\<close> returned it: at most 99 characters, the newline included. \<open>None\<close> for a line
  without a user (\<open>userSort\<close> returns -1, an index before \<open>cList\<close>) or without a command.
\<close>

definition wl_line :: "string \<Rightarrow> workload \<Rightarrow> workload option" where
  "wl_line line st =
     (case wl_trim line (wl_op st) of
        None \<Rightarrow> None
      | Some buf \<Rightarrow>
          (case wl_split buf (wl_sep st) of
             None \<Rightarrow> None
           | Some (buf, ptrs) \<Rightarrow>
               (let userID = wl_cell buf ptrs 2; i = wl_userSort userID
                in case (wl_cell buf ptrs 1, userID) of
                     (Some cmd, Some uid) \<Rightarrow>
                       if i < 0 \<or> NUM_THREADS \<le> i then None
                       else
                         (let message = wsc_text (show_long (wl_transID st)) cmd uid (wl_cell buf ptrs 3)
                          in map_option
                               (\<lambda>q. \<lparr>wl_op = buf, wl_sep = ptrs, wl_transID = wl_transID st + 1,
                                      wl_queues = (wl_queues st)(nat i := q)\<rparr>)
                               (wl_cenq (wl_queues st (nat i)) (Some message) (length message + 1)))
                   | _ \<Rightarrow> None)))"

fun wl_lines :: "string list \<Rightarrow> workload \<Rightarrow> workload option" where
  "wl_lines [] st = Some st"
| "wl_lines (l # ls) st = (case wl_line l st of None \<Rightarrow> None | Some st \<Rightarrow> wl_lines ls st)"

text \<open>The end of \<open>main\<close>: an end marker into every queue.\<close>

definition wl_finish :: "workload \<Rightarrow> workload" where
  "wl_finish st = st\<lparr>wl_queues := (\<lambda>i. if int i < NUM_THREADS then snd (enq (wl_queues st i) (None, 0)) else wl_queues st i)\<rparr>"

section \<open>Sending\<close>

datatype sender = Sender_done | Sender_waits | Sender_dies

text \<open>
  A sender thread: \<open>net k\<close> says whether \<open>send\<close> and \<open>recv\<close> succeed on message \<open>k\<close>. It ends at the end
  marker, dies on the first failure, waits on an empty queue; the bound is on the messages.
\<close>

fun comm_handler :: "nat \<Rightarrow> (nat \<Rightarrow> bool \<times> bool) \<Rightarrow> nat \<Rightarrow> (string option \<times> nat) queue \<Rightarrow> string list \<times> sender" where
  "comm_handler 0 net k q = ([], Sender_waits)"
| "comm_handler (Suc n) net k q =
     (case wl_cdeq q of
        (Blocked, q) \<Rightarrow> ([], Sender_waits)
      | (Null, q) \<Rightarrow> ([], Sender_done)
      | (Got a (s, len), q) \<Rightarrow>
          if \<not> fst (net k) then ([], Sender_dies)
          else if \<not> snd (net k) then ([s], Sender_dies)
          else apfst ((#) s) (comm_handler n net (Suc k) (free_cell a q)))"

section \<open>A line becomes a message\<close>

text \<open>A line of the command file: number, command, user, further arguments.\<close>

definition line_text :: "string \<Rightarrow> string \<Rightarrow> string \<Rightarrow> string option \<Rightarrow> string" where
  "line_text n cmd uid co =
     n @ '' '' @ cmd @ '','' @ uid @ (case co of None \<Rightarrow> [] | Some a \<Rightarrow> CHR '','' # a) @ [CHR 0x0A]"

definition word :: "string \<Rightarrow> bool" where
  "word s \<longleftrightarrow> s \<noteq> [] \<and> is_cstr s \<and> set s \<inter> {CHR '' '', CHR '','', CHR 0x0A} = {}"

definition line_ok :: "string \<Rightarrow> string \<Rightarrow> string \<Rightarrow> string option \<Rightarrow> bool" where
  "line_ok n cmd uid co \<longleftrightarrow> word n \<and> word cmd \<and> word uid \<and>
     (\<forall>a. co = Some a \<longrightarrow> is_cstr a \<and> CHR '' '' \<notin> set a \<and> CHR 0x0A \<notin> set a) \<and> length (line_text n cmd uid co) < 100"

definition workload_ok :: "workload \<Rightarrow> bool" where
  "workload_ok st \<longleftrightarrow> length (wl_op st) = 100 \<and> length (wl_sep st) = 4 \<and> (\<forall>i. queue_inv (wl_queues st i))"

lemma workload_ok_init: "length buf = 100 \<Longrightarrow> workload_ok (workload_init buf)"
  using conjunct1 [OF queue_inv_init] by (simp add: workload_ok_def workload_init_def)

lemma wl_trim_line:
  assumes "line_ok n cmd uid co" "length buf = 100"
  obtains r where "wl_trim (line_text n cmd uid co) buf = Some (butlast (line_text n cmd uid co) @ NUL # r)"
    "length (butlast (line_text n cmd uid co) @ NUL # r) = 100"
proof -
  define s where "s = n @ '' '' @ cmd @ '','' @ uid @ (case co of None \<Rightarrow> [] | Some a \<Rightarrow> CHR '','' # a)"
  let ?r = "NUL # drop (Suc (Suc (length s))) buf"
  have l: "line_text n cmd uid co = s @ [CHR 0x0A]" by (simp add: line_text_def s_def)
  have len: "length s + 1 < 100" using assms(1) by (simp add: line_ok_def l)
  have w: "word uid" "word n" using assms(1) by (simp_all add: line_ok_def)
  have ne: "s \<noteq> []" by (simp add: s_def)
  have "last s \<noteq> CHR '' ''"
  proof (cases co)
    case None
    have u: "uid \<noteq> []" "CHR '' '' \<notin> set uid" using w(1) by (auto simp: word_def)
    then have "last uid \<noteq> CHR '' ''" by (metis last_in_set)
    then show ?thesis using u(1) None by (simp add: s_def)
  next
    case (Some a)
    then have "CHR '' '' \<notin> set a" using assms(1) by (simp add: line_ok_def)
    then have "a \<noteq> [] \<Longrightarrow> last a \<noteq> CHR '' ''" by (metis last_in_set)
    then show ?thesis by (cases "a = []") (simp_all add: s_def Some)
  qed
  then have nth: "s ! (length s - 1) \<noteq> CHR '' ''" using ne by (simp add: last_conv_nth)
  have ov: "overwrite buf 0 ((s @ [CHR 0x0A]) @ [NUL]) = s @ CHR 0x0A # ?r"
    by (simp add: overwrite_def)
  have c: "(s @ CHR 0x0A # ?r) ! length s = CHR 0x0A" by simp
  have d: "(s @ CHR 0x0A # ?r) ! (length s - 1) = s ! (length s - 1)" using ne by (simp add: nth_append)
  have "wl_trim (s @ [CHR 0x0A]) buf = Some ((s @ CHR 0x0A # ?r)[length s := NUL])"
    unfolding wl_trim_def ov Let_def using ne c d nth by simp
  then have "wl_trim (line_text n cmd uid co) buf = Some (butlast (line_text n cmd uid co) @ NUL # ?r)"
    by (simp add: l list_update_append)
  then show thesis using that [of ?r] len assms(2) by (simp add: l)
qed

lemma wl_split_line:
  assumes ok: "line_ok n cmd uid co" and ptrs: "length ptrs = 4"
  obtains b' ptrs' where "wl_split (butlast (line_text n cmd uid co) @ NUL # r) ptrs = Some (b', ptrs')"
    "length b' = length (butlast (line_text n cmd uid co) @ NUL # r)" "length ptrs' = 4"
    "wl_cell b' ptrs' 1 = Some cmd" "wl_cell b' ptrs' 2 = Some uid" "wl_cell b' ptrs' 3 = co"
proof -
  define args where "args = cmd @ '','' @ uid @ (case co of None \<Rightarrow> [] | Some a \<Rightarrow> CHR '','' # a)"
  define s where "s = n @ '' '' @ args"
  have l: "butlast (line_text n cmd uid co) = s" by (simp add: line_text_def s_def args_def butlast_append)
  have w: "word n" "word cmd" "word uid" using ok by (simp_all add: line_ok_def)
  have cs: "is_cstr s" "s \<noteq> []" "is_cstr args" "args \<noteq> []"
    using ok w by (auto simp: s_def args_def line_ok_def word_def NUL_def split: option.split)
  have bl: "CHR '' '' \<notin> set n" "CHR '' '' \<notin> set args"
    using ok w by (auto simp: args_def line_ok_def word_def split: option.split)
  have t1: "split_on (CHR '' '') (Some 2) s = [n, args]"
    using split_on_second [OF bl(1), of args] split_on_no_delim [OF bl(2), of "Some 1"] by (simp add: s_def)
  have co2: "CHR '','' \<notin> set cmd" "CHR '','' \<notin> set uid" using w by (auto simp: word_def)
  have t2: "split_on (CHR '','') (Some 2) args = cmd # uid # (case co of None \<Rightarrow> [] | Some a \<Rightarrow> [a])"
    using split_on_second [OF co2(1)] split_on_first [OF co2(2)] split_on_no_delim [OF co2(2), of "Some 1"]
    by (simp add: args_def split: option.split)
  have wl: "wl_delimSepNoCpy (Some x) d = delim_loop d (Some 2) (length x) 0 0 (x @ [NUL]) []" if "x \<noteq> []" for x d
    using that by (simp add: wl_delimSepNoCpy_def)
  have tk1: "tokens (wl_delimSepNoCpy (Some s) (CHR '' '')) = [n, args]"
    using wl_delimSepNoCpy_tokens [OF cs(1,2), of "CHR '' ''"] t1 by (simp add: NUL_def)
  have blank: "cut_at (\<lambda>s. wl_delimSepNoCpy s (CHR '' '')) (s @ NUL # r) (Some 0) =
      cut_at (\<lambda>s. wl_delimSepNoCpy s (CHR '' '')) ([] @ s @ NUL # r) (Some (length []))" by simp
  obtain s' ps where c1: "cut_at (\<lambda>s. wl_delimSepNoCpy s (CHR '' '')) (s @ NUL # r) (Some 0) = (s' @ NUL # r, ps)"
      "map (cstr_at (s' @ NUL # r)) ps = [n, args]" "length s' = length s" "\<forall>k \<in> set ps. k \<le> length s"
    unfolding blank
    by (rule cut_tokens [where sep = "\<lambda>s. wl_delimSepNoCpy s (CHR '' '')" and p = "[]" and r = r, OF wl cs(1,2) tk1]) auto
  obtain k0 k where ps: "ps = [k0, k]" using c1(2) by (auto simp: map_eq_Cons_conv)
  define b where "b = s' @ NUL # r"
  have kt: "cstr_at b k = args" "k \<le> length s" using c1(2,4) ps by (simp_all add: b_def)
  have "b ! length s = NUL" "length s < length b" using c1(3) by (auto simp: b_def nth_append)
  then have kb: "k + length args \<le> length s" using cstr_at_bound [OF kt(2), of b] kt(1) by simp
  let ?p = "take k b" and ?r = "drop (Suc (k + length args)) b"
  have bd: "b = ?p @ args @ NUL # ?r" "length ?p = k"
    using cstr_decompose [OF kt(1)] kb c1(3) by (simp_all add: b_def)
  have tk2: "tokens (wl_delimSepNoCpy (Some args) (CHR '','')) = cmd # uid # (case co of None \<Rightarrow> [] | Some a \<Rightarrow> [a])"
    using wl_delimSepNoCpy_tokens [OF cs(3,4), of "CHR '',''"] t2 by (simp add: NUL_def)
  obtain a' qs where c2: "cut_at (\<lambda>s. wl_delimSepNoCpy s (CHR '','')) (?p @ args @ NUL # ?r) (Some (length ?p)) = (?p @ a' @ NUL # ?r, qs)"
      "map (cstr_at (?p @ a' @ NUL # ?r)) qs = cmd # uid # (case co of None \<Rightarrow> [] | Some a \<Rightarrow> [a])" "length a' = length args"
    by (rule cut_tokens [where sep = "\<lambda>s. wl_delimSepNoCpy s (CHR '','')" and p = ?p and r = ?r, OF wl cs(3,4) tk2]) auto
  define b' where "b' = ?p @ a' @ NUL # ?r"
  have cut2: "cut_at (\<lambda>s. wl_delimSepNoCpy s (CHR '','')) b (Some k) = (b', qs)"
    using c2(1) unfolding bd(1) [symmetric] bd(2) b'_def .
  obtain q1 q2 rest where qs: "qs = q1 # q2 # rest" "cstr_at b' q1 = cmd" "cstr_at b' q2 = uid"
      "map (cstr_at b') rest = (case co of None \<Rightarrow> [] | Some a \<Rightarrow> [a])"
    using c2(2) unfolding b'_def [symmetric] by (auto simp: map_eq_Cons_conv)
  obtain p0 p1 p2 p3 where pt: "ptrs = [p0, p1, p2, p3]" using ptrs by (auto simp: length_Suc_conv eval_nat_numeral)
  define ptrs' where "ptrs' = [Some k0, Some q1, Some q2, (case rest of [] \<Rightarrow> None | x # _ \<Rightarrow> Some x)]"
  have st1: "store_from 0 ps (ptrs[3 := None]) = Some [Some k0, Some k, p2, None]"
    by (simp add: store_from_def pt ps eval_nat_numeral)
  have st2: "store_from 1 qs [Some k0, Some k, p2, None] = Some ptrs'"
    using qs(4) by (cases co) (auto simp: store_from_def qs(1) ptrs'_def map_eq_Cons_conv)
  have h1: "wl_split (s @ NUL # r) ptrs = Some (b', ptrs')"
    unfolding wl_split_def Let_def c1(1) prod.case st1 option.case b_def [symmetric]
    using cut2 st2 by (simp add: nth_opt_def)
  have h2: "length b' = length (s @ NUL # r)"
    using c2(3) kb c1(3) by (simp add: b'_def b_def)
  have h3: "wl_cell b' ptrs' 1 = Some cmd" "wl_cell b' ptrs' 2 = Some uid"
    using qs(2,3) by (simp_all add: wl_cell_def ptrs'_def nth_opt_def)
  have h4: "wl_cell b' ptrs' 3 = co"
    using qs(4) by (cases co) (auto simp: wl_cell_def ptrs'_def nth_opt_def map_eq_Cons_conv)
  have h5: "length ptrs' = 4" by (simp add: ptrs'_def)
  show thesis by (rule that [unfolded l, OF h1 h2 h5 h3 h4])
qed

text \<open>A well-formed line: its message goes to the end of the queue its user hashes to.\<close>

lemma wl_line_ok:
  assumes "workload_ok st" "line_ok n cmd uid co"
  obtains st' where "wl_line (line_text n cmd uid co) st = Some st'" "workload_ok st'"
    "wl_transID st' = wl_transID st + 1"
    "\<And>i. contents (wl_queues st' i) = contents (wl_queues st i) @
       (if int i = wl_userSort (Some uid)
        then [(Some (wsc_text (show_long (wl_transID st)) cmd uid co),
               length (wsc_text (show_long (wl_transID st)) cmd uid co) + 1)] else [])"
proof -
  let ?m = "wsc_text (show_long (wl_transID st)) cmd uid co" and ?h = "wl_userSort (Some uid)"
  have st: "length (wl_op st) = 100" "length (wl_sep st) = 4" "\<And>i. queue_inv (wl_queues st i)"
    using assms(1) by (simp_all add: workload_ok_def)
  obtain r where t: "wl_trim (line_text n cmd uid co) (wl_op st) = Some (butlast (line_text n cmd uid co) @ NUL # r)"
      "length (butlast (line_text n cmd uid co) @ NUL # r) = 100"
    by (rule wl_trim_line [OF assms(2) st(1)])
  obtain b ptrs where p: "wl_split (butlast (line_text n cmd uid co) @ NUL # r) (wl_sep st) = Some (b, ptrs)"
      "length b = length (butlast (line_text n cmd uid co) @ NUL # r)" "length ptrs = 4"
      "wl_cell b ptrs 1 = Some cmd" "wl_cell b ptrs 2 = Some uid" "wl_cell b ptrs 3 = co"
    by (rule wl_split_line [OF assms(2) st(2)])
  have "length uid < 100" using assms(2) by (auto simp: line_ok_def line_text_def)
  then have h: "0 \<le> ?h" "?h < NUM_THREADS" using wl_userSort_range [of uid] by simp_all
  define st' where "st' = \<lparr>wl_op = b, wl_sep = ptrs, wl_transID = wl_transID st + 1,
      wl_queues = (wl_queues st)(nat ?h := snd (enq (wl_queues st (nat ?h)) (Some ?m, length ?m + 1)))\<rparr>"
  have r: "wl_line (line_text n cmd uid co) st = Some st'"
    unfolding wl_line_def t(1) option.case p(1) prod.case Let_def p(4-6) using h by (simp add: wl_cenq_def st'_def)
  have e: "queue_inv (snd (enq (wl_queues st i) v))" "contents (snd (enq (wl_queues st i) v)) = contents (wl_queues st i) @ [v]" for i v
    using queue_inv_enq [OF st(3)] by blast+
  have "workload_ok st'" using st e t(2) p(2,3) by (simp add: workload_ok_def st'_def)
  moreover have "contents (wl_queues st' i) = contents (wl_queues st i) @
      (if int i = ?h then [(Some ?m, length ?m + 1)] else [])" for i
    using h e by (auto simp: st'_def)
  ultimately show thesis using that r by (simp add: st'_def)
qed

section \<open>The whole run\<close>

text \<open>The messages of a command file for sender \<open>i\<close>, numbered from \<open>t\<close>, in the order of the file.\<close>

type_synonym line = "string \<times> string \<times> string \<times> string option"

fun routed :: "int \<Rightarrow> int \<Rightarrow> line list \<Rightarrow> string list" where
  "routed i t [] = []"
| "routed i t ((n, cmd, uid, co) # ls) =
     (if i = wl_userSort (Some uid) then [wsc_text (show_long t) cmd uid co] else []) @ routed i (t + 1) ls"

definition tagged :: "string \<Rightarrow> string option \<times> nat" where
  "tagged m = (Some m, length m + 1)"

definition text_of :: "line \<Rightarrow> string" where
  "text_of l = (case l of (n, cmd, uid, co) \<Rightarrow> line_text n cmd uid co)"

definition good_line :: "line \<Rightarrow> bool" where
  "good_line l \<longleftrightarrow> (case l of (n, cmd, uid, co) \<Rightarrow> line_ok n cmd uid co)"

lemma wl_lines_ok:
  assumes "workload_ok st" "list_all good_line ls"
  shows "\<exists>st'. wl_lines (map text_of ls) st = Some st' \<and> workload_ok st' \<and>
    (\<forall>i. contents (wl_queues st' i) = contents (wl_queues st i) @ map tagged (routed (int i) (wl_transID st) ls))"
  using assms
proof (induction ls arbitrary: st)
  case Nil
  then show ?case by simp
next
  case (Cons l ls)
  obtain n cmd uid co where l: "l = (n, cmd, uid, co)" by (cases l)
  have ok: "line_ok n cmd uid co" using Cons.prems(2) by (simp add: l good_line_def)
  obtain st1 where s1: "wl_line (line_text n cmd uid co) st = Some st1" "workload_ok st1"
      "wl_transID st1 = wl_transID st + 1"
      "\<And>i. contents (wl_queues st1 i) = contents (wl_queues st i) @
         (if int i = wl_userSort (Some uid)
          then [(Some (wsc_text (show_long (wl_transID st)) cmd uid co),
                 length (wsc_text (show_long (wl_transID st)) cmd uid co) + 1)] else [])"
    using wl_line_ok [OF Cons.prems(1) ok] by metis
  obtain st' where st': "wl_lines (map text_of ls) st1 = Some st'" "workload_ok st'"
      "\<And>i. contents (wl_queues st' i) = contents (wl_queues st1 i) @ map tagged (routed (int i) (wl_transID st1) ls)"
    using Cons.IH [OF s1(2)] Cons.prems(2) by auto
  have "wl_lines (map text_of (l # ls)) st = Some st'" using s1(1) st'(1) by (simp add: text_of_def l)
  moreover have "contents (wl_queues st' i) = contents (wl_queues st i) @ map tagged (routed (int i) (wl_transID st) (l # ls))" for i
    using st'(3) [of i] s1(3,4) by (simp add: l tagged_def)
  ultimately show ?case using st'(2) by blast
qed

lemma wl_cdeq_some:
  assumes "queue_inv q" "contents q = tagged m # vs"
  obtains a q' where "wl_cdeq q = (Got a (m, length m + 1), q')" "queue_inv (free_cell a q')" "contents (free_cell a q') = vs"
proof -
  obtain a q' where d: "deq False q = (Got a (tagged m), q')" "queue_inv (free_cell a q')" "contents (free_cell a q') = vs"
    by (rule deq_free [OF assms])
  then have "wl_cdeq q = (Got a (m, length m + 1), q')" by (simp add: wl_cdeq_def tagged_def)
  with d(2,3) show thesis by (intro that)
qed

lemma comm_handler_all:
  assumes "queue_inv q" "contents q = map tagged ms @ [(None, 0)]" "\<forall>j < length ms. net (k + j) = (True, True)"
  shows "comm_handler (Suc (length ms)) net k q = (ms, Sender_done)"
  using assms
proof (induction ms arbitrary: q k)
  case Nil
  obtain a q' where d: "deq False q = (Got a (None, 0), q')" by (rule deq_free [OF Nil.prems(1)]) (use Nil.prems(2) in auto)
  then show ?case by (simp add: wl_cdeq_def)
next
  case (Cons m ms)
  obtain a q' where d: "wl_cdeq q = (Got a (m, length m + 1), q')" "queue_inv (free_cell a q')"
      "contents (free_cell a q') = map tagged ms @ [(None, 0)]"
    by (rule wl_cdeq_some [OF Cons.prems(1)]) (use Cons.prems(2) in auto)
  have n: "net k = (True, True)" using Cons.prems(3) by auto
  have "\<forall>j < length ms. net (Suc k + j) = (True, True)"
  proof (intro allI impI)
    fix j assume "j < length ms"
    then show "net (Suc k + j) = (True, True)" using Cons.prems(3) [rule_format, of "Suc j"] by simp
  qed
  from Cons.IH [OF d(2,3) this] show ?case by (simp add: d(1) n del: comm_handler.simps(2) add: comm_handler.simps(2) [of "Suc (length ms)"])
qed

text \<open>C38: From a well-formed command file every command becomes one message, numbered in the order of
  the file, and each sender, on a network without failures, transmits exactly the messages of the
  users that hash to it, in the order of the file, and ends: the commands of a user keep their order.\<close>

theorem workload_delivered:
  assumes "length buf = 100" "list_all good_line ls"
  shows "\<exists>st. wl_lines (map text_of ls) (workload_init buf) = Some st \<and>
    map (\<lambda>i. comm_handler (Suc (length (routed (int i) 1 ls))) (\<lambda>_. (True, True)) 0 (wl_queues (wl_finish st) i)) [0..<50] =
    map (\<lambda>i. (routed (int i) 1 ls, Sender_done)) [0..<50]"
proof -
  obtain st where st: "wl_lines (map text_of ls) (workload_init buf) = Some st" "workload_ok st"
      "\<And>i. contents (wl_queues st i) = contents (wl_queues (workload_init buf) i) @ map tagged (routed (int i) 1 ls)"
    using wl_lines_ok [OF workload_ok_init [OF assms(1)] assms(2)] by (auto simp: workload_init_def)
  have "comm_handler (Suc (length (routed (int i) 1 ls))) (\<lambda>_. (True, True)) 0 (wl_queues (wl_finish st) i) =
      (routed (int i) 1 ls, Sender_done)" if "int i < NUM_THREADS" for i
  proof (rule comm_handler_all)
    have q: "queue_inv (wl_queues st i)" using st(2) by (simp add: workload_ok_def)
    have c: "contents (wl_queues st i) = map tagged (routed (int i) 1 ls)"
      using st(3) [of i] conjunct2 [OF queue_inv_init] by (simp add: workload_init_def)
    show "queue_inv (wl_queues (wl_finish st) i)"
      "contents (wl_queues (wl_finish st) i) = map tagged (routed (int i) 1 ls) @ [(None, 0)]"
      using queue_inv_enq [OF q] c that by (simp_all add: wl_finish_def)
  qed simp
  with st(1) show ?thesis by (intro exI [of _ st]) (simp add: NUM_THREADS_def del: comm_handler.simps)
qed

lemma workload_delivered_witness:
  "\<exists>st. wl_lines (map text_of [(''[1]'', ''ADD'', ''Ab'', Some ''10.00''), (''[2]'', ''QUOTE'', ''Ab'', Some ''ABC'')])
      (workload_init (replicate 100 NUL)) = Some st \<and>
    map (\<lambda>i. comm_handler (Suc (length (routed (int i) 1 [(''[1]'', ''ADD'', ''Ab'', Some ''10.00''), (''[2]'', ''QUOTE'', ''Ab'', Some ''ABC'')])))
        (\<lambda>_. (True, True)) 0 (wl_queues (wl_finish st) i)) [0..<50] =
    map (\<lambda>i. (routed (int i) 1 [(''[1]'', ''ADD'', ''Ab'', Some ''10.00''), (''[2]'', ''QUOTE'', ''Ab'', Some ''ABC'')], Sender_done)) [0..<50]"
  by (rule workload_delivered) (simp_all add: good_line_def line_ok_def word_def line_text_def is_cstr_def NUL_def)

end
