(* ===== verification/Workload_Path.thy ===== *)
theory Workload_Path
  imports Workload Connection
begin

text \<open>
  A command on its way from a line of the workload file to the queue of its user in a transaction
  server: the message the generator writes is the one the connection thread reads.
\<close>

lemma wsc_length:
  "length (wsc_text tid cmd uid co) =
     6 + length tid + length cmd + length uid + (case co of None \<Rightarrow> 0 | Some a \<Rightarrow> Suc (length a))"
  by (simp add: wsc_text_def split: option.split)

text \<open>C39: The command of a well-formed line, put into the queue of the sender its user hashes to and sent with
  its NUL, is appended to the queue of this user in the transaction server, with the line's command
  and arguments and with the number of the line as its transaction, and acknowledged.\<close>

theorem command_travels:
  assumes "workload_ok w" "line_ok n cmd uid co" "validUserID (Some uid)" "0 \<le> wl_transID w" "wl_transID w < 10 ^ 18"
    "CHR ''|'' \<notin> set cmd" "\<And>a. co = Some a \<Longrightarrow> CHR ''|'' \<notin> set a \<and> (a \<noteq> [] \<longrightarrow> last a \<notin> line_end)"
    "conn_ok cn" "server_ok st" "getUser st uid = None \<Longrightarrow> rows_ok e (length (db_sent st))"
  shows "\<exists>w' m cn' st' u. wl_line (line_text n cmd uid co) w = Some w' \<and>
    contents (wl_queues w' (nat (wl_userSort (Some uid)))) =
      contents (wl_queues w (nat (wl_userSort (Some uid)))) @ [(Some m, length m + 1)] \<and>
    connection_message e sock (m @ [NUL]) cn st = (cn', st') \<and> conn_ok cn' \<and> server_ok st' \<and> getUser st' uid = Some u \<and>
    contents (commList (usr st' u)) = (case getUser st uid of None \<Rightarrow> [] | Some v \<Rightarrow> contents (commList (usr st v))) @
      [\<lparr>comm = co, webServerSock = sock, transID = show_long (wl_transID w), userCmd = cmd\<rparr>] \<and>
    wire st' = wire st @ [(sock, ''REC'')]"
proof -
  let ?m = "wsc_text (show_long (wl_transID w)) cmd uid co"
  obtain w' where w': "wl_line (line_text n cmd uid co) w = Some w'"
      "\<And>i. contents (wl_queues w' i) = contents (wl_queues w i) @
         (if int i = wl_userSort (Some uid) then [(Some ?m, length ?m + 1)] else [])"
    using wl_line_ok [OF assms(1,2)] by metis
  have lo: "word cmd" "word uid" "length (line_text n cmd uid co) < 100" "\<And>a. co = Some a \<Longrightarrow> is_cstr a"
    using assms(2) by (auto simp: line_ok_def)
  have "length uid < 100" using lo(3) by (simp add: line_text_def)
  then have h: "int (nat (wl_userSort (Some uid))) = wl_userSort (Some uid)" using wl_userSort_range [of uid] by simp
  have t: "show_long (wl_transID w) = show_nat (nat (wl_transID w))" using assms(4) by (simp add: show_long_def)
  then have f: "field (show_long (wl_transID w))" using show_nat_clean(2) by (simp add: field_def clean_def)
  have "length (show_long (wl_transID w)) \<le> 18"
    unfolding t using assms(4,5) by (intro length_show_nat) auto
  then have len: "length ?m < 199" using lo(3) by (cases co) (simp_all add: wsc_length line_text_def)
  have fc: "field cmd" using lo(1) assms(6) by (simp add: field_def word_def)
  have fa: "field a \<and> (a \<noteq> [] \<longrightarrow> last a \<notin> line_end)" if "co = Some a" for a
    using lo(4) [OF that] assms(7) [OF that] by (simp add: field_def)
  let ?st = "quickSend sock ''REC'' st"
  have ok: "server_ok ?st" by (rule ok_output(4) [OF assms(9)])
  have q: "getUser ?st uid = getUser st uid" "db_sent ?st = db_sent st" "usr ?st = usr st" "wire ?st = wire st @ [(sock, ''REC'')]"
    by (simp_all add: getUser_def quickSend_def)
  obtain cn1 cn2 cn' where p: "recv_message (?m @ [NUL]) cn = Some cn1" "split_message cn1 = Some (cn2, 4)"
      "internal_command e sock cn2 ?st = (cn', enqueue_command e sock (show_long (wl_transID w)) cmd uid co ?st)" "conn_ok cn'"
    by (rule wsc_parsed [OF assms(8,3) f fc fa len disjI2 [OF refl]]) auto
  have c: "connection_message e sock (?m @ [NUL]) cn st = (cn', enqueue_command e sock (show_long (wl_transID w)) cmd uid co ?st)"
    unfolding connection_message_def p(1) option.case p(2) prod.case Let_def p(3) by simp
  have r: "getUser ?st uid = None \<Longrightarrow> rows_ok e (length (db_sent ?st))" using assms(10) q(1,2) by simp
  have "contents (wl_queues w' (nat (wl_userSort (Some uid)))) =
      contents (wl_queues w (nat (wl_userSort (Some uid)))) @ [(Some ?m, length ?m + 1)]"
    using w'(2) h by simp
  with w'(1) c p(4) enqueue_appends [OF ok assms(3) r, of sock "show_long (wl_transID w)" cmd co] q(1,3,4)
  show ?thesis by metis
qed

lemma command_travels_witness:
  "\<exists>w' m cn' st' u. wl_line (line_text ''[1]'' ''QUOTE'' ''A1b2C3d4E5'' (Some ''ABC'')) (workload_init (replicate 100 NUL)) = Some w' \<and>
    contents (wl_queues w' (nat (wl_userSort (Some ''A1b2C3d4E5'')))) =
      contents (wl_queues (workload_init (replicate 100 NUL)) (nat (wl_userSort (Some ''A1b2C3d4E5'')))) @ [(Some m, length m + 1)] \<and>
    connection_message sample_env 3 (m @ [NUL]) conn_init server_init = (cn', st') \<and> conn_ok cn' \<and> server_ok st' \<and>
    getUser st' ''A1b2C3d4E5'' = Some u \<and>
    contents (commList (usr st' u)) =
      (case getUser server_init ''A1b2C3d4E5'' of None \<Rightarrow> [] | Some v \<Rightarrow> contents (commList (usr server_init v))) @
      [\<lparr>comm = Some ''ABC'', webServerSock = 3, transID = show_long (wl_transID (workload_init (replicate 100 NUL))), userCmd = ''QUOTE''\<rparr>] \<and>
    wire st' = wire server_init @ [(3, ''REC'')]"
proof (rule command_travels [OF workload_ok_init _ _ _ _ _ _ conn_ok_init server_ok_init])
  show "validUserID (Some ''A1b2C3d4E5'')" by code_simp
  show "line_ok ''[1]'' ''QUOTE'' ''A1b2C3d4E5'' (Some ''ABC'')"
    by (simp add: line_ok_def word_def line_text_def is_cstr_def NUL_def)
qed (auto simp: line_end_def NUL_def rows_ok_def sample_env_def workload_init_def)

end
