(* ===== verification/Books.thy ===== *)
theory Books
  imports Samples
begin

text \<open>
  No debt, over any sequence of commands: while amounts and prices stay below a bound \<open>K\<close> and the
  sequence is short enough for 64 bits, every account stays sound. The orders a cancellation loses
  (see \<open>loses\<close>) do not disturb this; a commit whose age computation wraps does not either.
\<close>

section \<open>Counted runs\<close>

text \<open>An invariant with a counter that every step may raise by one, over a list of steps.\<close>

locale counted_run =
  fixes step :: "'c \<Rightarrow> 's \<Rightarrow> 's" and inv :: "nat \<Rightarrow> 's \<Rightarrow> bool" and allowed :: "'c \<Rightarrow> bool" and limit :: "nat \<Rightarrow> bool"
  assumes step_inv: "inv n s \<Longrightarrow> limit (Suc n) \<Longrightarrow> allowed c \<Longrightarrow> inv (Suc n) (step c s)"
    and limit_down: "limit n \<Longrightarrow> m \<le> n \<Longrightarrow> limit m"
begin

lemma run_inv:
  assumes "inv n s" "limit (n + length cs)" "list_all allowed cs"
  shows "inv (n + length cs) (fold step cs s)"
  using assms
proof (induction cs arbitrary: n s)
  case (Cons c cs)
  have "inv (Suc n) (step c s)" using Cons.prems by (intro step_inv) (auto intro: limit_down)
  with Cons.IH [of "Suc n" "step c s"] Cons.prems show ?case by simp
qed simp

end

section \<open>Sound and bounded accounts\<close>

definition cap :: "int \<Rightarrow> nat \<Rightarrow> int" where
  "cap K n = 2 * K * int n"

lemma cap_Suc [simp]: "cap K (Suc n) = cap K n + 2 * K"
  by (simp add: cap_def algebra_simps)

lemma cap_nonneg [simp]: "0 \<le> K \<Longrightarrow> 0 \<le> cap K n"
  by (simp add: cap_def)

lemma cap_mono: "0 \<le> K \<Longrightarrow> m \<le> n \<Longrightarrow> cap K m \<le> cap K n"
  by (simp add: cap_def mult_left_mono)

definition small :: "int \<Rightarrow> nat \<Rightarrow> account \<Rightarrow> bool" where
  "small K n a \<longleftrightarrow> sound a \<and> a_bal a \<le> cap K n \<and>
     (\<forall>sid k. a_held a sid = Some k \<longrightarrow> k \<le> cap K n) \<and>
     (\<forall>k m p. a_order a k = Some (m, p) \<longrightarrow> m \<le> K) \<and>
     (\<forall>sd sid k cash t. a_pend a = Some (Pending sd sid k cash t) \<longrightarrow> k \<le> 2 * K \<and> cash \<le> 2 * K)"

lemma smallD:
  assumes "small K n a"
  shows "sound a" "a_bal a \<le> cap K n" "a_held a sid = Some k \<Longrightarrow> k \<le> cap K n"
    "a_order a key = Some (m, p) \<Longrightarrow> m \<le> K"
    "a_pend a = Some (Pending sd sid k cash t) \<Longrightarrow> k \<le> 2 * K" "a_pend a = Some (Pending sd sid k cash t) \<Longrightarrow> cash \<le> 2 * K"
  using assms unfolding small_def by blast+

lemma small_mono:
  assumes "small K n a" "0 \<le> K"
  shows "small K (Suc n) a"
proof -
  have "cap K n \<le> cap K (Suc n)" using assms(2) by simp
  with assms(1) show ?thesis unfolding small_def by (meson order_trans)
qed

text \<open>The holding of a stock and its bounds.\<close>

lemma small_holding:
  assumes "small K n a" "0 \<le> K"
  shows "0 \<le> holding a sid" "holding a sid \<le> cap K n"
  using smallD(3) [OF assms(1), of sid] sound_holding [OF smallD(1) [OF assms(1)], of sid] assms(2)
  by (auto split: option.splits)

text \<open>What a sound account becomes, field by field.\<close>

lemma small_pend:
  assumes "small K n a" "0 \<le> K" "sound (a\<lparr>a_pend := p\<rparr>)"
    "\<And>sd sid k cash t. p = Some (Pending sd sid k cash t) \<Longrightarrow> k \<le> 2 * K \<and> cash \<le> 2 * K"
  shows "small K (Suc n) (a\<lparr>a_pend := p\<rparr>)"
  using small_mono [OF assms(1,2)] assms(3,4) by (simp add: small_def)

lemma small_order:
  assumes "small K n a" "0 \<le> K" "sound (a\<lparr>a_order := ord\<rparr>)" "\<And>k m p. ord k = Some (m, p) \<Longrightarrow> m \<le> K"
  shows "small K (Suc n) (a\<lparr>a_order := ord\<rparr>)"
  using small_mono [OF assms(1,2)] assms(3,4) by (simp add: small_def)

lemma small_balance:
  assumes "small K n a" "0 \<le> K" "sound (a\<lparr>a_bal := b\<rparr>)" "b \<le> cap K (Suc n)"
  shows "small K (Suc n) (a\<lparr>a_bal := b\<rparr>)"
  using small_mono [OF assms(1,2)] assms(3,4) by (simp add: small_def)

section \<open>The account operations keep the bounds\<close>

lemma small_add:
  assumes "small K n a" "0 \<le> m" "m \<le> K"
  shows "small K (Suc n) (fst (add_spec m a))"
  unfolding add_spec_def fst_conv
  using assms smallD(1,2) [OF assms(1)] by (intro small_balance sound_credit) simp_all

lemma div_le_self: "0 \<le> m \<Longrightarrow> 1 \<le> p \<Longrightarrow> m div p \<le> m \<and> p * (m div p) \<le> (m :: int)"
  using mult_div_mod_eq [of p m] pos_mod_sign [of p m] zdiv_mono2 [of m 1 p] by (intro conjI; linarith?) simp

lemma small_buy:
  assumes "small K n a" "0 \<le> m" "m \<le> K"
  shows "small K (Suc n) (fst (buy_spec sid m p t a))"
proof -
  have K: "0 \<le> K" using assms(2,3) by simp
  have s: "sound (fst (buy_spec sid m p t a))" using smallD(1) [OF assms(1)] by (rule sound_buy)
  show ?thesis
  proof (cases "a_pend a = None \<and> m \<le> a_bal a \<and> 1 \<le> p \<and> p \<le> m")
    case True
    then have eq: "fst (buy_spec sid m p t a) = a\<lparr>a_pend := Some (Pending Buying sid (m div p) (p * (m div p)) t)\<rparr>"
      by (simp add: buy_spec_def)
    show ?thesis using s unfolding eq
      by (rule small_pend [OF assms(1) K]) (use True assms(2,3) div_le_self [of m p] in auto)
  next
    case False
    then have "fst (buy_spec sid m p t a) = a" by (auto simp: buy_spec_def)
    then show ?thesis using small_mono [OF assms(1) K] by simp
  qed
qed

lemma small_commit_buy:
  assumes "small K n a" "0 \<le> K"
  shows "small K (Suc n) (fst (commit_buy_spec now a))"
proof -
  have s: "sound (fst (commit_buy_spec now a))" using smallD(1) [OF assms(1)] by (rule sound_commit_buy)
  show ?thesis
  proof (cases rule: pend_cases [of a])
    case (2 sid k cash t)
    show ?thesis
    proof (cases "now - t > quoteTo")
      case True
      then have "fst (commit_buy_spec now a) = a\<lparr>a_pend := None\<rparr>" using 2 by (simp add: commit_buy_spec_def)
      with s show ?thesis using small_pend [OF assms, of None] by simp
    next
      case False
      then have eq: "fst (commit_buy_spec now a) =
          a\<lparr>a_bal := a_bal a - cash, a_held := (a_held a)(sid \<mapsto> holding a sid + k), a_pend := None\<rparr>"
        using 2 by (simp add: commit_buy_spec_def)
      have "0 < cash" using smallD(1) [OF assms(1)] 2 by (simp add: sound_def)
      moreover have "holding a sid + k \<le> cap K (Suc n)"
        using small_holding(2) [OF assms, of sid] smallD(5) [OF assms(1) 2] by simp
      ultimately show ?thesis
        using s small_mono [OF assms] smallD(2) [OF assms(1)] assms(2) unfolding eq by (simp add: small_def)
    qed
  qed (use small_mono [OF assms] in \<open>simp_all add: commit_buy_spec_def\<close>)
qed

lemma small_cancel:
  assumes "small K n a" "0 \<le> K"
  shows "small K (Suc n) (fst (cancel_spec sd a))"
  using small_mono [OF assms] small_pend [OF assms sound_no_pend [OF smallD(1) [OF assms(1)]]]
  by (simp add: cancel_spec_def)

lemma small_sell:
  assumes "small K n a" "0 \<le> m" "m \<le> K" "p \<le> K"
  shows "small K (Suc n) (fst (sell_spec sid m p t a))"
proof -
  have K: "0 \<le> K" using assms(2,3) by simp
  have s: "sound (fst (sell_spec sid m p t a))" using smallD(1) [OF assms(1)] assms(2) by (rule sound_sell)
  show ?thesis
  proof (cases "holding a sid = 0 \<or> a_pend a \<noteq> None \<or> p < 1")
    case True
    then have "fst (sell_spec sid m p t a) = a" by (auto simp: sell_spec_def)
    then show ?thesis using small_mono [OF assms(1) K] by simp
  next
    case False
    let ?k = "min (holding a sid) (m div p + 1)"
    have eq: "fst (sell_spec sid m p t a) = a\<lparr>a_pend := Some (Pending Selling sid ?k (p * ?k) t)\<rparr>"
      using False by (simp add: sell_spec_def Let_def)
    have "p * ?k \<le> p * (m div p + 1)" using False by (intro mult_left_mono) simp_all
    also have "\<dots> \<le> m + p" using div_le_self [of m p] assms(2) False by (simp add: distrib_left)
    finally have c: "p * ?k \<le> 2 * K" using assms(3,4) by simp
    have "0 \<le> ?k" using small_holding(1) [OF assms(1) K, of sid] assms(2) False
      by (simp add: pos_imp_zdiv_nonneg_iff)
    then have "?k \<le> p * ?k" using False mult_right_mono [of 1 p ?k] by simp
    with c s show ?thesis unfolding eq by (intro small_pend [OF assms(1) K]) auto
  qed
qed

lemma small_commit_sell:
  assumes "small K n a" "0 \<le> K"
  shows "small K (Suc n) (fst (commit_sell_spec now a))"
proof -
  have s: "sound (fst (commit_sell_spec now a))" using smallD(1) [OF assms(1)] by (rule sound_commit_sell)
  show ?thesis
  proof (cases rule: pend_cases [of a])
    case (3 sid k cash t)
    consider "now - t > quoteTo" | "now - t \<le> quoteTo" "a_held a sid = None"
      | h where "now - t \<le> quoteTo" "a_held a sid = Some h" by fastforce
    then show ?thesis
    proof cases
      case 1
      then have "fst (commit_sell_spec now a) = a\<lparr>a_pend := None\<rparr>" using 3 by (simp add: commit_sell_spec_def)
      with s show ?thesis using small_pend [OF assms, of None] by simp
    next
      case 2
      then have "fst (commit_sell_spec now a) = a" using 3 by (simp add: commit_sell_spec_def)
      then show ?thesis using small_mono [OF assms] by simp
    next
      case (3 h)
      then have eq: "fst (commit_sell_spec now a) =
          a\<lparr>a_bal := a_bal a + cash, a_held := (a_held a)(sid \<mapsto> h - k), a_pend := None\<rparr>"
        using \<open>a_pend a = _\<close> by (simp add: commit_sell_spec_def)
      have "0 < k" using smallD(1) [OF assms(1)] \<open>a_pend a = _\<close> by (simp add: sound_def)
      moreover note smallD(6) [OF assms(1) \<open>a_pend a = _\<close>] smallD(3) [OF assms(1) 3(2)]
      ultimately show ?thesis
        using s small_mono [OF assms] smallD(2) [OF assms(1)] assms(2) unfolding eq by (simp add: small_def)
    qed
  qed (use small_mono [OF assms] in \<open>simp_all add: commit_sell_spec_def\<close>)
qed

lemma small_new_order:
  assumes "small K n a" "0 \<le> m" "m \<le> K"
  shows "small K (Suc n) (a\<lparr>a_order := (a_order a)(k \<mapsto> (m, p))\<rparr>)"
proof (rule small_order [OF assms(1)])
  show "sound (a\<lparr>a_order := (a_order a)(k \<mapsto> (m, p))\<rparr>)" using smallD(1) [OF assms(1)] assms(2) by (rule sound_new_order)
  show "m' \<le> K" if "((a_order a)(k \<mapsto> (m, p))) k' = Some (m', p')" for k' m' p'
    using that assms(3) smallD(4) [OF assms(1), of k' m' p'] by (simp split: if_splits)
qed (use assms in simp)

lemma small_set_buy:
  assumes "small K n a" "0 \<le> m" "m \<le> K"
  shows "small K (Suc n) (fst (set_buy_spec sid m a))"
proof -
  have K: "0 \<le> K" using assms(2,3) by simp
  have s: "sound (fst (set_buy_spec sid m a))" using smallD(1) [OF assms(1)] assms(2) by (rule sound_set_buy)
  note new = small_new_order [OF assms(1-3), of "(CHR ''b'', sid)" 0]
  show ?thesis
  proof (cases "a_pend a = None \<and> m \<le> a_bal a \<and> a_order a (CHR ''b'', sid) = None")
    case True
    then have eq: "fst (set_buy_spec sid m a) = a\<lparr>a_bal := a_bal a - m, a_order := (a_order a)((CHR ''b'', sid) \<mapsto> (m, 0))\<rparr>"
      by (simp add: set_buy_spec_def)
    show ?thesis using s new assms(2) unfolding eq by (simp add: small_def)
  next
    case False
    then have "fst (set_buy_spec sid m a) = a" by (auto simp: set_buy_spec_def)
    then show ?thesis using small_mono [OF assms(1) K] by simp
  qed
qed

lemma small_set_trigger:
  assumes "small K n a" "0 \<le> K"
  shows "small K (Suc n) (fst (set_trigger_spec ty sid p a))"
proof (cases "a_order a (ty, sid)")
  case None
  then show ?thesis using small_mono [OF assms] by (simp add: set_trigger_spec_def)
next
  case (Some mp)
  obtain m q where mp: "mp = (m, q)" by (cases mp)
  have "0 \<le> m" "m \<le> K"
    using sound_order [OF smallD(1) [OF assms(1)]] smallD(4) [OF assms(1)] Some mp by simp_all
  from small_new_order [OF assms(1) this] Some mp show ?thesis by (simp add: set_trigger_spec_def)
qed

lemma small_set_sell:
  assumes "small K n a" "0 \<le> m" "m \<le> K"
  shows "small K (Suc n) (fst (set_sell_spec sid m a))"
  using small_new_order [OF assms] small_mono [OF assms(1)] assms(2,3) by (simp add: set_sell_spec_def)

text \<open>Cancelling, with whatever orders are lost.\<close>

lemma sound_sub_orders:
  assumes "sound a" "\<And>k v. ord k = Some v \<Longrightarrow> a_order a k = Some v"
  shows "sound (a\<lparr>a_order := ord\<rparr>)"
  using assms(1) assms(2) by (simp add: sound_def) blast

lemma small_lost:
  assumes "small K n a" "loses a ty sid ord"
  shows "small K n (a\<lparr>a_order := ord\<rparr>)"
  using assms(1) sound_sub_orders [OF smallD(1) [OF assms(1)] loses_sub [OF assms(2)]] loses_sub [OF assms(2)]
  by (simp add: small_def) blast

lemma small_cancel_losing:
  assumes "small K n a" "0 \<le> K"
  shows "loses a (CHR ''b'') sid ord \<Longrightarrow> small K (Suc n) (fst (cancel_buy_losing ord sid a))"
    "loses a (CHR ''s'') sid ord \<Longrightarrow> small K (Suc n) (fst (cancel_sell_losing ord sid a))"
proof -
  assume l: "loses a (CHR ''b'') sid ord"
  note lost = small_lost [OF assms(1) l]
  show "small K (Suc n) (fst (cancel_buy_losing ord sid a))"
  proof (cases "a_order a (CHR ''b'', sid)")
    case None
    then show ?thesis using small_mono [OF assms] by (simp add: cancel_buy_losing_def)
  next
    case (Some mp)
    obtain m p where mp: "mp = (m, p)" by (cases mp)
    have m: "0 \<le> m" "m \<le> K"
      using sound_order [OF smallD(1) [OF assms(1)]] smallD(4) [OF assms(1)] Some mp by simp_all
    have "small K (Suc n) (a\<lparr>a_order := ord, a_bal := a_bal a + m\<rparr>)"
      using sound_credit [OF smallD(1) [OF lost] m(1)] smallD(2) [OF assms(1)] m assms(2)
      by (intro small_balance [OF lost]) simp_all
    moreover have "a\<lparr>a_order := ord, a_bal := a_bal a + m\<rparr> = a\<lparr>a_bal := a_bal a + m, a_order := ord\<rparr>"
      by (cases a) simp
    ultimately show ?thesis using Some mp by (simp add: cancel_buy_losing_def)
  qed
next
  assume "loses a (CHR ''s'') sid ord"
  from small_mono [OF small_lost [OF assms(1) this] assms(2)] small_mono [OF assms]
  show "small K (Suc n) (fst (cancel_sell_losing ord sid a))"
    by (cases "a_order a (CHR ''s'', sid)") (simp_all add: cancel_sell_losing_def)
qed

section \<open>The prices\<close>

lemma stk_frames [simp]:
  "stk (fst (addTrigger st u tid s ty m p)) = stk st" "stk (removeTrigger st a) = stk st"
  "stk (fst (addUserStock st u s k)) = stk st" "stk (setUserStock st u s k) = stk st" "stk (set_trig a p st) = stk st"
  "stk (crash st) = stk st"
  by (auto simp: addTrigger_def removeTrigger_def addUserStock_def setUserStock_def set_trig_def crash_def
      put_trig_ring_def Let_def split_beta split: option.splits)

lemma prices_frames [price_intros]:
  assumes "prices_within b e st"
  shows "prices_within b e (log_accTrans e' tid action uid funds st)" "prices_within b e (log_line l st)"
    "prices_within b e (db_write stmts db st)" "prices_within b e (fst (addTrigger st u tid s ty m p))"
    "prices_within b e (removeTrigger st a)" "prices_within b e (setUserStock st u s k)"
    "prices_within b e (fst (addUserStock st u s k))"
    "prices_within b e (set_trig a p st)" "prices_within b e (quickSend sock str st)"
  using assms by (simp_all add: prices_within_def)

lemma prices_stored [price_intros]:
  assumes "prices_within b e st" "\<And>stmt x. prices_within b e x \<Longrightarrow> prices_within b e (g stmt x)"
  shows "prices_within b e (case (case getUserStock st u s of
          None \<Rightarrow> (case addUserStock st u s k of
                     (x, None) \<Rightarrow> (None, x)
                   | (x, Some us) \<Rightarrow> (Some (InsertStk uid sid (num us)), x))
        | Some us \<Rightarrow> (Some (UpdateStk (f us) uid sid), setUserStock st u s (f us)))
      of (stmt, x) \<Rightarrow> (case stmt of None \<Rightarrow> crash x | Some stmt \<Rightarrow> g stmt x))"
  using prices_frames(6,7) [OF assms(1)] assms(2) prices_output(6)
  by (auto split: option.split prod.split simp: prod_eq_iff)

lemma prices_commands:
  assumes "prices_within b e st" "0 \<le> b"
  shows "prices_within b e (cmd_quote e c st)" "prices_within b e (cmd_buy e c st)"
    "prices_within b e (cmd_cancel_buy e c st)" "prices_within b e (cmd_cancel_sell e c st)"
    "prices_within b e (cmd_set_buy_amount e c st)" "prices_within b e (cmd_set_sell_amount e c st)"
    "prices_within b e (cmd_set_buy_trigger e c st)" "prices_within b e (cmd_set_sell_trigger e c st)"
    "prices_within b e (cmd_cancel_set_buy e c st)" "prices_within b e (cmd_cancel_set_sell e c st)"
    "prices_within b e (cmd_dumplog e c st)" "prices_within b e (cmd_bad c st)"
  unfolding cmd_quote_def cmd_buy_def cmd_cancel_buy_def cmd_cancel_sell_def cmd_set_buy_amount_def
    cmd_set_sell_amount_def cmd_set_buy_trigger_def cmd_set_sell_trigger_def cmd_cancel_set_buy_def
    cmd_cancel_set_sell_def cmd_dumplog_def cmd_bad_def Let_def
  by (rule price_intros assms | assumption)+

lemma prices_commits:
  assumes "prices_within b e st" "0 \<le> b"
  shows "prices_within b e (commit_buy_body e c s st)" "prices_within b e (commit_sell_body e c s us st)"
  unfolding commit_buy_body_def commit_sell_body_def Let_def
  by (rule price_intros assms | assumption | unfold split_beta)+

lemma prices_exec:
  assumes "prices_within b e st" "0 \<le> b"
  shows "prices_within b e (exec_command e c st)"
proof -
  have "prices_within b e (cmd_add e c st)"
    unfolding cmd_add_def Let_def split_beta by (rule price_intros assms)+
  moreover have "prices_within b e (cmd_commit_buy e c st)" "prices_within b e (cmd_commit_sell e c st)"
    unfolding cmd_commit_buy_def cmd_commit_sell_def Let_def split_beta
    by (rule price_intros prices_commits assms)+
  moreover have "prices_within b e (cmd_display_summary e c st)"
    unfolding cmd_display_summary_def Let_def split_beta by (rule price_intros assms)+
  ultimately show ?thesis
    unfolding exec_command_def Let_def by (intro price_intros prices_commands prices_sell assms)
qed

section \<open>The commands keep the books\<close>

text \<open>
  \<open>K\<close> bounds the amounts and the prices, \<open>U\<close> is the number of users, \<open>n\<close> counts the commands.
\<close>

definition books :: "env \<Rightarrow> int \<Rightarrow> nat \<Rightarrow> nat \<Rightarrow> server \<Rightarrow> bool" where
  "books e K U n st \<longleftrightarrow> server_ok st \<and> u_fresh st = U \<and> 0 \<le> K \<and> prices_within K e st \<and>
     list_all (\<lambda>u. small K n (account_of st u)) [0..<U]"

lemma booksD:
  assumes "books e K U n st"
  shows "server_ok st" "u_fresh st = U" "0 \<le> K" "prices_within K e st" "u < U \<Longrightarrow> small K n (account_of st u)"
  using assms by (auto simp: books_def list_all_iff)

definition amount_of :: "ctx \<Rightarrow> int" where
  "amount_of c = str2price (arg c (if c_cmd c = ''ADD'' then 0 else 1))"

definition moves_money :: "ctx \<Rightarrow> bool" where
  "moves_money c \<longleftrightarrow> c_cmd c \<in> {''ADD'', ''BUY'', ''SELL'', ''SET_BUY_AMOUNT'', ''SET_SELL_AMOUNT''}"

text \<open>The amount is one the parser rejects, or not negative and within the bound.\<close>

definition fair :: "int \<Rightarrow> nat \<Rightarrow> ctx \<Rightarrow> bool" where
  "fair K U c \<longleftrightarrow> c_user c < U \<and> (moves_money c \<longrightarrow> - 1 \<le> amount_of c \<and> amount_of c \<le> K)"

definition keeps :: "int \<Rightarrow> nat \<Rightarrow> ctx \<Rightarrow> server \<Rightarrow> server \<Rightarrow> bool" where
  "keeps K n c st st' \<longleftrightarrow> server_ok st' \<and> u_fresh st' = u_fresh st \<and> small K (Suc n) (account_of st' (c_user c)) \<and>
     (\<forall>v < u_fresh st. v \<noteq> c_user c \<longrightarrow> account_of st' v = account_of st v)"

lemma keeps_does: "does c st r st' \<Longrightarrow> small K (Suc n) (fst r) \<Longrightarrow> keeps K n c st st'"
  by (simp add: keeps_def does_def)

lemma keeps_if: "(b \<Longrightarrow> keeps K n c st x) \<Longrightarrow> (\<not> b \<Longrightarrow> keeps K n c st y) \<Longrightarrow> keeps K n c st (if b then x else y)"
  by simp

lemma keeps_fail:
  assumes "books e K U n st" "c_user c < U"
  shows "keeps K n c st (fail c k st)"
proof -
  note d = booksD [OF assms(1)]
  have "does c st (account_of st (c_user c), refuse k) (fail c k st)"
    by (rule does_fail [OF turns_start [OF d(1)]]) simp_all
  then show ?thesis using small_mono [OF d(5) [OF assms(2)] d(3)]
    by (intro keeps_does [where r = "(account_of st (c_user c), refuse k)"]) simp_all
qed

text \<open>A sum of two bounded parts fits, when the counter leaves room.\<close>

definition roomy :: "int \<Rightarrow> nat \<Rightarrow> bool" where
  "roomy K n \<longleftrightarrow> cap K n < 2 ^ 62"

lemma roomy_fits:
  assumes "roomy K (Suc n)" "0 \<le> K" "- cap K (Suc n) \<le> x" "x \<le> cap K (Suc n) + 2 * K"
  shows "fits64 x"
proof -
  have "2 * K \<le> cap K (Suc n)" using assms(2) by simp
  moreover have "cap K (Suc n) < 2 ^ 62" using assms(1) by (simp add: roomy_def)
  ultimately show ?thesis using assms(3,4) by (simp add: fits64_def)
qed

lemma refusals:
  "\<not> validStockID (arg c 0) \<Longrightarrow> cmd_buy e c st = fail c (- 17) st"
  "\<not> validStockID (arg c 0) \<Longrightarrow> cmd_sell e c st = fail c (- 17) st"
  "\<not> validStockID (arg c 0) \<Longrightarrow> cmd_quote e c st = fail c (- 17) st"
  "\<not> validStockID (arg c 0) \<Longrightarrow> cmd_set_buy_amount e c st = fail c (- 17) st"
  "\<not> validStockID (arg c 0) \<Longrightarrow> cmd_set_sell_amount e c st = fail c (- 17) st"
  "\<not> validStockID (arg c 0) \<Longrightarrow> cmd_set_buy_trigger e c st = fail c (- 17) st"
  "\<not> validStockID (arg c 0) \<Longrightarrow> cmd_set_sell_trigger e c st = fail c (- 17) st"
  "\<not> validStockID (arg c 0) \<Longrightarrow> cmd_cancel_set_buy e c st = fail c (- 17) st"
  "\<not> validStockID (arg c 0) \<Longrightarrow> cmd_cancel_set_sell e c st = fail c (- 17) st"
  "str2price (arg c 0) = - 1 \<Longrightarrow> cmd_add e c st = fail c (- 19) st"
  "validStockID (arg c 0) \<Longrightarrow> str2price (arg c 1) = - 1 \<Longrightarrow> cmd_buy e c st = fail c (- 19) st"
  "validStockID (arg c 0) \<Longrightarrow> str2price (arg c 1) = - 1 \<Longrightarrow> cmd_sell e c st = fail c (- 19) st"
  "validStockID (arg c 0) \<Longrightarrow> str2price (arg c 1) = - 1 \<Longrightarrow> cmd_set_buy_amount e c st = fail c (- 19) st"
  "validStockID (arg c 0) \<Longrightarrow> str2price (arg c 1) = - 1 \<Longrightarrow> cmd_set_sell_amount e c st = fail c (- 19) st"
  "validStockID (arg c 0) \<Longrightarrow> str2price (arg c 1) = - 1 \<Longrightarrow> cmd_set_buy_trigger e c st = fail c (- 19) st"
  "validStockID (arg c 0) \<Longrightarrow> str2price (arg c 1) = - 1 \<Longrightarrow> cmd_set_sell_trigger e c st = fail c (- 19) st"
  unfolding cmd_buy_def cmd_sell_def cmd_quote_def cmd_set_buy_amount_def cmd_set_sell_amount_def cmd_set_buy_trigger_def
    cmd_set_sell_trigger_def cmd_cancel_set_buy_def cmd_cancel_set_sell_def cmd_add_def Let_def
  by (simp_all only: simp_thms if_True if_False)

text \<open>What the proofs read off the invariant, for the user of the command.\<close>

lemma books_user:
  assumes "books e K U n st" "c_user c < U"
  shows "c_user c < u_fresh st" "0 \<le> balance (cuser c st)" "balance (cuser c st) \<le> cap K n"
    "small K n (account_of st (c_user c))"
proof -
  note d = booksD [OF assms(1)]
  show sm: "small K n (account_of st (c_user c))" using d(5) assms(2) .
  show "c_user c < u_fresh st" using d(2) assms(2) by simp
  show "0 \<le> balance (cuser c st)" "balance (cuser c st) \<le> cap K n"
    using smallD(1,2) [OF sm] by (simp_all add: sound_def)
qed

text \<open>In such a state every command does what it specifies: no sum leaves the 64 bits.\<close>

lemma did_add:
  assumes b: "books e K U n st" and u: "c_user c < U" and r: "roomy K (Suc n)"
    and m: "0 \<le> str2price (arg c 0)" "str2price (arg c 0) \<le> K"
  shows "does c st (add_spec (str2price (arg c 0)) (account_of st (c_user c))) (cmd_add e c st)"
proof -
  note d = booksD [OF b] and w = books_user [OF b u]
  have "fits64 (balance (cuser c st) + str2price (arg c 0))"
    using w(2,3) m d(3) by (intro roomy_fits [OF r d(3)]) simp_all
  then show ?thesis using m(1) by (intro add_refines [OF d(1) w(1) refl]) simp_all
qed

lemma keeps_add:
  assumes b: "books e K U n st" and u: "c_user c < U" and r: "roomy K (Suc n)"
    and m: "- 1 \<le> str2price (arg c 0)" "str2price (arg c 0) \<le> K"
  shows "keeps K n c st (cmd_add e c st)"
proof (cases "str2price (arg c 0) = - 1")
  case True
  then show ?thesis by (simp only: refusals keeps_fail [OF b u])
next
  case False
  then have m0: "0 \<le> str2price (arg c 0)" using m(1) by simp
  from keeps_does [OF did_add [OF b u r m0 m(2)] small_add [OF books_user(4) [OF b u] m0 m(2)]] show ?thesis .
qed

lemma did_buy:
  assumes b: "books e K U n st" and u: "c_user c < U" and r: "roomy K (Suc n)" and v: "validStockID (arg c 0)"
    and m: "0 \<le> str2price (arg c 1)" "str2price (arg c 1) \<le> K"
  shows "does c st (buy_spec (sarg c 0) (str2price (arg c 1)) (fst (quote_in (cmd_buy e c st) (sarg c 0)))
    (snd (quote_in (cmd_buy e c st) (sarg c 0))) (account_of st (c_user c))) (cmd_buy e c st)"
proof -
  note d = booksD [OF b] and w = books_user [OF b u]
  have "fits64 (str2price (arg c 1))" using m d(3) cap_nonneg [OF d(3), of n]
    by (intro roomy_fits [OF r d(3)]; unfold cap_Suc; linarith)
  with m(1) show ?thesis by (intro buy_refines [OF d(1) w(1) v refl])
qed

lemma keeps_buy:
  assumes b: "books e K U n st" and u: "c_user c < U" and r: "roomy K (Suc n)"
    and m: "- 1 \<le> str2price (arg c 1)" "str2price (arg c 1) \<le> K"
  shows "keeps K n c st (cmd_buy e c st)"
proof (cases "validStockID (arg c 0) \<and> str2price (arg c 1) \<noteq> - 1")
  case False
  then have "cmd_buy e c st = fail c (- 17) st \<or> cmd_buy e c st = fail c (- 19) st" using refusals(1,11) by metis
  then show ?thesis using keeps_fail [OF b u] by metis
next
  case True
  then have m0: "0 \<le> str2price (arg c 1)" using m(1) by simp
  from keeps_does [OF did_buy [OF b u r conjunct1 [OF True] m0 m(2)] small_buy [OF books_user(4) [OF b u] m0 m(2)]]
  show ?thesis .
qed

lemma did_sell:
  assumes b: "books e K U n st" and u: "c_user c < U" and r: "roomy K (Suc n)" and v: "validStockID (arg c 0)"
    and m: "0 \<le> str2price (arg c 1)" "str2price (arg c 1) \<le> K"
  shows "\<exists>p t. p \<le> K \<and> does c st (sell_spec (sarg c 0) (str2price (arg c 1)) p t (account_of st (c_user c))) (cmd_sell e c st)"
proof -
  note d = booksD [OF b] and w = books_user [OF b u]
  let ?p = "fst (quote_in (cmd_sell e c st) (sarg c 0))"
  have p: "\<bar>?p\<bar> \<le> K" using prices_quote_in [OF prices_sell [OF d(4,3)] d(3)] .
  have "fits64 (str2price (arg c 1) + ?p)"
    using m p cap_nonneg [OF d(3), of n] d(3) by (intro roomy_fits [OF r d(3)]; unfold cap_Suc; linarith)
  from p sell_refines [OF d(1) w(1) v refl m(1) small_holding(1) [OF w(4) d(3)] this] show ?thesis
    by (meson abs_le_D1)
qed

lemma keeps_sell:
  assumes b: "books e K U n st" and u: "c_user c < U" and r: "roomy K (Suc n)"
    and m: "- 1 \<le> str2price (arg c 1)" "str2price (arg c 1) \<le> K"
  shows "keeps K n c st (cmd_sell e c st)"
proof (cases "validStockID (arg c 0) \<and> str2price (arg c 1) \<noteq> - 1")
  case False
  then have "cmd_sell e c st = fail c (- 17) st \<or> cmd_sell e c st = fail c (- 19) st" using refusals(2,12) by metis
  then show ?thesis using keeps_fail [OF b u] by metis
next
  case True
  then have m0: "0 \<le> str2price (arg c 1)" using m(1) by simp
  from did_sell [OF b u r conjunct1 [OF True] m0 m(2)] keeps_does small_sell [OF books_user(4) [OF b u] m0 m(2)]
  show ?thesis by blast
qed

lemma did_commit_buy:
  assumes b: "books e K U n st" and u: "c_user c < U" and r: "roomy K (Suc n)"
  shows "does c st (commit_buy_spec (commit_time e st (c_user c)) (account_of st (c_user c))) (cmd_commit_buy e c st)"
proof -
  note d = booksD [OF b] and w = books_user [OF b u]
  have "fits64 (balance (cuser c st) - cash) \<and> fits64 (holding (account_of st (c_user c)) sid + k)"
    if p: "a_pend (account_of st (c_user c)) = Some (Pending Buying sid k cash t)" for sid k cash t
  proof -
    have "0 < k \<and> 0 < cash" using smallD(1) [OF w(4)] p by (simp add: sound_def)
    moreover note smallD(5,6) [OF w(4) p] small_holding [OF w(4) d(3), of sid]
    ultimately show ?thesis
      using w(2,3) d(3) cap_nonneg [OF d(3), of n] by (intro conjI roomy_fits [OF r d(3)]) simp_all
  qed
  from commit_buy_at [OF d(1) w(1) this] show ?thesis .
qed

lemma did_commit_sell:
  assumes b: "books e K U n st" and u: "c_user c < U" and r: "roomy K (Suc n)"
  shows "does c st (commit_sell_spec (commit_time e st (c_user c)) (account_of st (c_user c))) (cmd_commit_sell e c st)"
proof -
  note d = booksD [OF b] and w = books_user [OF b u]
  have "fits64 (balance (cuser c st) + cash) \<and> (a_held (account_of st (c_user c)) sid = Some h \<longrightarrow> fits64 (h - k))"
    if p: "a_pend (account_of st (c_user c)) = Some (Pending Selling sid k cash t)" for sid k cash t h
  proof -
    have "0 < k \<and> 0 < cash \<and> k \<le> holding (account_of st (c_user c)) sid" using smallD(1) [OF w(4)] p by (simp add: sound_def)
    moreover note smallD(5,6) [OF w(4) p] small_holding [OF w(4) d(3), of sid]
    ultimately show ?thesis
      using w(2,3) d(3) cap_nonneg [OF d(3), of n] by (intro conjI impI roomy_fits [OF r d(3)]) (simp_all split: option.splits)
  qed
  from commit_sell_at [OF d(1) w(1) this] show ?thesis .
qed

lemma keeps_commits:
  assumes b: "books e K U n st" and u: "c_user c < U" and r: "roomy K (Suc n)"
  shows "keeps K n c st (cmd_commit_buy e c st)" "keeps K n c st (cmd_commit_sell e c st)"
  using keeps_does [OF did_commit_buy [OF b u r] small_commit_buy]
    keeps_does [OF did_commit_sell [OF b u r] small_commit_sell] books_user(4) [OF b u] booksD(3) [OF b]
  by blast+

lemma keeps_cancel:
  assumes b: "books e K U n st" and u: "c_user c < U"
  shows "keeps K n c st (cmd_cancel_buy e c st)" "keeps K n c st (cmd_cancel_sell e c st)"
proof -
  note d = booksD [OF b] and w = books_user [OF b u]
  note k = keeps_does [OF _ small_cancel [OF w(4) d(3)]]
  show "keeps K n c st (cmd_cancel_buy e c st)" "keeps K n c st (cmd_cancel_sell e c st)"
    using k [OF cancel_buy_refines [OF d(1) w(1)]] k [OF cancel_sell_refines [OF d(1) w(1)]] .
qed

lemma did_set_amount:
  assumes b: "books e K U n st" and u: "c_user c < U" and r: "roomy K (Suc n)" and v: "validStockID (arg c 0)"
    and m: "0 \<le> str2price (arg c 1)" "str2price (arg c 1) \<le> K"
  shows "does c st (set_buy_spec (sarg c 0) (str2price (arg c 1)) (account_of st (c_user c))) (cmd_set_buy_amount e c st)"
    "does c st (set_sell_spec (sarg c 0) (str2price (arg c 1)) (account_of st (c_user c))) (cmd_set_sell_amount e c st)"
proof -
  note d = booksD [OF b] and w = books_user [OF b u]
  have "fits64 (balance (cuser c st) - str2price (arg c 1))"
    using w(2,3) m d(3) cap_nonneg [OF d(3), of n] by (intro roomy_fits [OF r d(3)]) simp_all
  then show "does c st (set_buy_spec (sarg c 0) (str2price (arg c 1)) (account_of st (c_user c))) (cmd_set_buy_amount e c st)"
    using m(1) by (intro set_buy_amount_refines [OF d(1) w(1) v refl])
  show "does c st (set_sell_spec (sarg c 0) (str2price (arg c 1)) (account_of st (c_user c))) (cmd_set_sell_amount e c st)"
    using m(1) by (intro set_sell_amount_refines [OF d(1) w(1) v refl]) simp
qed

lemma keeps_set_amount:
  assumes b: "books e K U n st" and u: "c_user c < U" and r: "roomy K (Suc n)"
    and m: "- 1 \<le> str2price (arg c 1)" "str2price (arg c 1) \<le> K"
  shows "keeps K n c st (cmd_set_buy_amount e c st)" "keeps K n c st (cmd_set_sell_amount e c st)"
proof -
  note d = booksD [OF b] and w = books_user [OF b u]
  have "keeps K n c st (cmd_set_buy_amount e c st) \<and> keeps K n c st (cmd_set_sell_amount e c st)"
  proof (cases "validStockID (arg c 0) \<and> str2price (arg c 1) \<noteq> - 1")
    case False
    then have "\<exists>k. cmd_set_buy_amount e c st = fail c k st" "\<exists>k. cmd_set_sell_amount e c st = fail c k st"
      using refusals(4,5,13,14) by metis+
    then show ?thesis using keeps_fail [OF b u] by metis
  next
    case True
    then have v: "validStockID (arg c 0)" and m0: "0 \<le> str2price (arg c 1)" using m(1) by simp_all
    note did = did_set_amount [OF b u r v m0 m(2)]
    show ?thesis
      using keeps_does [OF did(1) small_set_buy [OF w(4) m0 m(2)]] keeps_does [OF did(2) small_set_sell [OF w(4) m0 m(2)]] ..
  qed
  then show "keeps K n c st (cmd_set_buy_amount e c st)" "keeps K n c st (cmd_set_sell_amount e c st)" by simp_all
qed

lemma keeps_set_trigger:
  assumes b: "books e K U n st" and u: "c_user c < U"
  shows "keeps K n c st (cmd_set_buy_trigger e c st)" "keeps K n c st (cmd_set_sell_trigger e c st)"
proof -
  note d = booksD [OF b] and w = books_user [OF b u]
  have "keeps K n c st (cmd_set_buy_trigger e c st) \<and> keeps K n c st (cmd_set_sell_trigger e c st)"
  proof (cases "validStockID (arg c 0) \<and> str2price (arg c 1) \<noteq> - 1")
    case False
    then have "\<exists>k. cmd_set_buy_trigger e c st = fail c k st" "\<exists>k. cmd_set_sell_trigger e c st = fail c k st"
      using refusals(6,7,15,16) by metis+
    then show ?thesis using keeps_fail [OF b u] by metis
  next
    case True
    then have v: "validStockID (arg c 0)" and m1: "str2price (arg c 1) \<noteq> - 1" by simp_all
    note t = set_trigger_refines [OF d(1) w(1) v refl m1]
    show ?thesis
      using keeps_does [OF t(1) small_set_trigger [OF w(4) d(3)]] keeps_does [OF t(2) small_set_trigger [OF w(4) d(3)]] ..
  qed
  then show "keeps K n c st (cmd_set_buy_trigger e c st)" "keeps K n c st (cmd_set_sell_trigger e c st)" by simp_all
qed

lemma did_cancel_set:
  assumes b: "books e K U n st" and u: "c_user c < U" and r: "roomy K (Suc n)" and v: "validStockID (arg c 0)"
  shows "\<exists>ord. loses (account_of st (c_user c)) (CHR ''b'') (sarg c 0) ord \<and>
      does c st (cancel_buy_losing ord (sarg c 0) (account_of st (c_user c))) (cmd_cancel_set_buy e c st)"
    "\<exists>ord. loses (account_of st (c_user c)) (CHR ''s'') (sarg c 0) ord \<and>
      does c st (cancel_sell_losing ord (sarg c 0) (account_of st (c_user c))) (cmd_cancel_set_sell e c st)"
proof -
  note d = booksD [OF b] and w = books_user [OF b u]
  let ?a = "account_of st (c_user c)"
  have f: "fits64 (balance (cuser c st) + m)" if "a_order ?a (CHR ''b'', sarg c 0) = Some (m, p)" for m p
    using w(2,3) sound_order [OF smallD(1) [OF w(4)] that] smallD(4) [OF w(4) that] d(3) cap_nonneg [OF d(3), of n]
    by (intro roomy_fits [OF r d(3)]; unfold cap_Suc; linarith)
  show "\<exists>ord. loses ?a (CHR ''b'') (sarg c 0) ord \<and> does c st (cancel_buy_losing ord (sarg c 0) ?a) (cmd_cancel_set_buy e c st)"
    by (rule cancel_set_buy_loses [OF d(1) w(1) v, where e = e]) (erule f, blast)
  show "\<exists>ord. loses ?a (CHR ''s'') (sarg c 0) ord \<and> does c st (cancel_sell_losing ord (sarg c 0) ?a) (cmd_cancel_set_sell e c st)"
    by (rule cancel_set_sell_loses [OF d(1) w(1) v, where e = e]) blast
qed

lemma keeps_cancel_set:
  assumes b: "books e K U n st" and u: "c_user c < U" and r: "roomy K (Suc n)"
  shows "keeps K n c st (cmd_cancel_set_buy e c st)" "keeps K n c st (cmd_cancel_set_sell e c st)"
proof -
  note d = booksD [OF b] and w = books_user [OF b u]
  have "keeps K n c st (cmd_cancel_set_buy e c st) \<and> keeps K n c st (cmd_cancel_set_sell e c st)"
  proof (cases "validStockID (arg c 0)")
    case True
    note did = did_cancel_set [OF b u r True] and sm = small_cancel_losing [OF w(4) d(3)]
    from did(1) keeps_does [OF _ sm(1)] did(2) keeps_does [OF _ sm(2)] show ?thesis by blast
  qed (simp only: refusals keeps_fail [OF b u] not_False_eq_True simp_thms)
  then show "keeps K n c st (cmd_cancel_set_buy e c st)" "keeps K n c st (cmd_cancel_set_sell e c st)" by simp_all
qed

lemma did_others:
  assumes b: "books e K U n st" and u: "c_user c < U"
  shows "\<exists>body. does c st (account_of st (c_user c), body) (cmd_quote e c st)"
    "\<exists>body. does c st (account_of st (c_user c), body) (cmd_dumplog e c st)"
    "\<exists>body. does c st (account_of st (c_user c), body) (cmd_display_summary e c st)"
proof -
  note d = booksD [OF b] and w = books_user [OF b u]
  have f: "\<exists>body. does c st (account_of st (c_user c), body) (fail c k st)" for k
    by (intro exI does_fail [OF turns_start [OF d(1)]]) simp_all
  show "\<exists>body. does c st (account_of st (c_user c), body) (cmd_quote e c st)"
  proof (cases "validStockID (arg c 0)")
    case True
    from quote_refines [OF d(1) w(1) this, of e] show ?thesis by blast
  qed (simp only: refusals f not_False_eq_True)
  show "\<exists>body. does c st (account_of st (c_user c), body) (cmd_dumplog e c st)"
  proof (cases "length (sarg c 0) < 2")
    case True
    then show ?thesis unfolding cmd_dumplog_def Let_def by (simp only: if_True f)
  next
    case False
    have "does c st (account_of st (c_user c), ''SUCC'') (cmd_dumplog e c st)"
      unfolding cmd_dumplog_def Let_def if_not_P [OF False]
      by (rule does_succ) ((rule turns_intros turns_start d(1) w(1))+, simp_all)
    then show ?thesis ..
  qed
  have "does c st (account_of st (c_user c), ''SUCC|'' @ show_long (balance (cuser c st)) @ ''|'' @
      concat (map (stock_line st) (objects (usTree (cuser c st)))) @ ''|'' @
      concat (map (trigger_line st) (objects (tTree (cuser c st))))) (cmd_display_summary e c st)"
    unfolding summary_eq [OF d(1) w(1)] Let_def by (rule does_reply [OF turns_logged [OF d(1) w(1)]]) simp_all
  then show "\<exists>body. does c st (account_of st (c_user c), body) (cmd_display_summary e c st)" ..
qed

lemma bad_account: "account_of (cmd_bad c st) v = account_of st v"
  by (simp add: cmd_bad_def account_of_def pending_of_def)

lemma keeps_others:
  assumes b: "books e K U n st" and u: "c_user c < U"
  shows "keeps K n c st (cmd_quote e c st)" "keeps K n c st (cmd_dumplog e c st)"
    "keeps K n c st (cmd_display_summary e c st)" "keeps K n c st (cmd_bad c st)"
proof -
  note d = booksD [OF b] and w = books_user [OF b u]
  note sm = small_mono [OF w(4) d(3)]
  have k: "keeps K n c st st'" if "\<exists>body. does c st (account_of st (c_user c), body) st'" for st'
    using keeps_does that sm by (metis fst_conv)
  note did = did_others [OF b u]
  show "keeps K n c st (cmd_quote e c st)" "keeps K n c st (cmd_dumplog e c st)"
    "keeps K n c st (cmd_display_summary e c st)" using did k by blast+
  have "server_ok (cmd_bad c st)" "u_fresh (cmd_bad c st) = u_fresh st"
    using ok_output(4) [OF d(1)] by (simp_all add: cmd_bad_def)
  then show "keeps K n c st (cmd_bad c st)" using sm by (simp add: keeps_def bad_account)
qed

lemma exec_books:
  assumes b: "books e K U n st" and r: "roomy K (Suc n)" and f: "fair K U c"
  shows "books e K U (Suc n) (exec_command e c st)"
proof -
  note d = booksD [OF b]
  have u: "c_user c < U" using f by (simp add: fair_def)
  have m0: "- 1 \<le> str2price (arg c 0)" "str2price (arg c 0) \<le> K" if "c_cmd c = ''ADD''"
    using f that by (simp_all add: fair_def moves_money_def amount_of_def)
  have m1: "- 1 \<le> str2price (arg c 1)" "str2price (arg c 1) \<le> K"
    if "c_cmd c \<in> {''BUY'', ''SELL'', ''SET_BUY_AMOUNT'', ''SET_SELL_AMOUNT''}"
    using f that by (auto simp: fair_def moves_money_def amount_of_def)
  have "keeps K n c st (exec_command e c st)"
    unfolding exec_command_def Let_def
    by (intro keeps_if keeps_add [OF b u r] keeps_buy [OF b u r] keeps_sell [OF b u r] keeps_commits [OF b u r] keeps_cancel [OF b u] keeps_set_amount [OF b u r] keeps_set_trigger [OF b u]
        keeps_cancel_set [OF b u r] keeps_others [OF b u] m0 m1) simp_all
  moreover have "prices_within K e (exec_command e c st)" using d(4,3) by (rule prices_exec)
  moreover have "small K (Suc n) (account_of st v)" if "v < U" for v
    using small_mono [OF d(5) [OF that] d(3)] .
  ultimately show ?thesis
    using d(2,3) unfolding books_def keeps_def list_all_iff by (metis atLeastLessThan_iff set_upt)
qed

interpretation books: counted_run "exec_command e" "books e K U" "fair K U" "\<lambda>n. 0 \<le> K \<longrightarrow> roomy K n" for e K U
proof
  show "books e K U (Suc n) (exec_command e c s)"
    if "books e K U n s" "0 \<le> K \<longrightarrow> roomy K (Suc n)" "fair K U c" for n s c
    using exec_books [OF that(1) _ that(3)] that(2) booksD(3) [OF that(1)] by blast
  show "0 \<le> K \<longrightarrow> roomy K m" if "0 \<le> K \<longrightarrow> roomy K n" "m \<le> n" for n m
    using that cap_mono [of K m n] by (auto simp: roomy_def)
qed


lemma sample_books: "books sample_env 1000 1 1 sample_server"
proof -
  have "small 1000 1 sample_account"
    by (auto simp: small_def sound_def sample_account_def cap_def split: if_splits)
  then show ?thesis using sample_ok sample_prices by (simp add: books_def)
qed


end
