(* ===== verification/Queues_Kept.thy ===== *)
theory Queues_Kept
  imports Scheduling Triggers
begin

text \<open>
  Executing a command and firing triggers leave all command queues and the semaphore \<open>avail\<close>
  alone: only connection threads append commands and only command threads take them.
\<close>

definition calm :: "server \<Rightarrow> server \<Rightarrow> bool" where
  "calm st st' \<longleftrightarrow> avail st' = avail st \<and> (\<forall>v. commList (usr st' v) = commList (usr st v))"

named_theorems calm_intros "operations that keep the command queues"

lemma calm_refl [calm_intros]: "calm st st"
  by (simp add: calm_def)

lemma calm_trans: "calm st st' \<Longrightarrow> calm st' st'' \<Longrightarrow> calm st st''"
  by (simp add: calm_def)

lemma calm_output [calm_intros]:
  assumes "calm st st'"
  shows "calm st (log_userCmd e tid cmd uid sid file funds st')" "calm st (log_accTrans e tid action uid funds st')"
    "calm st (log_line l st')" "calm st (db_write stmts db st')" "calm st (snd (getmTS e st'))"
    "calm st (quickSend sock str st')" "calm st (reply c body st')" "calm st (fail c k st')" "calm st (succ c st')"
    "calm st (crash st')" "calm st (ask_quote e c s st')" "calm st (refresh_quote e c s st')"
  using assms
  by (simp_all add: calm_def quickSend_def reply_def fail_def succ_def crash_def refresh_quote_def ask_quote_def
      getmTS_def upd_stock_def Let_def split_beta)

lemma calm_updates [calm_intros]:
  assumes "calm st st'"
  shows "calm st (upd_user u (\<lambda>x. x\<lparr>balance := f x\<rparr>) st')" "calm st (upd_user u clear_pending st')"
    "calm st (upd_user u (\<lambda>x. x\<lparr>prompt_time := t, stockObj := p, reserve := r, no := k, buysell := b\<rparr>) st')"
    "calm st (setUserStock st' u s n)" "calm st (fst (addUserStock st' u s n))"
    "calm st (fst (addTrigger st' u tid s ty m prc))" "calm st (removeTrigger st' a)" "calm st (set_trig a prc st')"
    "calm st (fst (ensureStock st' sid))" "calm st (put_trig_ring s rg st')"
  using assms
  by (auto simp: calm_def clear_pending_def setUserStock_def addUserStock_def addTrigger_def removeTrigger_def
      set_trig_def ensureStock_def addStock_def put_trig_ring_def crash_def Let_def split_beta split: option.split)

lemma calm_if [calm_intros]: "(b \<Longrightarrow> calm st x) \<Longrightarrow> (\<not> b \<Longrightarrow> calm st y) \<Longrightarrow> calm st (if b then x else y)"
  by simp

lemma calm_option [calm_intros]:
  "calm st x \<Longrightarrow> (\<And>z. calm st (g z)) \<Longrightarrow> calm st (case w of None \<Rightarrow> x | Some z \<Rightarrow> g z)"
  by (simp split: option.split)

lemma calm_ensure [calm_intros]:
  assumes "calm st st'" "\<And>x s. calm st x \<Longrightarrow> calm st (g x s)"
  shows "calm st (case ensureStock st' sid of (x, None) \<Rightarrow> crash x | (x, Some s) \<Rightarrow> g x s)"
  using calm_updates(9) [OF assms(1), of sid] assms(2) calm_output(10) by (auto split: prod.split option.split)

lemma calm_stored [calm_intros]:
  assumes "calm st st'" "\<And>stmt x. calm st x \<Longrightarrow> calm st (g stmt x)"
  shows "calm st (case (case w of
          None \<Rightarrow> (case addUserStock st' u s k of
                     (x, None) \<Rightarrow> (None, x)
                   | (x, Some us) \<Rightarrow> (Some (InsertStk uid sid (num us)), x))
        | Some us \<Rightarrow> (Some (UpdateStk (f us) uid sid), setUserStock st' u s (f us)))
      of (stmt, x) \<Rightarrow> (case stmt of None \<Rightarrow> crash x | Some stmt \<Rightarrow> g stmt x))"
  using calm_updates(4,5) [OF assms(1)] assms(2) calm_output(10)
  by (auto split: option.split prod.split simp: prod_eq_iff)

lemma calm_commits:
  assumes "calm st st'"
  shows "calm st (commit_buy_body e c s st')" "calm st (commit_sell_body e c s us st')"
  unfolding commit_buy_body_def commit_sell_body_def Let_def
  by (rule calm_intros assms | assumption | unfold split_beta)+

lemma calm_commands:
  "calm st (cmd_quote e c st)" "calm st (cmd_buy e c st)" "calm st (cmd_sell e c st)"
  "calm st (cmd_cancel_buy e c st)" "calm st (cmd_cancel_sell e c st)"
  "calm st (cmd_set_buy_amount e c st)" "calm st (cmd_set_sell_amount e c st)"
  "calm st (cmd_set_buy_trigger e c st)" "calm st (cmd_set_sell_trigger e c st)"
  "calm st (cmd_cancel_set_buy e c st)" "calm st (cmd_cancel_set_sell e c st)"
  "calm st (cmd_dumplog e c st)" "calm st (cmd_bad c st)"
  unfolding cmd_quote_def cmd_buy_def cmd_sell_def cmd_cancel_buy_def cmd_cancel_sell_def cmd_set_buy_amount_def
    cmd_set_sell_amount_def cmd_set_buy_trigger_def cmd_set_sell_trigger_def cmd_cancel_set_buy_def
    cmd_cancel_set_sell_def cmd_dumplog_def cmd_bad_def Let_def
  by (rule calm_intros | assumption)+

lemma calm_exec: "calm st (exec_command e c st)"
proof -
  have "calm st (cmd_add e c st)" "calm st (cmd_commit_buy e c st)" "calm st (cmd_commit_sell e c st)"
    unfolding cmd_add_def cmd_commit_buy_def cmd_commit_sell_def Let_def split_beta
    by (rule calm_intros calm_commits)+
  moreover have "calm st (cmd_display_summary e c st)"
    unfolding cmd_display_summary_def Let_def split_beta by (rule calm_intros)+
  ultimately show ?thesis unfolding exec_command_def Let_def by (intro calm_if calm_commands)
qed

section \<open>Firing\<close>

lemma calm_fire: "calm st (fst (fire e s p a tr st))"
proof -
  have "calm st (fire_buy e s p n a tr st)" for n
    unfolding fire_buy_def Let_def by (rule calm_intros | assumption | unfold split_beta)+
  moreover have "calm st (fire_sell e s p a tr us st)" for us
    unfolding fire_sell_def Let_def split_beta by (rule calm_intros)+
  ultimately show ?thesis by (auto simp: fire_def Let_def calm_refl split: option.split)
qed

lemma calm_pass_step: "calm st (fst (snd (pass_step e busy s p start st)))"
proof -
  let ?st = "put_trig_ring s (ring_advance (trig_ring st s)) st"
  have a: "calm st ?st" by (intro calm_intros)
  then have "calm st (fst (fire e s p x tr ?st))" for x tr using calm_trans calm_fire by blast
  with a calm_output(10) calm_refl show ?thesis
    by (auto simp: pass_step_def Let_def split_beta split: option.split)
qed

lemma calm_pass: "pass_loop e busy s p fuel k start st = Some (seen, st') \<Longrightarrow> calm st st'"
proof (induction fuel arbitrary: k start st seen)
  case (Suc fuel)
  obtain sn st1 s1 ag where st1: "pass_step e (busy k) s p start st = (sn, st1, s1, ag)" by (rule prod_cases4)
  then have c: "calm st st1" using calm_pass_step [of st e "busy k" s p start] by simp
  show ?case
  proof (cases ag)
    case True
    then obtain sn' where "pass_loop e busy s p fuel (Suc k) s1 st1 = Some (sn', st')"
      using Suc.prems st1 by auto
    from calm_trans [OF c Suc.IH [OF this]] show ?thesis .
  next
    case False
    with Suc.prems st1 c show ?thesis by simp
  qed
qed simp

lemma pass_more_fuel:
  "pass_loop e busy s p fuel k start st = Some r \<Longrightarrow> fuel \<le> fuel' \<Longrightarrow> pass_loop e busy s p fuel' k start st = Some r"
proof (induction fuel arbitrary: fuel' k start st r)
  case (Suc fuel)
  obtain sn st1 s1 ag where st1: "pass_step e (busy k) s p start st = (sn, st1, s1, ag)" by (rule prod_cases4)
  obtain f where f: "fuel' = Suc f" "fuel \<le> f" using Suc.prems(2) by (cases fuel') auto
  show ?case
  proof (cases ag)
    case True
    with Suc.prems(1) st1 obtain r' where "pass_loop e busy s p fuel (Suc k) s1 st1 = Some r'" by auto
    from this Suc.IH [OF this f(2)] Suc.prems(1) st1 True f(1) show ?thesis by simp
  next
    case False
    with Suc.prems(1) st1 f(1) show ?thesis by simp
  qed
qed simp

end
