(* ===== verification/System.thy ===== *)
theory System
  imports Queues_Kept
begin

text \<open>
  The transaction server as a whole: connection threads that append commands, command threads that
  take and execute them, and the trigger thread, in any order. A step is one message, one turn of a
  command thread or one round of the trigger thread. The user's and the stock's mutex keep the steps
  that touch the same account or stock apart; steps on different ones, which may overlap in the
  program, are one after the other here. The server starts empty. Two premises bound the steps: the
  messages are those of the system's clients (\<open>sendable\<close>), and a round of the trigger thread looks
  at a stock whose listed triggers are all still held by their owners (\<open>armed\<close>): the off-by-one of
  \<open>removeTrigger\<close> can unhook one, and firing it then faults (\<open>order_vanishes\<close>).
\<close>

record system =
  srv :: server
  conns :: "nat \<Rightarrow> conn"
  cursor :: "nat \<Rightarrow> addr option"

definition system_init :: system where
  "system_init = \<lparr>srv = server_init, conns = (\<lambda>_. conn_init), cursor = (\<lambda>_. None)\<rparr>"

text \<open>
  The start of a command thread: it waits until a command is queued and walks from the first user
  to one whose mutex it gets.
\<close>

fun first_free :: "nat \<Rightarrow> (nat \<Rightarrow> bool) \<Rightarrow> nat \<Rightarrow> server \<Rightarrow> addr \<Rightarrow> addr option" where
  "first_free 0 busy k st u = None"
| "first_free (Suc fuel) busy k st u =
     (if busy k then first_free fuel busy (Suc k) st (r_next (u_ring st) u) else Some u)"

definition command_start :: "nat \<Rightarrow> (nat \<Rightarrow> bool) \<Rightarrow> server \<Rightarrow> addr option" where
  "command_start fuel busy st =
     (if avail st = 0 then None
      else case r_curr (u_ring st) of None \<Rightarrow> None | Some u \<Rightarrow> first_free fuel busy 0 st u)"

text \<open>
  The messages of the clients: a user with a valid identifier, at most two arguments (a third one
  is written past \<open>comm\<close>), and a length that leaves room in the buffer.
\<close>

definition sendable :: "string \<Rightarrow> string \<Rightarrow> string \<Rightarrow> string option \<Rightarrow> bool" where
  "sendable tid cmd uid co \<longleftrightarrow> validUserID (Some uid) \<and> field tid \<and> field cmd \<and>
     (case co of None \<Rightarrow> True | Some a \<Rightarrow> field a \<and> (a \<noteq> [] \<longrightarrow> last a \<notin> line_end)) \<and>
     length (args_of co) \<le> 2 \<and> length (wsc_text tid cmd uid co) < 199"

inductive system_step :: "env \<Rightarrow> system \<Rightarrow> system \<Rightarrow> bool" for e where
  arrives: "sendable tid cmd uid co \<Longrightarrow> trail = [] \<or> trail = [NUL] \<Longrightarrow>
    connection_message e sock (wsc_text tid cmd uid co @ trail) (conns s i) (srv s) = (cn, st) \<Longrightarrow>
    system_step e s (s\<lparr>srv := st, conns := (conns s)(i := cn)\<rparr>)"
| starts: "cursor s t = None \<Longrightarrow> command_start fuel busy (srv s) = Some u \<Longrightarrow>
    system_step e s (s\<lparr>cursor := (cursor s)(t \<mapsto> u)\<rparr>)"
| runs: "cursor s t = Some u \<Longrightarrow> command_turn e fuel busy k r u (srv s) = Some (v, st, k') \<Longrightarrow>
    system_step e s (s\<lparr>srv := st, cursor := (cursor s)(t \<mapsto> v)\<rparr>)"
| fires: "trigger_round e busy fuel r cStock (srv s) = Some (stock, seen, st) \<Longrightarrow>
    armed (srv s) (r_next (s_ring (srv s)) cStock) as \<Longrightarrow>
    system_step e s (s\<lparr>srv := st\<rparr>)"

inductive system_reachable :: "env \<Rightarrow> system \<Rightarrow> bool" for e where
  init: "system_reachable e system_init"
| step: "system_reachable e s \<Longrightarrow> system_step e s s' \<Longrightarrow> system_reachable e s'"

section \<open>The invariant\<close>

definition queued :: "server \<Rightarrow> addr \<Rightarrow> command list" where
  "queued st u = contents (commList (usr st u))"

definition command_ok :: "command \<Rightarrow> bool" where
  "command_ok cm \<longleftrightarrow> (case comm cm of None \<Rightarrow> True | Some a \<Rightarrow> is_cstr a) \<and> length (args_of (comm cm)) \<le> 2"

text \<open>
  The semaphore counts the queued commands, which can all be executed; every cursor is at a user
  and every buffer of a connection thread is in shape.
\<close>

definition queues_ok :: "server \<Rightarrow> bool" where
  "queues_ok st \<longleftrightarrow> (\<forall>u < u_fresh st. list_all command_ok (queued st u)) \<and>
     avail st = (\<Sum>u < u_fresh st. length (queued st u))"

definition system_ok :: "system \<Rightarrow> bool" where
  "system_ok s \<longleftrightarrow> server_ok (srv s) \<and> queues_ok (srv s) \<and> (\<forall>i. conn_ok (conns s i)) \<and>
     (\<forall>t u. cursor s t = Some u \<longrightarrow> u < u_fresh (srv s))"

lemma calm_queues:
  "calm st st' \<Longrightarrow> u_fresh st' = u_fresh st \<Longrightarrow> queues_ok st' = queues_ok st"
  by (simp add: queues_ok_def queued_def calm_def)

lemma system_ok_init: "system_ok system_init"
  using conn_ok_init server_ok_init
  by (simp add: system_ok_def system_init_def queues_ok_def) (simp add: server_init_def)

section \<open>A message arrives\<close>

text \<open>The queues after a command has been appended: those of the other users are the same.\<close>

lemma enqueue_others:
  assumes ok: "server_ok st" and uid: "validUserID (Some uid)"
    and r: "getUser st uid = None \<Longrightarrow> rows_ok e (length (db_sent st))"
  obtains u where "u_fresh (enqueue_command e sock tid cmd uid co st) = max (u_fresh st) (Suc u)" "u \<le> u_fresh st"
    "\<And>v. queued (enqueue_command e sock tid cmd uid co st) v =
      (if v = u then (if u < u_fresh st then queued st u else []) @
         [\<lparr>comm = co, webServerSock = sock, transID = tid, userCmd = cmd\<rparr>] else queued st v)"
proof -
  let ?v = "\<lparr>comm = co, webServerSock = sock, transID = tid, userCmd = cmd\<rparr>"
  let ?f = "case getUser st uid of
           Some u \<Rightarrow> (st, Some u)
         | None \<Rightarrow>
             (case addUser e st uid of
                (st, None) \<Rightarrow> (crash st, None)
              | (st, Some u) \<Rightarrow> (db_write [InsertAcct uid ''0.00''] (dbID (usr st u)) st, Some u))"
  have "\<exists>st' u. ?f = (st', Some u) \<and> server_ok st' \<and> u_fresh st' = max (u_fresh st) (Suc u) \<and> u \<le> u_fresh st \<and>
      (\<forall>v. commList (usr st' v) = (if v = u \<and> \<not> u < u_fresh st then queue_init else commList (usr st v)))"
  proof (cases "getUser st uid")
    case (Some u)
    then have "u < u_fresh st" using getUser_range [OF ok valid_key [OF uid]] by blast
    with Some ok show ?thesis by (intro exI [of _ st] exI [of _ u]) simp
  next
    case None
    let ?u = "u_fresh st"
    obtain st1 where st1: "addUser e st uid = (st1, Some ?u)" "server_ok st1" "u_fresh st1 = Suc ?u"
      using addUser_new [OF ok valid_key [OF uid] None r [OF None]] by metis
    define l where "l = st\<lparr>users := fst (trie_put user_addr USER_CHARS (users st) uid ?u), usr := (usr st)(?u := new_user uid),
        u_fresh := Suc ?u, u_ring := ring_insert ?u (u_ring st), ul_num := ul_num st + 1\<rparr>"
    have "snd (trie_put user_addr USER_CHARS (users st) uid ?u) = Some ?u"
      using st1(1) None by (auto simp: addUser_def split_beta Let_def split: option.splits)
    then have "st1 = load_user e ?u uid l"
      using st1(1) None by (simp add: addUser_def split_beta Let_def l_def)
    then have "same_queues l st1" using same_queues_load by simp
    then have "commList (usr st1 v) = (if v = ?u then queue_init else commList (usr st v))" for v
      by (simp add: same_queues_def l_def new_user_def)
    with None st1 ok_output(3) [OF st1(2)] show ?thesis
      by (intro exI [of _ "db_write [InsertAcct uid ''0.00''] (dbID (usr st1 ?u)) st1"] exI [of _ ?u]) simp
  qed
  then obtain st' u where f: "?f = (st', Some u)" "server_ok st'" "u_fresh st' = max (u_fresh st) (Suc u)" "u \<le> u_fresh st"
    "\<And>v. commList (usr st' v) = (if v = u \<and> \<not> u < u_fresh st then queue_init else commList (usr st v))" by blast
  define q where "q = snd (enq (commList (usr st' u)) ?v)"
  have u': "u < u_fresh st'" using f(3) by simp
  have inv: "queue_inv (commList (usr st' u))" using ok_user_wf [OF f(2) u'] by (simp add: user_wf_def)
  note q = queue_inv_enq [OF inv, of ?v, folded q_def]
  have eq: "enqueue_command e sock tid cmd uid co st =
      (upd_user u (\<lambda>x. x\<lparr>commList := q\<rparr>) st')\<lparr>avail := Suc (avail st')\<rparr>"
    unfolding enqueue_command_def f(1) Let_def prod.case option.case cenq_def q_def ..
  show thesis
  proof (rule that)
    show "u_fresh (enqueue_command e sock tid cmd uid co st) = max (u_fresh st) (Suc u)" by (simp add: eq f(3))
    show "u \<le> u_fresh st" by (rule f(4))
    show "queued (enqueue_command e sock tid cmd uid co st) v =
      (if v = u then (if u < u_fresh st then queued st u else []) @ [?v] else queued st v)" for v
      using q conjunct2 [OF queue_inv_init] by (auto simp: eq queued_def f(5))
  qed
qed

lemma sum_grows:
  fixes f g :: "nat \<Rightarrow> nat"
  assumes "u \<le> n" "\<And>v. v \<noteq> u \<Longrightarrow> g v = f v" "g u = Suc (if u < n then f u else 0)"
  shows "(\<Sum>v < max n (Suc u). g v) = Suc (\<Sum>v < n. f v)"
proof (cases "u < n")
  case True
  have "sum g ({..<n} - {u}) = sum f ({..<n} - {u})" using assms(2) by (intro sum.cong) auto
  moreover have "max n (Suc u) = n" using True by simp
  ultimately show ?thesis
    using True assms(3) sum.remove [of "{..<n}" u g] sum.remove [of "{..<n}" u f] by simp
next
  case False
  then have "u = n" using assms(1) by simp
  moreover from this have "sum g {..<n} = sum f {..<n}" using assms(2) by (intro sum.cong) auto
  ultimately show ?thesis using assms(3) by simp
qed

lemma enqueue_queues_ok:
  assumes ok: "server_ok st" and q: "queues_ok st" and uid: "validUserID (Some uid)"
    and r: "getUser st uid = None \<Longrightarrow> rows_ok e (length (db_sent st))"
    and cm: "command_ok \<lparr>comm = co, webServerSock = sock, transID = tid, userCmd = cmd\<rparr>"
  shows "queues_ok (enqueue_command e sock tid cmd uid co st)" "u_fresh st \<le> u_fresh (enqueue_command e sock tid cmd uid co st)"
proof -
  let ?st = "enqueue_command e sock tid cmd uid co st" and ?v = "\<lparr>comm = co, webServerSock = sock, transID = tid, userCmd = cmd\<rparr>"
  obtain u where u: "u_fresh ?st = max (u_fresh st) (Suc u)" "u \<le> u_fresh st"
    "\<And>v. queued ?st v = (if v = u then (if u < u_fresh st then queued st u else []) @ [?v] else queued st v)"
    by (rule enqueue_others [OF ok uid r, of sock tid cmd co]) simp_all
  have av: "avail ?st = Suc (avail st)" by (rule enqueue_appends [OF ok uid r, of sock tid cmd co]) simp_all
  have "list_all command_ok (queued ?st v)" if "v < u_fresh ?st" for v
    using that q u(1,2) cm by (auto simp: u(3) queues_ok_def)
  moreover have "(\<Sum>v < u_fresh ?st. length (queued ?st v)) = Suc (\<Sum>v < u_fresh st. length (queued st v))"
    unfolding u(1) by (rule sum_grows [OF u(2)]) (simp_all add: u(3))
  ultimately show "queues_ok ?st" using q av by (simp add: queues_ok_def)
  show "u_fresh st \<le> u_fresh ?st" by (simp add: u(1))
qed

lemma arrives_ok:
  assumes s: "system_ok s" and e: "\<And>n. rows_ok e n" and m: "sendable tid cmd uid co" "trail = [] \<or> trail = [NUL]"
    and c: "connection_message e sock (wsc_text tid cmd uid co @ trail) (conns s i) (srv s) = (cn, st)"
  shows "system_ok (s\<lparr>srv := st, conns := (conns s)(i := cn)\<rparr>)"
proof -
  let ?st = "quickSend sock ''REC'' (srv s)"
  have i: "server_ok (srv s)" "queues_ok (srv s)" "\<And>i. conn_ok (conns s i)"
    "\<And>t u. cursor s t = Some u \<Longrightarrow> u < u_fresh (srv s)"
    using s by (simp_all add: system_ok_def)
  have ok: "server_ok ?st" by (rule ok_output(4) [OF i(1)])
  have q: "queues_ok ?st" using i(2) calm_queues [OF calm_output(6) [OF calm_refl]] by simp
  have uid: "validUserID (Some uid)" and f: "field tid" "field cmd" and len: "length (wsc_text tid cmd uid co) < 199"
    using m(1) by (simp_all add: sendable_def)
  have fa: "field a \<and> (a \<noteq> [] \<longrightarrow> last a \<notin> line_end)" if "co = Some a" for a
    using m(1) that by (simp add: sendable_def)
  obtain cn1 cn2 cn' where p: "recv_message (wsc_text tid cmd uid co @ trail) (conns s i) = Some cn1"
      "split_message cn1 = Some (cn2, 4)"
      "internal_command e sock cn2 ?st = (cn', enqueue_command e sock tid cmd uid co ?st)" "conn_ok cn'"
    by (rule wsc_parsed [OF i(3) uid f fa len m(2)])
  have eq: "cn = cn'" "st = enqueue_command e sock tid cmd uid co ?st"
    using c unfolding connection_message_def p(1) option.case p(2) prod.case Let_def p(3) by simp_all
  have r: "getUser ?st uid = None \<Longrightarrow> rows_ok e (length (db_sent ?st))" by (rule e)
  have "command_ok \<lparr>comm = co, webServerSock = sock, transID = tid, userCmd = cmd\<rparr>"
    using m(1) by (auto simp: command_ok_def sendable_def field_def split: option.splits)
  note eo = enqueue_queues_ok [OF ok q uid r this]
  have "server_ok st" unfolding eq by (rule enqueue_appends [OF ok uid r])
  moreover have "u < u_fresh st" if "cursor s t = Some u" for t u
    using i(4) [OF that] eo(2) by (simp add: eq)
  ultimately show ?thesis using eo(1) i(3) p(4) by (simp add: system_ok_def eq)
qed

section \<open>A command thread takes its turn\<close>

lemma find_work_some:
  "find_work fuel busy k st u = Some (v, k') \<Longrightarrow> server_ok st \<Longrightarrow> u < u_fresh st \<Longrightarrow> v < u_fresh st \<and> has_work st v"
proof (induction fuel arbitrary: k u)
  case (Suc fuel)
  have n: "r_next (u_ring st) u < u_fresh st" using users_next [OF Suc.prems(2,3)] Suc.prems(3) by simp
  show ?case
  proof (cases "busy k \<or> \<not> has_work st u")
    case True
    then have "find_work fuel busy (Suc k) st (r_next (u_ring st) u) = Some (v, k')"
      using Suc.prems(1) by (auto split: if_splits)
    from Suc.IH [OF this Suc.prems(2) n] show ?thesis .
  next
    case False
    with Suc.prems show ?thesis by simp
  qed
qed simp

lemma sum_shrinks:
  fixes f g :: "nat \<Rightarrow> nat"
  assumes "u < n" "\<And>v. v \<noteq> u \<Longrightarrow> g v = f v" "f u = Suc (g u)"
  shows "(\<Sum>v < n. f v) = Suc (\<Sum>v < n. g v)"
proof -
  have "sum g ({..<n} - {u}) = sum f ({..<n} - {u})" using assms(2) by (intro sum.cong) auto
  then show ?thesis using assms(1,3) sum.remove [of "{..<n}" u g] sum.remove [of "{..<n}" u f] by simp
qed

lemma turn_ok:
  assumes ok: "server_ok st" and q: "queues_ok st" and u: "u < u_fresh st"
    and t: "command_turn e fuel busy k r u st = Some (v, st', k')"
  shows "server_ok st' \<and> queues_ok st' \<and> v < u_fresh st' \<and> u_fresh st' = u_fresh st"
proof -
  let ?st = "st\<lparr>avail := avail st - 1\<rparr>"
  have av: "avail st \<noteq> 0" using t by (auto simp: command_turn_def Let_def split: if_splits)
  have ok1: "server_ok ?st"
    using server_ok_cong [OF ok] server_ok_logs [OF ok] server_ok_fault [OF ok] by simp
  have n: "r_next (u_ring st) u < u_fresh st" using users_next [OF ok u] u by simp
  have f: "find_work fuel busy k ?st (r_next (u_ring st) u) = Some (v, k')" and st': "st' = run_command e r v ?st"
    using t av by (auto simp: command_turn_def Let_def)
  have n1: "r_next (u_ring st) u < u_fresh ?st" using n by simp
  have vw: "v < u_fresh ?st \<and> has_work ?st v" by (rule find_work_some [OF f ok1 n1])
  have v1: "v < u_fresh ?st" and w: "has_work ?st v" using vw by blast+
  have v: "v < u_fresh st" using v1 by simp
  then obtain cm cs where c: "contents (commList (usr ?st v)) = cm # cs"
    using has_work_contents [OF ok1 v1] w by (cases "contents (commList (usr ?st v))") auto
  have cm: "command_ok cm" using q v c by (auto simp: queues_ok_def queued_def)
  have a: "is_cstr a" if "comm cm = Some a" for a using cm that by (simp add: command_ok_def)
  obtain st1 where st1: "run_command e r v ?st = exec_command e \<lparr>c_tid = transID cm, c_cmd = userCmd cm,
        c_args = args_of (comm cm), c_sock = webServerSock cm, c_returned = r, c_user = v\<rparr> st1"
      "server_ok st1" "u_fresh st1 = u_fresh ?st" "contents (commList (usr st1 v)) = cs"
      "avail st1 = avail ?st" "\<And>w. w \<noteq> v \<Longrightarrow> commList (usr st1 w) = commList (usr ?st w)"
    by (rule run_command_pops [OF ok1 v1 c a, of e r]) (use cm in \<open>simp_all add: command_ok_def\<close>)
  let ?c = "\<lparr>c_tid = transID cm, c_cmd = userCmd cm, c_args = args_of (comm cm), c_sock = webServerSock cm,
      c_returned = r, c_user = v\<rparr>"
  have sf: "safely ?c st1 st'" unfolding st' st1(1) by (rule exec_command_safely [OF st1(2)]) (simp add: st1(3) v)
  have qd: "queued st1 v = cs" "queued st v = cm # cs" "\<And>w. w \<noteq> v \<Longrightarrow> queued st1 w = queued st w"
    using st1(4,6) c by (simp_all add: queued_def)
  have "(\<Sum>w < u_fresh st. length (queued st w)) = Suc (\<Sum>w < u_fresh st. length (queued st1 w))"
    by (rule sum_shrinks [OF v]) (simp_all add: qd)
  moreover have "list_all command_ok (queued st1 w)" if "w < u_fresh st" for w
    using q that qd by (cases "w = v") (auto simp: queues_ok_def)
  ultimately have "queues_ok st1" using q st1(3,5) by (simp add: queues_ok_def)
  moreover have "calm st1 st'" unfolding st' st1(1) by (rule calm_exec)
  ultimately show ?thesis using sf calm_queues [of st1 st'] st1(3) v by (simp add: safely_def)
qed

section \<open>The trigger thread makes a round\<close>

lemma armed_refresh: "armed st s as \<Longrightarrow> armed (refresh_quote e c s' st) s as"
proof -
  have "trg (refresh_quote e c s' st) = trg st" "trig_ring (refresh_quote e c s' st) = trig_ring st"
    "usr (refresh_quote e c s' st) = usr st" "stockID (stk (refresh_quote e c s' st) x) = stockID (stk st x)" for x
    by (auto simp: refresh_quote_def ask_quote_def getmTS_def upd_stock_def trig_ring_def fun_eq_iff Let_def split_beta)
  then have "getTrigger (refresh_quote e c s' st) u x ty = getTrigger st u x ty" for u x ty
    by (simp add: getTrigger_def)
  moreover assume "armed st s as"
  ultimately show "armed (refresh_quote e c s' st) s as"
    using \<open>trg (refresh_quote e c s' st) = trg st\<close> \<open>trig_ring (refresh_quote e c s' st) = trig_ring st\<close>
    by (simp add: armed_def)
qed

lemma round_ok:
  assumes ok: "server_ok st" and ar: "armed st (r_next (s_ring st) cStock) as"
    and t: "trigger_round e busy fuel r cStock st = Some (stock, seen, st')"
  shows "server_ok st' \<and> u_fresh st' = u_fresh st \<and> calm st st'"
proof -
  let ?s = "r_next (s_ring st) cStock"
  show ?thesis
  proof (cases as)
    case Nil
    then have "t_curr st ?s = None" using armed_curr [OF ar] by simp
    then have "st' = st" using t by (simp add: trigger_round_def Let_def)
    then show ?thesis using ok calm_refl by simp
  next
    case (Cons a bs)
    then have cu: "t_curr st ?s = Some a" using armed_curr [OF ar] by simp
    obtain tr where tr: "trg st a = Some tr" using ar Cons by (auto simp: armed_def)
    let ?c = "\<lparr>c_tid = t_transID tr, c_cmd = (if t_type tr = CHR ''b'' then ''SET_BUY_AMOUNT'' else ''SET_SELL_AMOUNT''),
        c_args = [], c_sock = 0, c_returned = r, c_user = t_user tr\<rparr>"
    define st1 where "st1 = refresh_quote e ?c ?s st"
    have ok1: "server_ok st1" unfolding st1_def using ok by (rule ok_refresh_quote)
    have calm1: "calm st st1" unfolding st1_def by (intro calm_intros)
    have fr: "u_fresh st1 = u_fresh st" by (simp add: st1_def)
    have ar1: "armed st1 ?s (a # bs)" unfolding st1_def using armed_refresh [OF ar] Cons by simp
    have eq: "trigger_round e busy fuel r cStock st =
        (if price (stk st1 ?s) < 1 then Some (?s, [], st1)
         else map_option (Pair ?s) (pass_loop e busy ?s (price (stk st1 ?s)) fuel 0 a st1))"
      unfolding trigger_round_def Let_def cu option.case tr st1_def [symmetric] ..
    show ?thesis
    proof (cases "price (stk st1 ?s) < 1")
      case True
      then have "st' = st1" using t by (simp add: eq)
      then show ?thesis using ok1 fr calm1 by simp
    next
      case False
      then have p: "pass_loop e busy ?s (price (stk st1 ?s)) fuel 0 a st1 = Some (seen, st')" using t by (auto simp: eq)
      let ?fuel = "max fuel (length (a # bs))"
      have "pass_loop e busy ?s (price (stk st1 ?s)) ?fuel 0 a st1 = Some (seen, st')"
        by (rule pass_more_fuel [OF p]) simp
      moreover have "\<exists>st''. pass_loop e busy ?s (price (stk st1 ?s)) ?fuel 0 a st1 = Some (a # bs, st'') \<and> server_ok st'' \<and>
          u_fresh st'' = u_fresh st1"
        using pass_loop_visits [of st1 ?s "a # bs" "[]" ?fuel a] ok1 ar1 by simp
      ultimately show ?thesis using calm_trans [OF calm1 calm_pass [OF p]] fr by auto
    qed
  qed
qed

lemma first_free_known:
  "first_free fuel busy k st u = Some v \<Longrightarrow> server_ok st \<Longrightarrow> u < u_fresh st \<Longrightarrow> v < u_fresh st"
proof (induction fuel arbitrary: k u)
  case (Suc fuel)
  have "r_next (u_ring st) u < u_fresh st" using users_next [OF Suc.prems(2,3)] Suc.prems(3) by simp
  with Suc show ?case by (auto split: if_splits)
qed simp

lemma start_known:
  assumes "server_ok st" "command_start fuel busy st = Some v"
  shows "v < u_fresh st"
proof -
  obtain u where u: "r_curr (u_ring st) = Some u" "first_free fuel busy 0 st u = Some v"
    using assms(2) by (auto simp: command_start_def split: if_splits option.splits)
  have "ring_list (u_ring st) [0..<u_fresh st]" using assms(1) by (simp add: server_ok_def users_ok_def)
  then have "u < u_fresh st" using u(1) by (cases "u_fresh st = 0") (auto simp: ring_list_def hd_upt)
  with first_free_known [OF u(2) assms(1)] show ?thesis .
qed

section \<open>Every reachable state\<close>

lemma step_ok:
  assumes "system_step e s s'" "system_ok s" "\<And>n. rows_ok e n"
  shows "system_ok s'"
  using assms(1)
proof (cases rule: system_step.cases)
  case (arrives tid cmd uid co trail sock i cn st)
  from arrives_ok [OF assms(2,3) arrives(2-4)] show ?thesis by (simp add: arrives(1))
next
  case (starts t fuel busy u)
  have "u < u_fresh (srv s)" using start_known [OF _ starts(3)] assms(2) by (simp add: system_ok_def)
  with assms(2) show ?thesis by (simp add: system_ok_def starts(1))
next
  case (runs t u fuel busy k r v st k')
  have "server_ok st \<and> queues_ok st \<and> v < u_fresh st \<and> u_fresh st = u_fresh (srv s)"
    using assms(2) runs(2) by (intro turn_ok [OF _ _ _ runs(3)]) (simp_all add: system_ok_def)
  with assms(2) show ?thesis by (simp add: system_ok_def runs(1))
next
  case (fires busy fuel r cStock stock seen st as)
  have "server_ok st \<and> u_fresh st = u_fresh (srv s) \<and> calm (srv s) st"
    using assms(2) by (intro round_ok [OF _ fires(3,2)]) (simp add: system_ok_def)
  with assms(2) calm_queues [of "srv s" st] show ?thesis by (simp add: system_ok_def fires(1))
qed

text \<open>
  No command is left lying: a command thread that finds every mutex free serves a user within one
  lap, whenever the semaphore lets it pass.
\<close>

definition can_serve :: "env \<Rightarrow> system \<Rightarrow> bool" where
  "can_serve e s \<longleftrightarrow> (\<forall>t u r. cursor s t = Some u \<longrightarrow> 0 < avail (srv s) \<longrightarrow>
     command_turn e (u_fresh (srv s)) (\<lambda>_. False) 0 r u (srv s) \<noteq> None)"

lemma work_ahead:
  fixes u v n :: nat
  assumes "u < n" "v < n"
  shows "\<exists>j < n. (u + j) mod n = v"
proof (cases "u \<le> v")
  case True
  then show ?thesis using assms by (intro exI [of _ "v - u"]) simp
next
  case False
  then have "u + (n - u + v) = n + v" using assms by simp
  then show ?thesis using assms False by (intro exI [of _ "n - u + v"]) simp
qed

lemma find_work_lap:
  assumes ok: "server_ok st" and u: "u < u_fresh st" and v: "v < u_fresh st" "has_work st v"
  shows "find_work (u_fresh st) (\<lambda>_. False) k st u \<noteq> None"
proof -
  let ?P = "\<lambda>j. j < u_fresh st \<and> has_work st ((u + j) mod u_fresh st)"
  define j where "j = (LEAST j. ?P j)"
  have "\<exists>j. ?P j" using work_ahead [OF u v(1)] v(2) by auto
  then have j: "?P j" unfolding j_def by (rule LeastI_ex)
  have "\<not> ?P i" if "i < j" for i using that not_less_Least unfolding j_def by blast
  then have "\<forall>i < j. \<not> has_work st ((u + i) mod u_fresh st)" using j by auto
  with j show ?thesis using find_work_first [OF ok u, of j "u_fresh st" "\<lambda>_. False" k] by simp
qed

lemma ok_can_serve:
  assumes "system_ok s"
  shows "can_serve e s"
  unfolding can_serve_def
proof (intro allI impI)
  fix t u r
  assume c: "cursor s t = Some u" and a: "0 < avail (srv s)"
  let ?st = "(srv s)\<lparr>avail := avail (srv s) - 1\<rparr>"
  have ok: "server_ok (srv s)" and u: "u < u_fresh (srv s)" using assms c by (simp_all add: system_ok_def)
  have ok1: "server_ok ?st"
    using server_ok_cong [OF ok] server_ok_logs [OF ok] server_ok_fault [OF ok] by simp
  have n: "r_next (u_ring (srv s)) u < u_fresh ?st" using users_next [OF ok u] u by simp
  have "0 < (\<Sum>v < u_fresh (srv s). length (queued (srv s) v))" using assms a by (simp add: system_ok_def queues_ok_def)
  then obtain v where v: "v < u_fresh (srv s)" "queued (srv s) v \<noteq> []"
    by (metis lessThan_iff list.size(3) less_irrefl sum.neutral)
  then have "v < u_fresh ?st" "has_work ?st v" using has_work_contents [OF ok1, of v] by (simp_all add: queued_def)
  from find_work_lap [OF ok1 n this, of 0]
  show "command_turn e (u_fresh (srv s)) (\<lambda>_. False) 0 r u (srv s) \<noteq> None"
    using a by (simp add: command_turn_def Let_def)
qed


definition sample_system :: system where
  "sample_system =
     (case connection_message sample_env 3 (wsc_text ''7'' ''QUOTE'' ''A1b2C3d4E5'' (Some ''ABC'') @ [NUL]) conn_init server_init
      of (cn, st) \<Rightarrow> system_init\<lparr>srv := st, conns := (conns system_init)(2 := cn)\<rparr>)"

lemma sample_reachable: "system_reachable sample_env sample_system"
proof -
  have m: "sendable ''7'' ''QUOTE'' ''A1b2C3d4E5'' (Some ''ABC'')"
  proof -
    have "validUserID (Some ''A1b2C3d4E5'')" "args_of (Some ''ABC'') = [''ABC'']" by code_simp+
    then show ?thesis
      by (auto simp: sendable_def field_def is_cstr_def NUL_def line_end_def wsc_text_def)
  qed
  have "system_step sample_env system_init sample_system"
    unfolding sample_system_def
    by (cases "connection_message sample_env 3 (wsc_text ''7'' ''QUOTE'' ''A1b2C3d4E5'' (Some ''ABC'') @ [NUL]) conn_init server_init")
      (simp, rule arrives [OF m disjI2 [OF refl]], simp add: system_init_def)
  from step [OF init this] show ?thesis .
qed


end
