(* ===== verification/Text_Routines.thy ===== *)
theory Text_Routines
  imports Log_Server
begin

text \<open>
  The five splitters of the four programs against one reference: splitting at every delimiter or
  at the first \<open>k\<close> of them.
\<close>

lemma join_split: "join d (split_on d k s) = s"
proof (induction d k s rule: split_on.induct)
  case (2 d k c cs)
  show ?case
  proof (cases "c = d")
    case True
    then show ?thesis
      using 2 split_on_nonempty [of d "map_option (\<lambda>n. n - 1) k" cs]
      by (cases "split_on d (map_option (\<lambda>n. n - 1) k) cs") auto
  next
    case False
    with 2 split_on_nonempty [of d k cs] show ?thesis
      by (cases "split_on d k cs" rule: list.exhaust; cases "tl (split_on d k cs)") auto
  qed
qed simp

text \<open>C40: On every non-empty C string the in-place splitters of the transaction server and the log
  server, which overwrite the delimiters in the buffer, and the copying one of the load balancer
  give the same tokens as the reference; the two that stop early give those of the reference with
  the bound; and the tokens joined again are the string.\<close>

theorem splitters_agree:
  assumes "is_cstr s" "s \<noteq> []" "d \<noteq> NUL" "0 < m"
  shows "tokens (delimSepNoCpy (Some s) d) = split_on d None s \<and>
    tokens (ls_delimSepNoCpy (Some s) d) = split_on d None s \<and>
    delimSep (Some s) d = split_on d None s \<and>
    tokens (delimSepMaxDelim (Some s) d m) = split_on d (Some m) s \<and>
    tokens (wl_delimSepNoCpy (Some s) d) = split_on d (Some 2) s \<and>
    join d (split_on d (Some m) s) = s \<and> join d (split_on d None s) = s"
  using delimSepNoCpy_tokens [OF assms(1-3)] delimSep_split [OF assms(2)] delimSepMaxDelim_tokens [OF assms]
    wl_delimSepNoCpy_tokens [OF assms(1-3)]
  by (simp add: ls_split join_split)

lemma splitters_agree_witness:
  "tokens (delimSepMaxDelim (Some ''a|b|c'') (CHR ''|'') 1) = [''a'', ''b|c''] \<and>
   delimSep (Some ''a|b|c'') (CHR ''|'') = [''a'', ''b'', ''c'']"
  using splitters_agree [of "''a|b|c''" "CHR ''|''" 1] by (simp add: is_cstr_def NUL_def)

end
