(* ===== verification/Order_Loss.thy ===== *)
theory Order_Loss
  imports Samples
begin

text \<open>
  What the off-by-one in \<open>removeTrigger\<close> does: with buy orders on AAA and AAB, removing the one on AAB
  frees the node of AAA. The account has lost its order on AAA and the money set aside for it, while
  the trigger is still in the ring of its stock; when it fires, it is removed again and its node is
  accessed after it has been freed.
\<close>

definition both_listed :: server where
  "both_listed = fst (ensureStock (fst (ensureStock sample_user ''AAA'')) ''AAB'')"

definition both_orders :: server where
  "both_orders = fst (addTrigger (fst (addTrigger both_listed 0 ''1'' 0 (CHR ''b'') 500 200)) 0 ''2'' 1 (CHR ''b'') 300 200)"

definition order_tree :: "addr trie" where
  "order_tree = fst (trie_put (trigger_addr (CHR ''b'')) (2 * STOCK_CHARS)
     (fst (trie_put (trigger_addr (CHR ''b'')) (2 * STOCK_CHARS) empty_trie ''AAA'' 0)) ''AAB'' 1)"

lemma listed:
  "usr both_listed = usr sample_user" "trg both_listed = Map.empty" "t_fresh both_listed = 0"
  "stockID (stk both_listed 0) = ''AAA''" "stockID (stk both_listed 1) = ''AAB''"
  "t_next both_listed = (\<lambda>_. 0)" "t_prev both_listed = (\<lambda>_. 0)" "t_curr both_listed = (\<lambda>_. None)" "fault both_listed = False"
proof -
  have p: "snd (trie_put stock_addr STOCK_CHARS empty_trie ''AAA'' (0::nat)) = Some 0"
    "trie_get stock_addr (empty_trie :: nat trie) ''AAA'' = None"
    "snd (trie_put stock_addr STOCK_CHARS (fst (trie_put stock_addr STOCK_CHARS empty_trie ''AAA'' (0::nat))) ''AAB'' 1) = Some 1"
    "trie_get stock_addr (fst (trie_put stock_addr STOCK_CHARS empty_trie ''AAA'' (0::nat))) ''AAB'' = None"
    by code_simp+
  define st1 where "st1 = fst (ensureStock sample_user ''AAA'')"
  have e1: "st1 = sample_user\<lparr>stocks := fst (trie_put stock_addr STOCK_CHARS empty_trie ''AAA'' 0),
      stk := (stk sample_user)(0 := new_stock ''AAA''), s_fresh := 1, s_ring := ring_insert 0 (s_ring sample_user)\<rparr>"
    using p(1,2) by (simp add: st1_def ensureStock_def addStock_def getStock_def sample_user_def link_user_def server_init_def
        split_beta Let_def)
  have e2: "both_listed = st1\<lparr>stocks := fst (trie_put stock_addr STOCK_CHARS (stocks st1) ''AAB'' 1),
      stk := (stk st1)(1 := new_stock ''AAB''), s_fresh := 2, s_ring := ring_insert 1 (s_ring st1)\<rparr>"
    using p(3,4) unfolding both_listed_def st1_def [symmetric]
    by (simp add: ensureStock_def addStock_def getStock_def e1 split_beta Let_def)
  show "usr both_listed = usr sample_user" "trg both_listed = Map.empty" "t_fresh both_listed = 0"
    "stockID (stk both_listed 0) = ''AAA''" "stockID (stk both_listed 1) = ''AAB''"
    "t_next both_listed = (\<lambda>_. 0)" "t_prev both_listed = (\<lambda>_. 0)" "t_curr both_listed = (\<lambda>_. None)" "fault both_listed = False"
    by (simp_all add: e2 e1 new_stock_def) (simp_all add: sample_user_def link_user_def server_init_def)
qed

lemma addTrigger_result:
  assumes "trie_put (trigger_addr ty) (2 * STOCK_CHARS) (tTree (usr st u)) (stockID (stk st s)) (t_fresh st) = (tree, Some a)"
    "trie_get (trigger_addr ty) (tTree (usr st u)) (stockID (stk st s)) = None"
  shows "tTree (usr (fst (addTrigger st u tid s ty amnt prc)) u) = tree"
    "balance (usr (fst (addTrigger st u tid s ty amnt prc)) v) = balance (usr st v)"
    "stk (fst (addTrigger st u tid s ty amnt prc)) = stk st"
    "t_fresh (fst (addTrigger st u tid s ty amnt prc)) = Suc (t_fresh st)"
    "fault (fst (addTrigger st u tid s ty amnt prc)) = fault st"
    "trg (fst (addTrigger st u tid s ty amnt prc)) =
       (trg st)(a \<mapsto> \<lparr>t_type = ty, trig = prc, amount = amnt, t_transID = tid, t_user = u, t_stock = s\<rparr>)"
  using assms by (simp_all add: addTrigger_def getTrigger_def put_trig_ring_def Let_def)

lemma orders:
  "tTree (usr both_orders 0) = order_tree" "stk both_orders = stk both_listed" "fault both_orders = False"
  "trg both_orders = [0 \<mapsto> \<lparr>t_type = CHR ''b'', trig = 200, amount = 500, t_transID = ''1'', t_user = 0, t_stock = 0\<rparr>,
     1 \<mapsto> \<lparr>t_type = CHR ''b'', trig = 200, amount = 300, t_transID = ''2'', t_user = 0, t_stock = 1\<rparr>]"
proof -
  have u: "tTree (usr sample_user 0) = empty_trie" by (simp add: sample_user_def link_user_def server_init_def new_user_def)
  have p: "snd (trie_put (trigger_addr (CHR ''b'')) (2 * STOCK_CHARS) empty_trie ''AAA'' (0::nat)) = Some 0"
    "trie_get (trigger_addr (CHR ''b'')) (empty_trie :: nat trie) ''AAA'' = None"
    "snd (trie_put (trigger_addr (CHR ''b'')) (2 * STOCK_CHARS)
       (fst (trie_put (trigger_addr (CHR ''b'')) (2 * STOCK_CHARS) empty_trie ''AAA'' (0::nat))) ''AAB'' 1) = Some 1"
    "trie_get (trigger_addr (CHR ''b''))
       (fst (trie_put (trigger_addr (CHR ''b'')) (2 * STOCK_CHARS) empty_trie ''AAA'' (0::nat))) ''AAB'' = None"
    by code_simp+
  have "trie_put (trigger_addr (CHR ''b'')) (2 * STOCK_CHARS) (tTree (usr both_listed 0)) (stockID (stk both_listed 0)) (t_fresh both_listed) =
      (fst (trie_put (trigger_addr (CHR ''b'')) (2 * STOCK_CHARS) empty_trie ''AAA'' (0::nat)), Some 0)"
    using p(1) by (simp add: listed u prod_eq_iff del: trie_put.simps)
  note n1 = addTrigger_result [OF this, where tid = "''1''" and amnt = 500 and prc = 200]
  define st1 where "st1 = fst (addTrigger both_listed 0 ''1'' 0 (CHR ''b'') 500 200)"
  have g1: "trie_get (trigger_addr (CHR ''b'')) (tTree (usr both_listed 0)) (stockID (stk both_listed 0)) = None"
    using p(2) by (simp add: listed u)
  note s1 = n1 [OF g1, folded st1_def]
  have "trie_put (trigger_addr (CHR ''b'')) (2 * STOCK_CHARS) (tTree (usr st1 0)) (stockID (stk st1 1)) (t_fresh st1) =
      (order_tree, Some 1)"
    using p(3) by (simp add: s1 listed order_tree_def prod_eq_iff One_nat_def [symmetric] del: trie_put.simps One_nat_def)
  moreover have "trie_get (trigger_addr (CHR ''b'')) (tTree (usr st1 0)) (stockID (stk st1 1)) = None"
    using p(4) by (simp add: s1 listed del: trie_put.simps One_nat_def)
  ultimately have s2: "both_orders = fst (addTrigger st1 0 ''2'' 1 (CHR ''b'') 300 200)"
     "trie_put (trigger_addr (CHR ''b'')) (2 * STOCK_CHARS) (tTree (usr st1 0)) (stockID (stk st1 1)) (t_fresh st1) =
      (order_tree, Some 1)" "trie_get (trigger_addr (CHR ''b'')) (tTree (usr st1 0)) (stockID (stk st1 1)) = None"
    by (simp_all only: both_orders_def st1_def)
  show "tTree (usr both_orders 0) = order_tree" "stk both_orders = stk both_listed" "fault both_orders = False"
    "trg both_orders = [0 \<mapsto> \<lparr>t_type = CHR ''b'', trig = 200, amount = 500, t_transID = ''1'', t_user = 0, t_stock = 0\<rparr>,
       1 \<mapsto> \<lparr>t_type = CHR ''b'', trig = 200, amount = 300, t_transID = ''2'', t_user = 0, t_stock = 1\<rparr>]"
    by (simp_all add: s2(1) addTrigger_result [OF s2(2,3)] s1 listed del: One_nat_def)
qed

lemma removeTrigger_does:
  assumes "trg st a = Some tr" "t_type tr = CHR ''b''" "sid = stockID (stk st (t_stock tr))"
    "look (tTree (usr st (t_user tr))) (trigger_path (CHR ''b'') sid) = Some a"
    "trie_remove (\<lambda>i. nat (c_int (sid ! i) - 65)) (length sid - 1) (tTree (usr st (t_user tr)))
       (trigger_path (CHR ''b'') sid) = Some tree"
  shows "tTree (usr (removeTrigger st a) (t_user tr)) = tree"
    "balance (usr (removeTrigger st a) v) = balance (usr st v)"
    "stk (removeTrigger st a) = stk st" "fault (removeTrigger st a) = fault st"
    "trg (removeTrigger st a) = (trg st)(a := None)"
  using assms by (simp_all add: removeTrigger_def put_trig_ring_def Let_def)

lemma removeTrigger_faults:
  assumes "trg st a = Some tr" "t_type tr = CHR ''b''"
    "look (tTree (usr st (t_user tr))) (trigger_path (CHR ''b'') (stockID (stk st (t_stock tr)))) \<noteq> Some a"
  shows "fault (removeTrigger st a)"
  using assms by (simp add: removeTrigger_def put_trig_ring_def Let_def crash_def)

text \<open>C34: Removing one order can take another with it: with buy orders of one user on AAA and AAB, the
  removal of the one on AAB frees the node of the one on AAA. The account has lost that order, the
  balance gets nothing back, the trigger is still listed under its stock, and firing or cancelling
  it accesses freed memory.\<close>

theorem order_vanishes:
  "a_order (account_of both_orders 0) (CHR ''b'', ''AAA'') = Some (500, 200) \<and>
   a_order (account_of (removeTrigger both_orders 1) 0) (CHR ''b'', ''AAA'') = None \<and>
   balance (usr (removeTrigger both_orders 1) 0) = balance (usr both_orders 0) \<and>
   trg (removeTrigger both_orders 1) 0 = trg both_orders 0 \<and> \<not> fault (removeTrigger both_orders 1) \<and>
   fault (removeTrigger (removeTrigger both_orders 1) 0)"
proof -
  let ?idx = "\<lambda>i. nat (c_int (''AAB'' ! i) - 65)"
  have v: "validStockID (Some ''AAA'')"
    "trie_get (trigger_addr (CHR ''b'')) order_tree ''AAA'' = Some 0"
    "look order_tree (trigger_path (CHR ''b'') ''AAB'') = Some 1"
    unfolding order_tree_def by code_simp+
  have "case trie_remove ?idx 2 order_tree (trigger_path (CHR ''b'') ''AAB'') of
      None \<Rightarrow> False
    | Some t \<Rightarrow> trie_get (trigger_addr (CHR ''b'')) t ''AAA'' = None \<and> look t (trigger_path (CHR ''b'') ''AAA'') = None"
    unfolding order_tree_def by code_simp
  then obtain t where t: "trie_remove ?idx 2 order_tree (trigger_path (CHR ''b'') ''AAB'') = Some t"
      "trie_get (trigger_addr (CHR ''b'')) t ''AAA'' = None" "look t (trigger_path (CHR ''b'') ''AAA'') = None"
    by (auto split: option.splits)
  define st' where "st' = removeTrigger both_orders 1"
  have sid: "stockID (stk both_orders 0) = ''AAA''" "stockID (stk both_orders 1) = ''AAB''"
    using listed(4,5) by (simp_all add: orders(2))
  have "trg both_orders 1 = Some \<lparr>t_type = CHR ''b'', trig = 200, amount = 300, t_transID = ''2'', t_user = 0, t_stock = 1\<rparr>"
    and first: "trg both_orders 0 = Some \<lparr>t_type = CHR ''b'', trig = 200, amount = 500, t_transID = ''1'', t_user = 0, t_stock = 0\<rparr>"
    by (simp_all add: orders)
  note removed = removeTrigger_does [OF this(1), where sid = "''AAB''" and tree = t, folded st'_def]
  have s: "tTree (usr st' 0) = t" "stk st' = stk both_orders" "trg st' = (trg both_orders)(1 := None)"
    "balance (usr st' 0) = balance (usr both_orders 0)" "fault st' = False"
    using removed(1,3,4,5) removed(2) [where v = 0] t(1) v(3) sid(2) orders(1,3) by (simp_all del: One_nat_def)
  have "trg st' 0 = Some \<lparr>t_type = CHR ''b'', trig = 200, amount = 500, t_transID = ''1'', t_user = 0, t_stock = 0\<rparr>"
    by (simp add: s(3) first)
  from removeTrigger_faults [OF this] have "fault (removeTrigger st' 0)"
    using t(3) s(1,2) sid(1) by simp
  moreover have "a_order (account_of both_orders 0) (CHR ''b'', ''AAA'') = Some (500, 200)"
    "a_order (account_of st' 0) (CHR ''b'', ''AAA'') = None"
    using v t(2) by (simp_all add: orders_of_def orders s)
  ultimately show ?thesis using s by (simp add: st'_def [symmetric] del: One_nat_def)
qed

end
