(* ===== verification/Fetching.thy ===== *)
theory Fetching
  imports Prelude
begin

text \<open>
  The barrier between the quote thread of the load balancer and the threads that ask the quote
  server for it (\<open>quote_handler\<close> and \<open>get_quote_thread\<close> of \<open>loadBalancer.c\<close>), as interleaved steps
  over their semaphores \<open>quoteStart\<close> and \<open>quoteFin\<close>, the mutex of each thread, the flag \<open>go\<close> and the
  mutex \<open>threadReturned\<close>. What the exchanged strings are is left to \<open>Load_Balancer\<close>; here every
  request has a number, and each thread notes which request it sent and which one its buffer answers.
\<close>

section \<open>The threads\<close>

definition maxRequests :: nat where "maxRequests = 10"

text \<open>
  The positions of a fetching thread: before its first instruction; at the test of \<open>quoteFin\<close>; about
  to unlock its mutex; waiting for \<open>quoteStart\<close>; about to lock its mutex; at the loop on \<open>go\<close>; before
  the request is sent; waiting for the reply; at the \<open>trylock\<close>; about to write its number, to post
  \<open>quoteFin\<close>, to unlock \<open>threadReturned\<close>.
\<close>

datatype fetcher =
    Unborn | Checking | Leaving | Parked | Entering | Gated | Connecting | Receiving | Returning
  | Won | Named | Posted

text \<open>
  The positions of the quote thread: the loop that creates the threads, before creating and before
  locking the mutex of thread \<open>i\<close>; the wait that settles the start; at the queue of requests; the
  loops that unlock the mutexes and post \<open>quoteStart\<close>; the test of \<open>quoteFin\<close>; the loop that watches
  the mutexes being locked, which takes a free one for a moment; about to set \<open>go\<close>; at the wait for
  a reply; using the reply; the loops that lock the mutexes and drain \<open>quoteFin\<close>; about to reset
  \<open>go\<close>; joining the threads after an empty reply.
\<close>

datatype handler =
    Starting nat | Taking nat | Settling | Resting | Releasing nat | Posting nat | Draining
  | Watching nat | Holding nat | Opening | Awaiting | Reading | Collecting nat | Clearing nat
  | Closing | Ended

datatype owner = Free | Handlers | Threads

record barrier =
  h_at :: handler
  f_at :: "fetcher list"
  busy :: "owner list"
  quoteStart :: nat
  quoteFin :: nat
  go :: bool
  threadReturned :: "nat option"
  threadReturnedID :: "nat option"
  job :: nat
  asked :: "nat list"
  held :: "nat option list"

definition barrier_init :: "nat \<Rightarrow> barrier" where
  "barrier_init n = \<lparr>h_at = Starting 0, f_at = replicate n Unborn, busy = replicate n Free,
     quoteStart = 0, quoteFin = 1, go = False, threadReturned = None, threadReturnedID = None,
     job = 0, asked = replicate n 0, held = replicate n None\<rparr>"

text \<open>The number of threads, and the end of a loop over them.\<close>

abbreviation threads :: "barrier \<Rightarrow> nat" where "threads s \<equiv> length (f_at s)"

definition loop :: "barrier \<Rightarrow> (nat \<Rightarrow> handler) \<Rightarrow> nat \<Rightarrow> handler \<Rightarrow> handler" where
  "loop s body i after = (if i < threads s then body i else after)"

text \<open>
  A step of the quote thread; \<open>None\<close> when it is blocked or still spinning on \<open>quoteFin\<close>. The flag
  says whether the reply it reads is empty. Creating a thread includes the wait for its \<open>init\<close>.
\<close>

definition handler_step :: "bool \<Rightarrow> barrier \<Rightarrow> barrier option" where
  "handler_step blank s =
     (case h_at s of
        Starting i \<Rightarrow> Some (s\<lparr>f_at := (f_at s)[i := Checking], busy := (busy s)[i := Threads], h_at := Taking i\<rparr>)
      | Taking i \<Rightarrow> if busy s ! i = Free
          then Some (s\<lparr>busy := (busy s)[i := Handlers], h_at := loop s Starting (Suc i) Settling\<rparr>) else None
      | Settling \<Rightarrow> if 0 < quoteFin s then Some (s\<lparr>quoteFin := quoteFin s - 1, h_at := Resting\<rparr>) else None
      | Resting \<Rightarrow> Some (s\<lparr>job := Suc (job s), h_at := Releasing 0\<rparr>)
      | Releasing i \<Rightarrow> Some (s\<lparr>busy := (busy s)[i := Free], h_at := loop s Releasing (Suc i) (Posting 0)\<rparr>)
      | Posting i \<Rightarrow> Some (s\<lparr>quoteStart := Suc (quoteStart s), h_at := loop s Posting (Suc i) Draining\<rparr>)
      | Draining \<Rightarrow> if quoteFin s = 0 then Some (s\<lparr>h_at := Watching 0\<rparr>) else None
      | Watching i \<Rightarrow> if busy s ! i = Free
          then Some (s\<lparr>busy := (busy s)[i := Handlers], h_at := Holding i\<rparr>)
          else Some (s\<lparr>h_at := loop s Watching (Suc i) Opening\<rparr>)
      | Holding i \<Rightarrow> Some (s\<lparr>busy := (busy s)[i := Free], h_at := Watching i\<rparr>)
      | Opening \<Rightarrow> Some (s\<lparr>go := True, h_at := Awaiting\<rparr>)
      | Awaiting \<Rightarrow> if 0 < quoteFin s then Some (s\<lparr>quoteFin := quoteFin s - 1, h_at := Reading\<rparr>) else None
      | Reading \<Rightarrow> Some (s\<lparr>h_at := (if blank then Ended else Collecting 0)\<rparr>)
      | Collecting i \<Rightarrow> if busy s ! i = Free
          then Some (s\<lparr>busy := (busy s)[i := Handlers], h_at := loop s Collecting (Suc i) (Clearing 0)\<rparr>) else None
      | Clearing i \<Rightarrow> Some (s\<lparr>quoteFin := quoteFin s - 1, h_at := loop s Clearing (Suc i) Closing\<rparr>)
      | Closing \<Rightarrow> Some (s\<lparr>go := False, h_at := Resting\<rparr>)
      | Ended \<Rightarrow> None)"

text \<open>
  A step of thread \<open>i\<close>; the flag says whether its exchange with the quote server succeeds. Every
  \<open>continue\<close> leads back to \<open>Checking\<close>.
\<close>

definition fetcher_step :: "bool \<Rightarrow> nat \<Rightarrow> barrier \<Rightarrow> barrier option" where
  "fetcher_step ok i s =
     (let to = (\<lambda>p. (f_at s)[i := p]) in
      case f_at s ! i of
        Unborn \<Rightarrow> None
      | Checking \<Rightarrow> Some (s\<lparr>f_at := to (if 0 < quoteFin s then Leaving else Connecting)\<rparr>)
      | Leaving \<Rightarrow> Some (s\<lparr>busy := (busy s)[i := Free], f_at := to Parked\<rparr>)
      | Parked \<Rightarrow> if 0 < quoteStart s then Some (s\<lparr>quoteStart := quoteStart s - 1, f_at := to Entering\<rparr>) else None
      | Entering \<Rightarrow> if busy s ! i = Free then Some (s\<lparr>busy := (busy s)[i := Threads], f_at := to Gated\<rparr>) else None
      | Gated \<Rightarrow> if go s then Some (s\<lparr>f_at := to Connecting\<rparr>) else None
      | Connecting \<Rightarrow> Some (if ok then s\<lparr>asked := (asked s)[i := job s], f_at := to Receiving\<rparr> else s\<lparr>f_at := to Checking\<rparr>)
      | Receiving \<Rightarrow> Some (if ok then s\<lparr>held := (held s)[i := Some (asked s ! i)], f_at := to Returning\<rparr> else s\<lparr>f_at := to Checking\<rparr>)
      | Returning \<Rightarrow> Some (if threadReturned s = None then s\<lparr>threadReturned := Some i, f_at := to Won\<rparr> else s\<lparr>f_at := to Checking\<rparr>)
      | Won \<Rightarrow> Some (s\<lparr>threadReturnedID := Some i, f_at := to Named\<rparr>)
      | Named \<Rightarrow> Some (s\<lparr>quoteFin := Suc (quoteFin s), f_at := to Posted\<rparr>)
      | Posted \<Rightarrow> Some (s\<lparr>threadReturned := None, f_at := to Checking\<rparr>))"

inductive barrier_step :: "barrier \<Rightarrow> barrier \<Rightarrow> bool" where
  by_handler: "handler_step blank s = Some s' \<Longrightarrow> barrier_step s s'"
| by_thread: "i < threads s \<Longrightarrow> fetcher_step ok i s = Some s' \<Longrightarrow> barrier_step s s'"

inductive barrier_reachable :: "nat \<Rightarrow> barrier \<Rightarrow> bool" for n where
  start: "barrier_reachable n (barrier_init n)"
| step: "barrier_reachable n s \<Longrightarrow> barrier_step s s' \<Longrightarrow> barrier_reachable n s'"

section \<open>The invariant\<close>

definition running :: "fetcher set" where
  "running = {Gated, Checking, Leaving, Connecting, Receiving, Returning, Won, Named, Posted}"

text \<open>The position of a thread and the owner of its mutex, by the position of the quote thread.\<close>

definition entering :: "fetcher \<Rightarrow> owner \<Rightarrow> bool" where
  "entering p b \<longleftrightarrow> (p \<in> {Parked, Entering} \<and> b = Free) \<or> (p = Gated \<and> b = Threads)"

definition leaving :: "fetcher \<Rightarrow> owner \<Rightarrow> bool" where
  "leaving p b \<longleftrightarrow> (p = Parked \<and> b = Free) \<or> (p \<in> running \<and> b = Threads)"

definition caught :: "fetcher \<Rightarrow> owner \<Rightarrow> bool" where
  "caught p b \<longleftrightarrow> p = Parked \<and> b = Handlers"

fun place :: "handler \<Rightarrow> nat \<Rightarrow> fetcher \<Rightarrow> owner \<Rightarrow> bool" where
  "place (Starting k) i p b = (if i < k then caught p b else p = Unborn \<and> b = Free)"
| "place (Taking k) i p b = (if i < k then caught p b
     else if i = k then (p \<in> {Checking, Leaving} \<and> b = Threads) \<or> (p = Parked \<and> b = Free)
     else p = Unborn \<and> b = Free)"
| "place (Releasing k) i p b = (p = Parked \<and> b = (if i < k then Free else Handlers))"
| "place (Posting k) i p b = entering p b"
| "place Draining i p b = entering p b"
| "place (Watching k) i p b = (if i < k then p = Gated \<and> b = Threads else entering p b)"
| "place (Holding k) i p b = (if i < k then p = Gated \<and> b = Threads
     else if i = k then p \<in> {Parked, Entering} \<and> b = Handlers else entering p b)"
| "place Opening i p b = (p = Gated \<and> b = Threads)"
| "place Awaiting i p b = leaving p b"
| "place Reading i p b = leaving p b"
| "place (Collecting k) i p b = (if i < k then caught p b else leaving p b)"
| "place Ended i p b = True"
| "place h i p b = caught p b"

definition places_ok :: "barrier \<Rightarrow> bool" where
  "places_ok s \<longleftrightarrow> length (busy s) = threads s \<and> length (asked s) = threads s \<and> length (held s) = threads s \<and>
     (\<forall>i < threads s. place (h_at s) i (f_at s ! i) (busy s ! i))"

text \<open>
  The semaphores are counted by the threads that have passed \<open>quoteStart\<close> and by those that can
  still post \<open>quoteFin\<close> before they test it again: so the ten \<open>sem_trywait\<close> drain it.
\<close>

definition entered :: "fetcher list \<Rightarrow> nat" where
  "entered ps = length (filter (\<lambda>p. p \<noteq> Parked) ps)"

definition posting :: "fetcher list \<Rightarrow> nat" where
  "posting ps = length (filter (\<lambda>p. p \<in> {Gated, Connecting, Receiving, Returning, Won, Named}) ps)"

fun index_ok :: "handler \<Rightarrow> nat \<Rightarrow> bool" where
  "index_ok (Starting k) n = (k < n)"
| "index_ok (Taking k) n = (k < n)"
| "index_ok (Releasing k) n = (k < n)"
| "index_ok (Posting k) n = (k < n)"
| "index_ok (Watching k) n = (k < n)"
| "index_ok (Holding k) n = (k < n)"
| "index_ok (Collecting k) n = (k < n)"
| "index_ok (Clearing k) n = (k < n)"
| "index_ok h n = True"

fun counts :: "handler \<Rightarrow> barrier \<Rightarrow> bool" where
  "counts (Starting k) s = (quoteStart s = 0 \<and> quoteFin s = 1 \<and> \<not> go s)"
| "counts (Taking k) s = (quoteStart s = 0 \<and> quoteFin s = 1 \<and> \<not> go s)"
| "counts Settling s = (quoteStart s = 0 \<and> quoteFin s = 1 \<and> \<not> go s)"
| "counts Resting s = (quoteStart s = 0 \<and> quoteFin s = 0 \<and> \<not> go s)"
| "counts (Releasing k) s = (quoteStart s = 0 \<and> quoteFin s = 0 \<and> \<not> go s)"
| "counts (Posting k) s = (quoteStart s + entered (f_at s) = k \<and> quoteFin s = 0 \<and> \<not> go s)"
| "counts Awaiting s = (quoteStart s = 0 \<and> quoteFin s + posting (f_at s) \<le> threads s \<and> go s)"
| "counts Reading s = (quoteStart s = 0 \<and> quoteFin s + posting (f_at s) \<le> threads s \<and> go s)"
| "counts (Collecting k) s = (quoteStart s = 0 \<and> quoteFin s + posting (f_at s) \<le> threads s \<and> go s)"
| "counts (Clearing k) s = (quoteStart s = 0 \<and> quoteFin s \<le> threads s - k \<and> go s)"
| "counts Closing s = (quoteStart s = 0 \<and> quoteFin s = 0 \<and> go s)"
| "counts Ended s = True"
| "counts h s = (quoteStart s + entered (f_at s) = threads s \<and> quoteFin s = 0 \<and> \<not> go s)"

text \<open>What the threads have asked for, and the number the quote thread will find.\<close>

definition named_ok :: "barrier \<Rightarrow> bool" where
  "named_ok s \<longleftrightarrow> (case threadReturnedID s of None \<Rightarrow> False | Some j \<Rightarrow> j < threads s \<and> held s ! j = Some (job s))"

definition current :: "barrier \<Rightarrow> nat \<Rightarrow> bool" where
  "current s i \<longleftrightarrow> (case f_at s ! i of
     Receiving \<Rightarrow> asked s ! i = job s
   | Returning \<Rightarrow> held s ! i = Some (job s)
   | Won \<Rightarrow> held s ! i = Some (job s)
   | Named \<Rightarrow> named_ok s
   | _ \<Rightarrow> True)"

definition answers_ok :: "barrier \<Rightarrow> bool" where
  "answers_ok s \<longleftrightarrow>
     (h_at s \<in> {Awaiting, Reading} \<or> (\<exists>k. h_at s = Collecting k) \<longrightarrow> (\<forall>i < threads s. current s i)) \<and>
     (h_at s = Awaiting \<longrightarrow> 0 < quoteFin s \<longrightarrow> named_ok s) \<and> (h_at s = Reading \<longrightarrow> named_ok s)"

text \<open>While \<open>quoteFin\<close> has not been posted every thread is on its way to a post.\<close>

definition underway :: "barrier \<Rightarrow> bool" where
  "underway s \<longleftrightarrow> (h_at s = Awaiting \<longrightarrow> quoteFin s = 0 \<longrightarrow> (\<forall>i < threads s. f_at s ! i \<notin> {Parked, Leaving}))"

definition barrier_ok :: "barrier \<Rightarrow> bool" where
  "barrier_ok s \<longleftrightarrow> 0 < threads s \<and> index_ok (h_at s) (threads s) \<and> places_ok s \<and> counts (h_at s) s \<and>
     answers_ok s \<and> underway s"

lemma filter_update:
  assumes "i < length ps"
  shows "length (filter P (ps[i := p])) + (if P (ps ! i) then 1 else 0) = length (filter P ps) + (if P p then 1 else 0)"
  using assms
proof (induction ps arbitrary: i)
  case (Cons a ps)
  then show ?case by (cases i) auto
qed simp

lemma entered_update:
  "i < length ps \<Longrightarrow> entered (ps[i := p]) + (if ps ! i \<noteq> Parked then 1 else 0) = entered ps + (if p \<noteq> Parked then 1 else 0)"
  unfolding entered_def by (rule filter_update)

lemma posting_update:
  "i < length ps \<Longrightarrow> posting (ps[i := p]) + (if ps ! i \<in> {Gated, Connecting, Receiving, Returning, Won, Named} then 1 else 0) =
     posting ps + (if p \<in> {Gated, Connecting, Receiving, Returning, Won, Named} then 1 else 0)"
  unfolding posting_def by (rule filter_update)

lemma counts_all:
  "\<forall>i < length ps. ps ! i \<noteq> Parked \<Longrightarrow> entered ps = length ps"
  "\<forall>i < length ps. ps ! i = Parked \<Longrightarrow> entered ps = 0"
  "posting ps \<le> length ps"
proof -
  show "entered ps = length ps" if "\<forall>i < length ps. ps ! i \<noteq> Parked"
  proof -
    have "filter (\<lambda>p. p \<noteq> Parked) ps = ps" using that by (metis (mono_tags, lifting) filter_True in_set_conv_nth)
    then show ?thesis by (simp add: entered_def)
  qed
  show "entered ps = 0" if "\<forall>i < length ps. ps ! i = Parked"
    using that by (auto simp: entered_def filter_empty_conv in_set_conv_nth)
qed (simp add: posting_def)

lemma last_index: "k < n \<Longrightarrow> \<not> Suc k < n \<Longrightarrow> n = Suc (k :: nat)"
  by linarith

section \<open>Every step keeps it\<close>

lemma handler_length: "handler_step blank s = Some s' \<Longrightarrow> threads s' = threads s"
  by (auto simp: handler_step_def split: handler.splits if_splits)

lemma fetcher_length: "fetcher_step ok i s = Some s' \<Longrightarrow> threads s' = threads s \<and> h_at s' = h_at s \<and> job s' = job s"
  by (auto simp: fetcher_step_def Let_def split: fetcher.splits if_splits)

lemma handler_index: "handler_step blank s = Some s' \<Longrightarrow> 0 < threads s \<Longrightarrow> index_ok (h_at s) (threads s) \<Longrightarrow> index_ok (h_at s') (threads s')"
  by (auto simp: handler_step_def loop_def split: handler.splits if_splits)

lemma handler_places:
  assumes "handler_step blank s = Some s'" "index_ok (h_at s) (threads s)" "places_ok s"
  shows "places_ok s'"
proof -
  have l: "length (busy s) = threads s" "length (asked s) = threads s" "length (held s) = threads s"
    and pl: "\<And>i. i < threads s \<Longrightarrow> place (h_at s) i (f_at s ! i) (busy s ! i)"
    using assms(3) by (simp_all add: places_ok_def)
  have l': "length (busy s') = threads s'" "length (asked s') = threads s'" "length (held s') = threads s'"
    using assms(1) l by (auto simp: handler_step_def split: handler.splits if_splits)
  have "place (h_at s') i (f_at s' ! i) (busy s' ! i)" if "i < threads s'" for i
  proof -
    have i: "i < threads s" using that handler_length [OF assms(1)] by simp
    note d = pl [OF i] i assms(1,2) l
    show ?thesis
    proof (cases "h_at s")
      case (Taking k)
      with d pl [of k] last_index [of k "threads s"] show ?thesis
        by (cases "i = k"; cases "i < k")
          (auto simp: handler_step_def loop_def nth_list_update caught_def split: if_splits)
    next
      case (Releasing k)
      with d last_index [of k "threads s"] show ?thesis
        by (cases "i = k"; cases "i < k")
          (auto simp: handler_step_def loop_def nth_list_update entering_def split: if_splits)
    next
      case (Watching k)
      with d pl [of k] last_index [of k "threads s"] show ?thesis
        by (cases "i = k"; cases "i < k")
          (auto simp: handler_step_def loop_def nth_list_update entering_def split: if_splits)
    next
      case (Collecting k)
      with d pl [of k] last_index [of k "threads s"] show ?thesis
        by (cases "i = k"; cases "i < k")
          (auto simp: handler_step_def loop_def nth_list_update caught_def leaving_def running_def split: if_splits)
    qed (use d in \<open>auto simp: handler_step_def loop_def nth_list_update entering_def leaving_def running_def caught_def split: if_splits\<close>)
  qed
  with l' show ?thesis by (simp add: places_ok_def)
qed

text \<open>The positions in which a thread can move, and where it can be.\<close>

lemma fetcher_places:
  assumes "fetcher_step ok j s = Some s'" "j < threads s" "places_ok s" "counts (h_at s) s"
  shows "places_ok s'"
proof -
  have l: "length (busy s) = threads s" "length (asked s) = threads s" "length (held s) = threads s"
    and pl: "\<And>i. i < threads s \<Longrightarrow> place (h_at s) i (f_at s ! i) (busy s ! i)"
    using assms(3) by (simp_all add: places_ok_def)
  have same: "h_at s' = h_at s" "threads s' = threads s" using fetcher_length [OF assms(1)] by simp_all
  have others: "f_at s' ! i = f_at s ! i" "busy s' ! i = busy s ! i" if "i \<noteq> j" for i
    using assms(1) that by (auto simp: fetcher_step_def Let_def nth_list_update split: fetcher.splits if_splits)
  have own: "place (h_at s) j (f_at s' ! j) (busy s' ! j)"
    using pl [OF assms(2)] assms(1,2,4) l
    by (cases "h_at s"; cases "f_at s ! j")
      (auto simp: fetcher_step_def Let_def nth_list_update entering_def leaving_def running_def caught_def split: if_splits)
  have "length (busy s') = threads s" "length (asked s') = threads s" "length (held s') = threads s"
    using assms(1) l by (auto simp: fetcher_step_def Let_def split: fetcher.splits if_splits)
  moreover have "place (h_at s) i (f_at s' ! i) (busy s' ! i)" if "i < threads s" for i
    using own others pl [OF that] by (cases "i = j") simp_all
  ultimately show ?thesis by (simp add: places_ok_def same)
qed

lemma step_in:
  assumes "fetcher_step ok j s = Some s'" "j < threads s" "f_at s ! j \<in> {Parked, Entering}"
  shows "quoteStart s' + entered (f_at s') = quoteStart s + entered (f_at s) \<and> quoteFin s' = quoteFin s \<and> go s' = go s"
  using assms entered_update [OF assms(2), of Entering] entered_update [OF assms(2), of Gated]
  by (auto simp: fetcher_step_def Let_def split: if_splits)

definition poster :: "fetcher \<Rightarrow> bool" where
  "poster p \<longleftrightarrow> p \<in> {Gated, Connecting, Receiving, Returning, Won, Named}"

lemma posting_put:
  "j < length ps \<Longrightarrow> posting (ps[j := p]) + (if poster (ps ! j) then 1 else 0) = posting ps + (if poster p then 1 else 0)"
  unfolding poster_def by (rule posting_update)

lemma step_on:
  assumes "fetcher_step ok j s = Some s'" "f_at s ! j \<in> running"
  obtains q where "f_at s' = (f_at s)[j := q]" "quoteStart s' = quoteStart s" "go s' = go s"
    "quoteFin s' = quoteFin s + (if f_at s ! j = Named then 1 else 0)"
    "f_at s ! j = Checking \<and> 0 < quoteFin s \<longrightarrow> q = Leaving" "f_at s ! j = Named \<longrightarrow> q = Posted"
    "f_at s ! j \<in> {Leaving, Posted} \<longrightarrow> q \<in> {Parked, Checking}"
proof (cases "f_at s ! j")
  case Unborn
  with assms show ?thesis by (simp add: running_def)
next
  case Parked
  with assms show ?thesis by (simp add: running_def)
next
  case Entering
  with assms show ?thesis by (simp add: running_def)
qed (use assms(1) in \<open>auto simp: fetcher_step_def Let_def split: if_splits intro: that\<close>)

lemma step_posting:
  assumes "fetcher_step ok j s = Some s'" "j < threads s" "f_at s ! j \<in> running" "quoteFin s + posting (f_at s) \<le> threads s"
  shows "quoteFin s' + posting (f_at s') \<le> threads s'"
proof -
  obtain q where q: "f_at s' = (f_at s)[j := q]" "quoteStart s' = quoteStart s" "go s' = go s"
      "quoteFin s' = quoteFin s + (if f_at s ! j = Named then 1 else 0)"
      "f_at s ! j = Checking \<and> 0 < quoteFin s \<longrightarrow> q = Leaving" "f_at s ! j = Named \<longrightarrow> q = Posted"
      "f_at s ! j \<in> {Leaving, Posted} \<longrightarrow> q \<in> {Parked, Checking}"
    by (rule step_on [OF assms(1,3)])
  note put = posting_put [OF assms(2), of q, folded q(1)] and n = fetcher_length [OF assms(1)]
  show ?thesis
  proof (cases "f_at s ! j = Checking \<and> quoteFin s = 0")
    case True
    then show ?thesis using q(4) counts_all(3) [of "f_at s'"] by simp
  next
    case False
    then have "f_at s ! j = Named \<or> poster (f_at s ! j) \<or> \<not> poster q" "f_at s ! j = Named \<longrightarrow> \<not> poster q \<and> poster Named"
      using assms(3) q(5-7) by (auto simp: running_def poster_def)
    then show ?thesis using put n q(4) assms(4) by (auto split: if_splits)
  qed
qed

lemma fetcher_counts:
  assumes "fetcher_step ok j s = Some s'" "j < threads s" "places_ok s" "counts (h_at s) s"
  shows "counts (h_at s') s'"
proof -
  let ?f = "f_at s ! j" and ?b = "busy s ! j"
  have pl: "place (h_at s) j ?f ?b" using assms(2,3) by (simp add: places_ok_def)
  have same: "h_at s' = h_at s" "threads s' = threads s" using fetcher_length [OF assms(1)] by simp_all
  have out: "?f \<noteq> Parked" if "quoteStart s = 0" using assms(1) that by (auto simp: fetcher_step_def)
  have ent: "quoteStart s' + entered (f_at s') = quoteStart s + entered (f_at s) \<and> quoteFin s' = quoteFin s \<and> go s' = go s"
    if "entering ?f ?b" "\<not> go s"
    using that assms(1) by (intro step_in [OF assms(1,2)]) (auto simp: entering_def fetcher_step_def)
  have lea: "quoteStart s' = quoteStart s \<and> go s' = go s \<and> quoteFin s' + posting (f_at s') \<le> threads s'"
    if "leaving ?f ?b" "quoteStart s = 0" "quoteFin s + posting (f_at s) \<le> threads s"
  proof -
    have r: "?f \<in> running" using that(1) out [OF that(2)] by (auto simp: leaving_def)
    have "quoteStart s' = quoteStart s \<and> go s' = go s" by (rule step_on [OF assms(1) r]) simp
    with step_posting [OF assms(1,2) r that(3)] show ?thesis by blast
  qed
  have cau: False if "caught ?f ?b" "quoteStart s = 0" using that out by (simp add: caught_def)
  have gat: "entering ?f ?b" if "?f = Gated" "?b = Threads" using that by (simp add: entering_def)
  have hol: "quoteStart s' + entered (f_at s') = quoteStart s + entered (f_at s) \<and> quoteFin s' = quoteFin s \<and> go s' = go s"
    if "?f = Parked \<or> ?f = Entering" using that by (intro step_in [OF assms(1,2)]) auto
  have beg: "quoteStart s' = quoteStart s \<and> quoteFin s' = quoteFin s \<and> go s' = go s" if "?f = Checking \<or> ?f = Leaving"
    using that assms(1) by (auto simp: fetcher_step_def Let_def)
  have unb: "?f \<noteq> Unborn" using assms(1) by (auto simp: fetcher_step_def)
  show ?thesis
  proof (cases "h_at s")
    case (Collecting k)
    then show ?thesis using pl assms(4) same lea cau by (cases "j < k") auto
  next
    case (Taking k)
    then show ?thesis using pl assms(4) same beg cau unb out by (cases "j < k"; cases "j = k") auto
  next
    case (Starting k)
    then show ?thesis using pl assms(4) same cau unb by (cases "j < k") auto
  next
    case (Watching k)
    then show ?thesis using pl assms(4) same ent gat by (cases "j < k") auto
  next
    case (Holding k)
    then show ?thesis using pl assms(4) same ent gat hol by (cases "j < k"; cases "j = k") auto
  next
    case Awaiting
    then show ?thesis using pl assms(4) same lea by auto
  next
    case Reading
    then show ?thesis using pl assms(4) same lea by auto
  next
    case (Posting k)
    then show ?thesis using pl assms(4) same ent by auto
  next
    case Draining
    then show ?thesis using pl assms(4) same ent by auto
  next
    case Opening
    then show ?thesis using pl assms(4) same ent gat by auto
  next
    case (Releasing k)
    then show ?thesis using pl assms(4) out by auto
  qed (use pl assms(4) cau same in auto)
qed

lemma all_parked:
  assumes "places_ok s" "\<And>i. place (h_at s) i (f_at s ! i) (busy s ! i) \<Longrightarrow> f_at s ! i = Parked"
  shows "\<forall>i < threads s. f_at s ! i = Parked"
  using assms by (simp add: places_ok_def)

lemma all_gated:
  assumes "places_ok s" "h_at s = Opening"
  shows "\<forall>i < threads s. f_at s ! i = Gated" "\<forall>i < threads s. f_at s ! i \<noteq> Parked"
  using assms by (simp_all add: places_ok_def)

lemma handler_counts:
  assumes "handler_step blank s = Some s'" "index_ok (h_at s) (threads s)" "places_ok s" "counts (h_at s) s"
  shows "counts (h_at s') s'"
proof -
  have par: "entered (f_at s) = 0" if "\<forall>i < threads s. f_at s ! i = Parked" using counts_all(2) that by simp
  note pk = all_parked [OF assms(3)]
  show ?thesis
  proof (cases "h_at s")
    case (Releasing k)
    then have "entered (f_at s) = 0" by (intro par pk) simp
    with Releasing assms show ?thesis by (auto simp: handler_step_def loop_def)
  next
    case (Posting k)
    with assms last_index [of k "threads s"] show ?thesis by (auto simp: handler_step_def loop_def)
  next
    case Opening
    then have "entered (f_at s) = threads s" using counts_all(1) all_gated(2) [OF assms(3)] by simp
    with Opening assms counts_all(3) [of "f_at s"] show ?thesis by (auto simp: handler_step_def)
  next
    case (Watching k)
    with assms show ?thesis by (auto simp: handler_step_def loop_def split: if_splits)
  next
    case (Collecting k)
    with assms show ?thesis by (auto simp: handler_step_def loop_def split: if_splits)
  next
    case (Clearing k)
    with assms last_index [of k "threads s"] show ?thesis by (auto simp: handler_step_def loop_def split: if_splits)
  next
    case (Taking k)
    with assms show ?thesis by (auto simp: handler_step_def loop_def split: if_splits)
  qed (use assms in \<open>auto simp: handler_step_def loop_def split: if_splits\<close>)
qed

lemma named_frame [simp]:
  "named_ok (s\<lparr>h_at := h\<rparr>) = named_ok s" "named_ok (s\<lparr>quoteFin := n\<rparr>) = named_ok s"
  "named_ok (s\<lparr>busy := b\<rparr>) = named_ok s" "named_ok (s\<lparr>threadReturned := r\<rparr>) = named_ok s"
  by (simp_all add: named_ok_def split: option.split)

lemma current_frame [simp]:
  "current (s\<lparr>h_at := h\<rparr>) i = current s i" "current (s\<lparr>quoteFin := n\<rparr>) i = current s i"
  "current (s\<lparr>busy := b\<rparr>) i = current s i"
  by (simp_all add: current_def split: fetcher.split)

lemma handler_answers:
  assumes "handler_step blank s = Some s'" "places_ok s" "counts (h_at s) s" "answers_ok s"
  shows "answers_ok s' \<and> underway s'"
proof -
  show ?thesis
  proof (cases "h_at s")
    case Opening
    note g = all_gated(1) [OF assms(2) Opening]
    from Opening g assms(1,3) show ?thesis
      by (auto simp: handler_step_def answers_ok_def underway_def current_def)
  next
    case Awaiting
    with assms(1,4) show ?thesis
      by (auto simp: handler_step_def answers_ok_def underway_def split: if_splits)
  next
    case Reading
    with assms(1,4) show ?thesis
      by (auto simp: handler_step_def answers_ok_def underway_def split: if_splits)
  next
    case (Collecting k)
    with assms(1,4) show ?thesis
      by (auto simp: handler_step_def loop_def answers_ok_def underway_def split: if_splits)
  qed (use assms(1) in \<open>auto simp: handler_step_def loop_def answers_ok_def underway_def split: if_splits\<close>)
qed

text \<open>The threads keep their answers: what is named was received for the current request.\<close>

lemma fetcher_named:
  assumes "fetcher_step ok j s = Some s'" "j < threads s" "length (held s) = threads s" "current s j" "named_ok s"
  shows "named_ok s'"
  using assms
  by (cases "f_at s ! j")
    (auto simp: fetcher_step_def named_ok_def current_def Let_def nth_list_update split: option.splits if_splits)

lemma fetcher_current:
  assumes "fetcher_step ok j s = Some s'" "j < threads s" "length (held s) = threads s" "length (asked s) = threads s"
    "current s j" "current s i" "i < threads s"
  shows "current s' i"
proof (cases "i = j")
  case True
  show ?thesis
    using assms(1-5) True
    by (cases "f_at s ! j") (auto simp: fetcher_step_def current_def named_ok_def Let_def split: if_splits)
next
  case False
  have o: "f_at s' ! i = f_at s ! i" "asked s' ! i = asked s ! i" "held s' ! i = held s ! i" "job s' = job s"
    using assms(1) False by (auto simp: fetcher_step_def Let_def nth_list_update split: fetcher.splits if_splits)
  show ?thesis
  proof (cases "f_at s ! i = Named")
    case True
    with assms(6) have "named_ok s" by (simp add: current_def)
    from fetcher_named [OF assms(1-3,5) this] True o(1) show ?thesis by (simp add: current_def)
  next
    case False
    with assms(6) o show ?thesis by (simp add: current_def split: fetcher.splits)
  qed
qed

lemma fetcher_answers:
  assumes "fetcher_step ok j s = Some s'" "j < threads s" "places_ok s" "counts (h_at s) s" "answers_ok s" "underway s"
  shows "answers_ok s' \<and> underway s'"
proof -
  have l: "length (held s) = threads s" "length (asked s) = threads s" using assms(3) by (simp_all add: places_ok_def)
  have same: "h_at s' = h_at s" "threads s' = threads s" using fetcher_length [OF assms(1)] by simp_all
  have cur: "\<forall>i < threads s'. current s' i" if "\<forall>i < threads s. current s i"
    using that fetcher_current [OF assms(1,2) l] assms(2) same by simp
  have nam: "named_ok s'" if "named_ok s" "\<forall>i < threads s. current s i"
    using that fetcher_named [OF assms(1,2) l(1)] assms(2) by simp
  have new: "named_ok s'" if "\<forall>i < threads s. current s i" "quoteFin s = 0" "0 < quoteFin s'"
  proof -
    have n: "f_at s ! j = Named" "s' = s\<lparr>quoteFin := Suc (quoteFin s), f_at := (f_at s)[j := Posted]\<rparr>"
      using assms(1) that(2,3) by (auto simp: fetcher_step_def Let_def split: fetcher.splits if_splits)
    then have "named_ok s" using that(1) assms(2) by (auto simp: current_def)
    with nam that(1) show ?thesis by blast
  qed
  have "answers_ok s'" using assms(5) same cur nam new unfolding answers_ok_def by auto
  moreover have "underway s'"
    unfolding underway_def same
  proof (intro impI allI)
    fix i assume h: "h_at s = Awaiting" "quoteFin s' = 0" "i < threads s"
    then have z: "quoteFin s = 0" "\<forall>i < threads s. f_at s ! i \<notin> {Parked, Leaving}"
      using assms(1,6) by (auto simp: fetcher_step_def underway_def Let_def split: fetcher.splits if_splits)
    then have "f_at s ! j \<notin> {Parked, Leaving}" "f_at s ! i \<notin> {Parked, Leaving}" using assms(2) h(3) by blast+
    with assms(1,2) z(1) show "f_at s' ! i \<notin> {Parked, Leaving}"
      by (cases "f_at s ! j") (auto simp: fetcher_step_def Let_def nth_list_update split: if_splits)
  qed
  ultimately show ?thesis ..
qed

lemma barrier_ok_step:
  assumes "barrier_step s s'" "barrier_ok s"
  shows "barrier_ok s'"
  using assms(1)
proof cases
  case (by_handler blank)
  then show ?thesis
    using assms(2) handler_length [OF by_handler] handler_index [OF by_handler] handler_places [OF by_handler]
      handler_counts [OF by_handler] handler_answers [OF by_handler]
    by (simp add: barrier_ok_def)
next
  case (by_thread i ok)
  then show ?thesis
    using assms(2) fetcher_length [OF by_thread(2)] fetcher_places [OF by_thread(2,1)]
      fetcher_counts [OF by_thread(2,1)] fetcher_answers [OF by_thread(2,1)]
    by (simp add: barrier_ok_def)
qed

lemma barrier_ok_init: "0 < n \<Longrightarrow> barrier_ok (barrier_init n)"
  by (simp add: barrier_ok_def barrier_init_def places_ok_def answers_ok_def underway_def)

lemma reachable_ok: "barrier_reachable n s \<Longrightarrow> 0 < n \<Longrightarrow> barrier_ok s \<and> threads s = n"
proof (induction rule: barrier_reachable.induct)
  case start
  then show ?case by (simp add: barrier_ok_init) (simp add: barrier_init_def)
next
  case (step s s')
  have "threads s' = threads s"
    using step.hyps(2) by cases (auto dest: handler_length fetcher_length)
  with step barrier_ok_step show ?case by simp
qed

section \<open>No deadlock\<close>

lemma running_moves: "f_at s ! i \<in> running \<Longrightarrow> go s \<Longrightarrow> \<exists>s'. fetcher_step True i s = Some s'"
  by (auto simp: running_def fetcher_step_def Let_def)

lemma entered_less: "i < length ps \<Longrightarrow> ps ! i = Parked \<Longrightarrow> entered ps < length ps"
  unfolding entered_def by (rule length_filter_less [of Parked]) (auto simp: in_set_conv_nth)

lemma entering_moves:
  assumes "f_at s ! i \<in> {Parked, Entering}" "busy s ! i = Free" "i < threads s" "quoteStart s + entered (f_at s) = threads s"
  shows "\<exists>s'. fetcher_step True i s = Some s'"
  using assms entered_less [of i "f_at s"] by (auto simp: fetcher_step_def)

text \<open>A step that is not the quote thread taking a free mutex while it watches the threads.\<close>

definition moves :: "barrier \<Rightarrow> bool" where
  "moves s \<longleftrightarrow> (\<exists>s'. barrier_step s s' \<and> (\<forall>k. h_at s' \<noteq> Holding k))"

lemma moves_handler: "handler_step False s = Some s' \<Longrightarrow> \<forall>k. h_at s' \<noteq> Holding k \<Longrightarrow> moves s"
  unfolding moves_def using by_handler by blast

lemma moves_thread: "\<exists>s'. fetcher_step True i s = Some s' \<Longrightarrow> i < threads s \<Longrightarrow> \<forall>k. h_at s \<noteq> Holding k \<Longrightarrow> moves s"
proof -
  assume "\<exists>s'. fetcher_step True i s = Some s'" and i: "i < threads s" and h: "\<forall>k. h_at s \<noteq> Holding k"
  then obtain s' where s': "fetcher_step True i s = Some s'" by blast
  have "\<forall>k. h_at s' \<noteq> Holding k" using h fetcher_length [OF s'] by simp
  with by_thread [OF i s'] show "moves s" unfolding moves_def by blast
qed

lemma always_moves:
  assumes "barrier_ok s" "h_at s \<noteq> Ended"
  shows "moves s"
proof -
  have ix: "0 < threads s" "index_ok (h_at s) (threads s)" and ct: "counts (h_at s) s" and uw: "underway s"
    and pl: "\<And>i. i < threads s \<Longrightarrow> place (h_at s) i (f_at s ! i) (busy s ! i)"
    using assms(1) by (simp_all add: barrier_ok_def places_ok_def)
  note go_on = moves_handler [where s = s, unfolded handler_step_def loop_def]
  show ?thesis
  proof (cases "h_at s")
    case (Taking k)
    show ?thesis
    proof (cases "busy s ! k = Free")
      case True
      with Taking go_on show ?thesis by auto
    next
      case False
      with Taking pl [of k] ix ct have "\<exists>s'. fetcher_step True k s = Some s'" by (auto simp: fetcher_step_def)
      with Taking ix show ?thesis by (intro moves_thread) auto
    qed
  next
    case (Watching k)
    show ?thesis
    proof (cases "busy s ! k = Free")
      case True
      with Watching pl [of k] ix ct have "\<exists>s'. fetcher_step True k s = Some s'"
        by (intro entering_moves) (auto simp: entering_def)
      with Watching ix show ?thesis by (intro moves_thread) auto
    next
      case False
      with Watching go_on show ?thesis by auto
    qed
  next
    case Awaiting
    show ?thesis
    proof (cases "quoteFin s = 0")
      case True
      with Awaiting uw ix pl [of 0] have "f_at s ! 0 \<in> running" by (auto simp: underway_def leaving_def)
      with Awaiting ct have "\<exists>s'. fetcher_step True 0 s = Some s'" by (intro running_moves) auto
      with Awaiting ix show ?thesis by (intro moves_thread) auto
    next
      case False
      with Awaiting go_on show ?thesis by auto
    qed
  next
    case (Collecting k)
    show ?thesis
    proof (cases "busy s ! k = Free")
      case True
      with Collecting go_on show ?thesis by auto
    next
      case False
      with Collecting pl [of k] ix have "f_at s ! k \<in> running" by (auto simp: leaving_def)
      with Collecting ct have "\<exists>s'. fetcher_step True k s = Some s'" by (intro running_moves) auto
      with Collecting ix show ?thesis by (intro moves_thread) auto
    qed
  qed (use assms(2) ct go_on in auto)
qed

section \<open>The properties\<close>

definition at_rest :: "barrier \<Rightarrow> bool" where
  "at_rest s \<longleftrightarrow> list_all (\<lambda>p. p = Parked) (f_at s) \<and> list_all (\<lambda>b. b = Handlers) (busy s) \<and>
     quoteStart s = 0 \<and> quoteFin s = 0 \<and> \<not> go s"

text \<open>C33: In every interleaving of the quote thread with its ten fetching threads: when the quote
  thread turns to the queue of requests, all threads wait for \<open>quoteStart\<close>, their mutexes are taken
  and both semaphores are back at 0, so no thread reads the request while it is replaced; when it
  uses a reply, \<open>threadReturnedID\<close> names a thread whose buffer answers the current request, not an
  earlier one; and unless the quote thread has ended, some thread can go on.\<close>

theorem fetch_barrier:
  assumes "barrier_reachable maxRequests s"
  shows "(case h_at s of Resting \<Rightarrow> at_rest s | Reading \<Rightarrow> named_ok s | _ \<Rightarrow> True) \<and> (h_at s = Ended \<or> moves s)"
proof -
  have ok: "barrier_ok s" using reachable_ok [OF assms] by (simp add: maxRequests_def)
  have "at_rest s" if "h_at s = Resting"
    using ok that by (auto simp: barrier_ok_def places_ok_def at_rest_def caught_def list_all_length)
  moreover have "named_ok s" if "h_at s = Reading" using ok that by (simp add: barrier_ok_def answers_ok_def)
  ultimately show ?thesis using always_moves [OF ok] by (simp split: handler.split)
qed

text \<open>A schedule as a list of steps.\<close>

datatype move = Quote_thread bool | Thread nat bool

fun run :: "move list \<Rightarrow> barrier \<Rightarrow> barrier option" where
  "run [] s = Some s"
| "run (Quote_thread blank # ms) s = Option.bind (handler_step blank s) (run ms)"
| "run (Thread i ok # ms) s = (if i < threads s then Option.bind (fetcher_step ok i s) (run ms) else None)"

lemma run_reachable: "run ms s = Some s' \<Longrightarrow> barrier_reachable n s \<Longrightarrow> barrier_reachable n s'"
proof (induction ms s rule: run.induct)
  case (2 blank ms s)
  then obtain t where t: "handler_step blank s = Some t" "run ms t = Some s'" by (cases "handler_step blank s") auto
  with 2 step [OF _ by_handler] show ?case by blast
next
  case (3 i ok ms s)
  then obtain t where t: "i < threads s" "fetcher_step ok i s = Some t" "run ms t = Some s'"
    by (cases "i < threads s"; cases "fetcher_step ok i s") auto
  with 3 step [OF _ by_thread] show ?case by blast
qed simp

definition first_reply :: "move list" where
  "first_reply =
     (let q = Quote_thread False in
      concat (map (\<lambda>i. [q, Thread i True, Thread i True, q]) [0..<maxRequests]) @
      [q, q] @ replicate (2 * maxRequests) q @ [q] @
      concat (map (\<lambda>i. [Thread i True, Thread i True, q]) [0..<maxRequests]) @
      [q] @ replicate 6 (Thread 0 True) @ [q])"

definition reads :: "barrier option \<Rightarrow> fetcher \<Rightarrow> bool" where
  "reads r p \<longleftrightarrow> (case r of None \<Rightarrow> False
     | Some s \<Rightarrow> h_at s = Reading \<and> (case threadReturnedID s of None \<Rightarrow> False | Some j \<Rightarrow> f_at s ! j = p \<and> asked s ! j = job s))"

lemma first_reply_read: "reads (run first_reply (barrier_init maxRequests)) Posted"
  by code_simp

lemma fetch_barrier_witness:
  "case run first_reply (barrier_init maxRequests) of None \<Rightarrow> False
   | Some s \<Rightarrow> h_at s = Reading \<and> named_ok s \<and> moves s"
proof -
  obtain s where s: "run first_reply (barrier_init maxRequests) = Some s" "h_at s = Reading"
    using first_reply_read by (auto simp: reads_def split: option.splits)
  from fetch_barrier [OF run_reachable [OF s(1) start]] s show ?thesis by simp
qed

text \<open>
  The winner is not held back: with \<open>quoteFin\<close> back at 0 after the wait it asks again, and waits for
  bytes to be received into the buffer the quote thread is reading.
\<close>

theorem reply_overwritten:
  "\<exists>s. barrier_reachable maxRequests s \<and> h_at s = Reading \<and>
     (case threadReturnedID s of None \<Rightarrow> False | Some j \<Rightarrow> f_at s ! j = Receiving)"
proof -
  have "reads (run (first_reply @ replicate 3 (Thread 0 True)) (barrier_init maxRequests)) Receiving" by code_simp
  then obtain s where s: "run (first_reply @ replicate 3 (Thread 0 True)) (barrier_init maxRequests) = Some s" "h_at s = Reading"
      "case threadReturnedID s of None \<Rightarrow> False | Some j \<Rightarrow> f_at s ! j = Receiving"
    by (auto simp: reads_def split: option.splits)
  then show ?thesis using run_reachable [OF s(1) start] by blast
qed

end
