(* ===== verification/Tables.thy ===== *)
theory Tables
  imports Accounts
begin

text \<open>
  What the statements of the transaction server mean. The server keeps accounts, holdings and
  orders in tables of a database, created as in \<open>src/src/setup_commands\<close>; the statements are the
  format strings of \<open>transServer.c\<close>, one constructor of \<open>sql\<close> each. Here a table is the list of its
  rows and a statement is what SQL says it does to them. The rows are compared with the accounts of
  the server (\<open>mirrors\<close>).
\<close>

section \<open>Literals\<close>

text \<open>
  A column of type \<open>numeric(15,2)\<close> is its number of cents. A literal with one decimal is so many
  tenths of a dollar for the database; \<open>str2price\<close> reads its decimal as cents.
\<close>

definition places :: "string \<Rightarrow> string \<times> string" where
  "places s = (takeWhile (\<lambda>c. c \<noteq> CHR ''.'') s, drop 1 (dropWhile (\<lambda>c. c \<noteq> CHR ''.'') s))"

definition cents :: "string \<Rightarrow> int" where
  "cents s = (case places s of (w, f) \<Rightarrow> read_digits 0 (w @ f @ replicate (2 - length f) CHR ''0''))"

definition numeric :: "string \<Rightarrow> bool" where
  "numeric s \<longleftrightarrow> (case places s of (w, f) \<Rightarrow>
     w \<noteq> [] \<and> list_all is_digit w \<and> list_all is_digit f \<and> length f \<le> 2 \<and> cents s < 10 ^ 15)"

definition decimal :: "string \<Rightarrow> bool" where
  "decimal s \<longleftrightarrow> numeric s \<and> length (snd (places s)) = 2"

definition bigint :: "string \<Rightarrow> bool" where
  "bigint s \<longleftrightarrow> s \<noteq> [] \<and> list_all is_digit s \<and> length s \<le> 18"

text \<open>A text of at most \<open>k\<close> characters that can stand between quotes.\<close>

definition char_col :: "nat \<Rightarrow> string \<Rightarrow> bool" where
  "char_col k s \<longleftrightarrow> length s \<le> k \<and> CHR 0x27 \<notin> set s"

definition int_col :: "int \<Rightarrow> bool" where
  "int_col n \<longleftrightarrow> - (2 ^ 31) \<le> n \<and> n < 2 ^ 31"

lemma one_decimal_differs: "str2price (Some ''12.5'') = 1205 \<and> cents ''12.5'' = 1250"
  by code_simp

text \<open>With two decimals both read the same number.\<close>

lemma decimalE:
  assumes "decimal s"
  obtains w x y where "s = w @ CHR ''.'' # [x, y]" "w \<noteq> []" "\<forall>c \<in> set w. is_digit c" "is_digit x" "is_digit y"
    "cents s = read_digits 0 (w @ [x, y])" "0 \<le> cents s" "cents s < 10 ^ 15"
proof -
  let ?w = "takeWhile (\<lambda>c. c \<noteq> CHR ''.'') s" and ?f = "drop 1 (dropWhile (\<lambda>c. c \<noteq> CHR ''.'') s)"
  have n: "?w \<noteq> []" "\<forall>c \<in> set ?w. is_digit c" "\<forall>c \<in> set ?f. is_digit c" "length ?f = 2" "cents s < 10 ^ 15"
    using assms by (auto simp: decimal_def numeric_def places_def list_all_iff)
  have "\<exists>x y. l = [x, y]" if "length l = 2" for l :: string using that by (auto simp: length_Suc_conv numeral_2_eq_2)
  then obtain x y where f: "?f = [x, y]" using n(4) by metis
  then have "dropWhile (\<lambda>c. c \<noteq> CHR ''.'') s \<noteq> []" by (metis drop_Nil list.distinct(1))
  moreover from hd_dropWhile [OF this] have "hd (dropWhile (\<lambda>c. c \<noteq> CHR ''.'') s) = CHR ''.''" by simp
  ultimately have "dropWhile (\<lambda>c. c \<noteq> CHR ''.'') s = CHR ''.'' # [x, y]"
    using f by (cases "dropWhile (\<lambda>c. c \<noteq> CHR ''.'') s") auto
  then have s: "s = ?w @ CHR ''.'' # [x, y]" by (metis takeWhile_dropWhile_id)
  have c: "cents s = read_digits 0 (?w @ [x, y])" using f by (simp add: cents_def places_def)
  have "0 \<le> cents s" unfolding c using n(2,3) f by (intro read_digits_ge) auto
  with s n f c that show thesis by auto
qed

lemma decimal_price: "decimal s \<Longrightarrow> str2price (Some s) = cents s"
proof (erule decimalE)
  fix w x y
  assume s: "s = w @ CHR ''.'' # [x, y]" and d: "w \<noteq> []" "\<forall>c \<in> set w. is_digit c" "is_digit x" "is_digit y"
    and c: "cents s = read_digits 0 (w @ [x, y])" "0 \<le> cents s" "cents s < 10 ^ 15"
  have "fits64 (cents s)" using c(2,3) by (simp add: fits64_def)
  with str2price_decimal [OF d] c(1) s show "str2price (Some s) = cents s" by simp
qed

lemma decimal_price2str:
  assumes "0 \<le> p" "p < 10 ^ 15"
  shows "decimal (price2str p)" "cents (price2str p) = p"
proof -
  have p: "p < 2 ^ 63" using assms(2) by simp
  let ?w = "show_nat (nat p div 100)" and ?f = "[digit_char (nat p mod 100 div 10), digit_char (nat p mod 10)]"
  have dot: "c \<noteq> CHR ''.''" if "c \<in> set ?w" for c using that show_nat_digits digit_not_dot by blast
  have pl: "places (price2str p) = (?w, ?f)"
    unfolding places_def price2str_nonneg [OF assms(1) p] using dot by (simp add: takeWhile_append dropWhile_append)
  have tens: "is_digit (digit_char (nat p mod 100 div 10))" by (intro is_digit_digit_char) auto
  show c: "cents (price2str p) = p" unfolding cents_def pl using price2str_digits [OF assms(1)] by simp
  show "decimal (price2str p)"
    unfolding decimal_def numeric_def pl using assms(2) show_nat_digits tens by (simp add: c list_all_iff)
qed

section \<open>Rows\<close>

text \<open>The columns in the order in which the statements list them.\<close>

record order_row =
  o_user :: string
  o_trans :: int
  o_stock :: string
  o_type :: char
  o_reserved :: int
  o_value :: int

record tables =
  t_accounts :: "(string \<times> int) list"
  t_holdings :: "(string \<times> string \<times> int) list"
  t_orders :: "order_row list"
  t_transactions :: "(string \<times> int \<times> string \<times> int \<times> int \<times> char) list"

definition is_order :: "string \<Rightarrow> string \<Rightarrow> char \<Rightarrow> order_row \<Rightarrow> bool" where
  "is_order uid sid ty r \<longleftrightarrow> o_user r = uid \<and> o_stock r = sid \<and> o_type r = ty"

fun run_sql :: "sql \<Rightarrow> tables \<Rightarrow> tables" where
  "run_sql (InsertAcct uid bal) tb =
     tb\<lparr>t_accounts := t_accounts tb @ (if uid \<in> set (map fst (t_accounts tb)) then [] else [(uid, cents bal)])\<rparr>"
| "run_sql (UpdateBal bal uid) tb =
     tb\<lparr>t_accounts := map (\<lambda>(u, b). (u, if u = uid then cents bal else b)) (t_accounts tb)\<rparr>"
| "run_sql (InsertStk uid sid n) tb = tb\<lparr>t_holdings := t_holdings tb @ [(uid, sid, n)]\<rparr>"
| "run_sql (UpdateStk n uid sid) tb =
     tb\<lparr>t_holdings := map (\<lambda>(u, s, k). (u, s, if u = uid \<and> s = sid then n else k)) (t_holdings tb)\<rparr>"
| "run_sql (InsertTran uid tid sid adj t c) tb =
     tb\<lparr>t_transactions := t_transactions tb @ [(uid, read_digits 0 tid, sid, cents adj, t, c)]\<rparr>"
| "run_sql (InsertTrig uid tid sid ty res val) tb = tb\<lparr>t_orders := t_orders tb @
     [\<lparr>o_user = uid, o_trans = read_digits 0 tid, o_stock = sid, o_type = ty, o_reserved = cents res, o_value = cents val\<rparr>]\<rparr>"
| "run_sql (UpdateTrig val uid sid ty) tb =
     tb\<lparr>t_orders := map (\<lambda>r. if is_order uid sid ty r then r\<lparr>o_value := cents val\<rparr> else r) (t_orders tb)\<rparr>"
| "run_sql (DeleteTrig uid sid ty) tb =
     tb\<lparr>t_orders := filter (\<lambda>r. \<not> is_order uid sid ty r) (t_orders tb)\<rparr>"
| "run_sql _ tb = tb"

text \<open>
  A text is put into the statement as it is; the database does what is meant only when it is a
  literal of the column's type. Of other statements nothing is claimed (\<open>None\<close>): a database thread
  repeats a refused one for ever.
\<close>

fun accepts :: "sql \<Rightarrow> bool" where
  "accepts (InsertAcct uid bal) \<longleftrightarrow> char_col 10 uid \<and> numeric bal"
| "accepts (UpdateBal bal uid) \<longleftrightarrow> numeric bal \<and> char_col 10 uid"
| "accepts (InsertStk uid sid n) \<longleftrightarrow> char_col 10 uid \<and> char_col 3 sid \<and> int_col n"
| "accepts (UpdateStk n uid sid) \<longleftrightarrow> int_col n \<and> char_col 10 uid \<and> char_col 3 sid"
| "accepts (InsertTran uid tid sid adj t c) \<longleftrightarrow> char_col 10 uid \<and> bigint tid \<and> char_col 3 sid \<and> numeric adj"
| "accepts (InsertTrig uid tid sid ty res val) \<longleftrightarrow>
     char_col 10 uid \<and> bigint tid \<and> char_col 3 sid \<and> numeric res \<and> numeric val"
| "accepts (UpdateTrig val uid sid ty) \<longleftrightarrow> numeric val \<and> char_col 10 uid \<and> char_col 3 sid"
| "accepts (DeleteTrig uid sid ty) \<longleftrightarrow> char_col 10 uid \<and> char_col 3 sid"
| "accepts (SelectUserBal uid) \<longleftrightarrow> char_col 10 uid"
| "accepts (SelectUserStock uid) \<longleftrightarrow> char_col 10 uid"
| "accepts (SelectUserTrig uid) \<longleftrightarrow> char_col 10 uid"

text \<open>One request of \<open>dbenq\<close> to the database it names, and a sequence of them.\<close>

definition run_request :: "int \<times> sql list \<Rightarrow> (int \<Rightarrow> tables) \<Rightarrow> (int \<Rightarrow> tables) option" where
  "run_request req dbs = (case req of (db, stmts) \<Rightarrow>
     if list_all accepts stmts then Some (dbs(db := fold run_sql stmts (dbs db))) else None)"

fun run_requests :: "(int \<times> sql list) list \<Rightarrow> (int \<Rightarrow> tables) \<Rightarrow> (int \<Rightarrow> tables) option" where
  "run_requests [] dbs = Some dbs"
| "run_requests (r # rs) dbs = Option.bind (run_request r dbs) (run_requests rs)"

section \<open>What a user's rows say\<close>

definition balance_rows :: "tables \<Rightarrow> string \<Rightarrow> int list" where
  "balance_rows tb uid = map snd (filter (\<lambda>(u, b). u = uid) (t_accounts tb))"

definition share_rows :: "tables \<Rightarrow> string \<Rightarrow> string \<Rightarrow> int list" where
  "share_rows tb uid sid = map (\<lambda>(u, s, n). n) (filter (\<lambda>(u, s, n). u = uid \<and> s = sid) (t_holdings tb))"

definition order_rows :: "tables \<Rightarrow> string \<Rightarrow> char \<Rightarrow> string \<Rightarrow> (int \<times> int) list" where
  "order_rows tb uid ty sid =
     map (\<lambda>r. (o_reserved r, o_value r)) (filter (is_order uid sid ty) (t_orders tb))"

text \<open>
  The rows of a user are those of its account: one balance, one row for each holding and each order.
  A pending buy or sell is not in the database.
\<close>

definition mirrors :: "tables \<Rightarrow> string \<Rightarrow> account \<Rightarrow> bool" where
  "mirrors tb uid a \<longleftrightarrow>
     balance_rows tb uid = [a_bal a] \<and>
     (\<forall>sid. share_rows tb uid sid = (case a_held a sid of None \<Rightarrow> [] | Some n \<Rightarrow> [n])) \<and>
     (\<forall>ty sid. order_rows tb uid ty sid = (case a_order a (ty, sid) of None \<Rightarrow> [] | Some p \<Rightarrow> [p]))"

lemma balance_rows_run [simp]:
  "balance_rows (run_sql (UpdateBal bal uid) tb) u = (if u = uid then map (\<lambda>_. cents bal) (balance_rows tb u) else balance_rows tb u)"
  "balance_rows (run_sql (InsertAcct uid bal) tb) u =
     balance_rows tb u @ (if u = uid \<and> balance_rows tb uid = [] then [cents bal] else [])"
proof -
  have "map snd (filter (\<lambda>(v, b). v = u) (map (\<lambda>(v, b). (v, if v = uid then cents bal else b)) xs)) =
      (if u = uid then map (\<lambda>_. cents bal) (map snd (filter (\<lambda>(v, b). v = u) xs)) else map snd (filter (\<lambda>(v, b). v = u) xs))" for xs
    by (induction xs) auto
  then show "balance_rows (run_sql (UpdateBal bal uid) tb) u =
      (if u = uid then map (\<lambda>_. cents bal) (balance_rows tb u) else balance_rows tb u)"
    by (simp add: balance_rows_def)
  have "uid \<in> fst ` set (t_accounts tb) \<longleftrightarrow> balance_rows tb uid \<noteq> []"
    by (force simp: balance_rows_def filter_empty_conv)
  then show "balance_rows (run_sql (InsertAcct uid bal) tb) u =
      balance_rows tb u @ (if u = uid \<and> balance_rows tb uid = [] then [cents bal] else [])"
    by (auto simp: balance_rows_def)
qed

lemma share_rows_run [simp]:
  "share_rows (run_sql (InsertStk uid sid n) tb) u s = share_rows tb u s @ (if u = uid \<and> s = sid then [n] else [])"
  "share_rows (run_sql (UpdateStk n uid sid) tb) u s =
     (if u = uid \<and> s = sid then map (\<lambda>_. n) (share_rows tb u s) else share_rows tb u s)"
proof -
  show "share_rows (run_sql (InsertStk uid sid n) tb) u s = share_rows tb u s @ (if u = uid \<and> s = sid then [n] else [])"
    by (auto simp: share_rows_def)
  have "map (\<lambda>(v, t, k). k) (filter (\<lambda>(v, t, k). v = u \<and> t = s) (map (\<lambda>(v, t, k). (v, t, if v = uid \<and> t = sid then n else k)) xs)) =
      (if u = uid \<and> s = sid then map (\<lambda>_. n) (map (\<lambda>(v, t, k). k) (filter (\<lambda>(v, t, k). v = u \<and> t = s) xs))
       else map (\<lambda>(v, t, k). k) (filter (\<lambda>(v, t, k). v = u \<and> t = s) xs))" for xs
    by (induction xs) auto
  then show "share_rows (run_sql (UpdateStk n uid sid) tb) u s =
      (if u = uid \<and> s = sid then map (\<lambda>_. n) (share_rows tb u s) else share_rows tb u s)"
    by (simp add: share_rows_def)
qed

lemma order_rows_run [simp]:
  "order_rows (run_sql (InsertTrig uid tid sid ty res val) tb) u t s =
     order_rows tb u t s @ (if u = uid \<and> t = ty \<and> s = sid then [(cents res, cents val)] else [])"
  "order_rows (run_sql (UpdateTrig val uid sid ty) tb) u t s =
     (if u = uid \<and> t = ty \<and> s = sid then map (\<lambda>(r, _). (r, cents val)) (order_rows tb u t s) else order_rows tb u t s)"
  "order_rows (run_sql (DeleteTrig uid sid ty) tb) u t s =
     (if u = uid \<and> t = ty \<and> s = sid then [] else order_rows tb u t s)"
proof -
  show "order_rows (run_sql (InsertTrig uid tid sid ty res val) tb) u t s =
     order_rows tb u t s @ (if u = uid \<and> t = ty \<and> s = sid then [(cents res, cents val)] else [])"
    by (auto simp: order_rows_def is_order_def)
  let ?f = "\<lambda>r. if is_order uid sid ty r then r\<lparr>o_value := cents val\<rparr> else r"
  have "map (\<lambda>r. (o_reserved r, o_value r)) (filter (is_order u s t) (map ?f xs)) =
      (if u = uid \<and> t = ty \<and> s = sid
       then map (\<lambda>(r, _). (r, cents val)) (map (\<lambda>r. (o_reserved r, o_value r)) (filter (is_order u s t) xs))
       else map (\<lambda>r. (o_reserved r, o_value r)) (filter (is_order u s t) xs))" for xs
  proof (cases "u = uid \<and> t = ty \<and> s = sid")
    case True
    have "is_order uid sid ty (r\<lparr>o_value := cents val\<rparr>) = is_order uid sid ty r" for r by (simp add: is_order_def)
    with True show ?thesis by (induction xs) simp_all
  next
    case False
    have "is_order u s t (?f r) = is_order u s t r \<and> (is_order u s t r \<longrightarrow> \<not> is_order uid sid ty r)" for r
      using False by (auto simp: is_order_def)
    then show ?thesis unfolding if_not_P [OF False] by (induction xs) simp_all
  qed
  note set_value = this
  have "t_orders (run_sql (UpdateTrig val uid sid ty) tb) = map ?f (t_orders tb)" by simp
  then show "order_rows (run_sql (UpdateTrig val uid sid ty) tb) u t s =
     (if u = uid \<and> t = ty \<and> s = sid then map (\<lambda>(r, _). (r, cents val)) (order_rows tb u t s) else order_rows tb u t s)"
    unfolding order_rows_def by (simp only: set_value)
  have "filter (is_order u s t) (filter (\<lambda>r. \<not> is_order uid sid ty r) xs) =
      (if u = uid \<and> t = ty \<and> s = sid then [] else filter (is_order u s t) xs)" for xs
  proof (cases "u = uid \<and> t = ty \<and> s = sid")
    case False
    then have "is_order u s t r \<longrightarrow> \<not> is_order uid sid ty r" for r by (auto simp: is_order_def)
    then show ?thesis unfolding if_not_P [OF False] filter_filter by (intro filter_cong) auto
  qed simp
  then show "order_rows (run_sql (DeleteTrig uid sid ty) tb) u t s = (if u = uid \<and> t = ty \<and> s = sid then [] else order_rows tb u t s)"
    by (simp add: order_rows_def)
qed

lemma rows_frame [simp]:
  "balance_rows (run_sql (InsertStk uid sid n) tb) u = balance_rows tb u"
  "balance_rows (run_sql (UpdateStk n uid sid) tb) u = balance_rows tb u"
  "balance_rows (run_sql (InsertTrig uid tid sid ty res val) tb) u = balance_rows tb u"
  "balance_rows (run_sql (UpdateTrig val uid sid ty) tb) u = balance_rows tb u"
  "balance_rows (run_sql (DeleteTrig uid sid ty) tb) u = balance_rows tb u"
  "share_rows (run_sql (InsertAcct uid bal) tb) u s = share_rows tb u s"
  "share_rows (run_sql (UpdateBal bal uid) tb) u s = share_rows tb u s"
  "share_rows (run_sql (InsertTrig uid tid sid ty res val) tb) u s = share_rows tb u s"
  "share_rows (run_sql (UpdateTrig val uid sid ty) tb) u s = share_rows tb u s"
  "share_rows (run_sql (DeleteTrig uid sid ty) tb) u s = share_rows tb u s"
  "order_rows (run_sql (InsertAcct uid bal) tb) u t s = order_rows tb u t s"
  "order_rows (run_sql (UpdateBal bal uid) tb) u t s = order_rows tb u t s"
  "order_rows (run_sql (InsertStk uid sid n) tb) u t s = order_rows tb u t s"
  "order_rows (run_sql (UpdateStk n uid sid) tb) u t s = order_rows tb u t s"
  "balance_rows (run_sql (InsertTran uid tid sid adj k c) tb) u = balance_rows tb u"
  "share_rows (run_sql (InsertTran uid tid sid adj k c) tb) u s = share_rows tb u s"
  "order_rows (run_sql (InsertTran uid tid sid adj k c) tb) u t s = order_rows tb u t s"
  by (simp_all add: balance_rows_def share_rows_def order_rows_def)

declare run_sql.simps [simp del] run_sql.simps(9-11) [simp]

text \<open>A statement on the rows of one user leaves those of the others alone.\<close>

fun sql_user :: "sql \<Rightarrow> string" where
  "sql_user (InsertAcct uid bal) = uid"
| "sql_user (UpdateBal bal uid) = uid"
| "sql_user (InsertStk uid sid n) = uid"
| "sql_user (UpdateStk n uid sid) = uid"
| "sql_user (InsertTran uid tid sid adj t c) = uid"
| "sql_user (InsertTrig uid tid sid ty res val) = uid"
| "sql_user (UpdateTrig val uid sid ty) = uid"
| "sql_user (DeleteTrig uid sid ty) = uid"
| "sql_user (SelectUserBal uid) = uid"
| "sql_user (SelectUserStock uid) = uid"
| "sql_user (SelectUserTrig uid) = uid"

definition absent :: "tables \<Rightarrow> string \<Rightarrow> bool" where
  "absent tb uid \<longleftrightarrow> balance_rows tb uid = [] \<and> (\<forall>sid. share_rows tb uid sid = []) \<and> (\<forall>ty sid. order_rows tb uid ty sid = [])"

lemma mirrors_other:
  assumes "list_all (\<lambda>q. sql_user q = uid) stmts" "u \<noteq> uid"
  shows "mirrors (fold run_sql stmts tb) u a = mirrors tb u a" "absent (fold run_sql stmts tb) u = absent tb u"
proof -
  have "mirrors (fold run_sql stmts tb) u a = mirrors tb u a \<and> absent (fold run_sql stmts tb) u = absent tb u"
    using assms(1)
  proof (induction stmts arbitrary: tb)
    case (Cons q qs)
    have "mirrors (run_sql q tb) u a = mirrors tb u a \<and> absent (run_sql q tb) u = absent tb u"
      using Cons.prems assms(2) by (cases q) (simp_all add: mirrors_def absent_def)
    with Cons show ?case by simp
  qed simp
  then show "mirrors (fold run_sql stmts tb) u a = mirrors tb u a" "absent (fold run_sql stmts tb) u = absent tb u" by blast+
qed

text \<open>The effect of the server's requests on the rows of their user.\<close>

lemma mirrorsD:
  assumes "mirrors tb uid a"
  shows "balance_rows tb uid = [a_bal a]"
    "share_rows tb uid sid = (case a_held a sid of None \<Rightarrow> [] | Some n \<Rightarrow> [n])"
    "order_rows tb uid ty sid = (case a_order a (ty, sid) of None \<Rightarrow> [] | Some p \<Rightarrow> [p])"
  using assms by (simp_all add: mirrors_def)

lemma mirrors_pend [simp]: "mirrors tb uid (a\<lparr>a_pend := p\<rparr>) = mirrors tb uid a"
  by (simp add: mirrors_def)

lemma mirrors_balance:
  "mirrors tb uid a \<Longrightarrow> mirrors (run_sql (UpdateBal bal uid) tb) uid (a\<lparr>a_bal := cents bal\<rparr>)"
  by (simp add: mirrors_def)

lemma mirrors_shares:
  assumes "mirrors tb uid a"
  shows "a_held a sid = None \<Longrightarrow> mirrors (run_sql (InsertStk uid sid n) tb) uid (a\<lparr>a_held := (a_held a)(sid \<mapsto> n)\<rparr>)"
    "a_held a sid \<noteq> None \<Longrightarrow> mirrors (run_sql (UpdateStk n uid sid) tb) uid (a\<lparr>a_held := (a_held a)(sid \<mapsto> n)\<rparr>)"
  using assms by (auto simp: mirrors_def)

lemma mirrors_orders:
  assumes "mirrors tb uid a"
  shows "a_order a (ty, sid) = None \<Longrightarrow>
      mirrors (run_sql (InsertTrig uid tid sid ty res val) tb) uid (a\<lparr>a_order := (a_order a)((ty, sid) \<mapsto> (cents res, cents val))\<rparr>)"
    "a_order a (ty, sid) = Some (m, p) \<Longrightarrow>
      mirrors (run_sql (UpdateTrig val uid sid ty) tb) uid (a\<lparr>a_order := (a_order a)((ty, sid) \<mapsto> (m, cents val))\<rparr>)"
    "mirrors (run_sql (DeleteTrig uid sid ty) tb) uid (a\<lparr>a_order := (a_order a)((ty, sid) := None)\<rparr>)"
  using assms by (auto simp: mirrors_def)

end
