(* ===== verification/Mirror.thy ===== *)
theory Mirror
  imports Books Tables
begin

text \<open>
  The databases follow the accounts: whatever commands run, the statements they send, executed in
  order, leave in the rows of every user exactly its balance, holdings and orders.
\<close>

section \<open>What a command sends\<close>

text \<open>
  \<open>idle\<close>: no statement, no response, no user touched. \<open>outcome\<close>: the handler has crashed, or it has
  given one response, and sent statements as \<open>P\<close> says when that is \<open>SUCC\<close> and none otherwise.
\<close>

definition idle :: "server \<Rightarrow> server \<Rightarrow> bool" where
  "idle st st' \<longleftrightarrow> db_sent st' = db_sent st \<and> replies st' = replies st \<and> usr st' = usr st"

definition same_desks :: "server \<Rightarrow> server \<Rightarrow> bool" where
  "same_desks st st' \<longleftrightarrow> (\<forall>v. dbID (usr st' v) = dbID (usr st v) \<and> userID (usr st' v) = userID (usr st v))"

definition outcome :: "ctx \<Rightarrow> server \<Rightarrow> (server \<Rightarrow> (int \<times> sql list) list \<Rightarrow> bool) \<Rightarrow> server \<Rightarrow> bool" where
  "outcome c st P st' \<longleftrightarrow> replies st' = replies st \<or>
     (same_desks st st' \<and>
      (\<exists>body D. replies st' = replies st @ [(c_sock c, ''WSR|'' @ c_tid c @ ''|'' @ c_cmd c @ ''|'' @ body)] \<and>
        db_sent st' = db_sent st @ D \<and> (if body = ''SUCC'' then P st' D else D = [])))"

named_theorems idle_intros "operations that send nothing"

lemma idle_steps [idle_intros]:
  "idle st st"
  "idle st st' \<Longrightarrow> idle st (log_userCmd e tid cmd uid sid file funds st')"
  "idle st st' \<Longrightarrow> idle st (log_accTrans e tid action uid funds st')"
  "idle st st' \<Longrightarrow> idle st (log_line l st')"
  "idle st st' \<Longrightarrow> idle st (snd (getmTS e st'))"
  "idle st st' \<Longrightarrow> idle st (ask_quote e c s st')"
  "idle st st' \<Longrightarrow> idle st (refresh_quote e c s st')"
  by (simp_all add: idle_def refresh_quote_def ask_quote_def getmTS_def upd_stock_def Let_def split_beta)

lemma idle_ensure: "idle st st' \<Longrightarrow> idle st (fst (ensureStock st' sid))"
  by (simp add: idle_def ensureStock_def addStock_def split_beta Let_def split: option.split)

text \<open>The ends of a handler.\<close>

named_theorems outcome_intros "the ends of a handler"

lemma outcome_fail [outcome_intros]: "idle st x \<Longrightarrow> outcome c st P (fail c k x)"
  by (simp add: outcome_def idle_def same_desks_def fail_def reply_def quickSend_def)

lemma outcome_reply:
  assumes "idle st x" "body \<noteq> ''SUCC''" "\<And>y. dbID (f y) = dbID y \<and> userID (f y) = userID y"
  shows "outcome c st P (reply c body (upd_user u f x))" "outcome c st P (reply c body x)"
  using assms by (simp_all add: outcome_def idle_def same_desks_def reply_def quickSend_def)

lemma outcome_crash [outcome_intros]: "idle st x \<Longrightarrow> outcome c st P (crash x)"
  by (simp add: outcome_def idle_def crash_def)

lemma outcome_succ:
  assumes "same_desks st x" "replies x = replies st" "db_sent x = db_sent st @ D" "P (succ c x) D"
  shows "outcome c st P (succ c x)"
  using assms by (simp add: outcome_def same_desks_def succ_def reply_def quickSend_def)

lemma outcome_if [outcome_intros]:
  "(b \<Longrightarrow> outcome c st P x) \<Longrightarrow> (\<not> b \<Longrightarrow> outcome c st P y) \<Longrightarrow> outcome c st P (if b then x else y)"
  by simp

lemma outcome_option [outcome_intros]:
  "(w = None \<Longrightarrow> outcome c st P x) \<Longrightarrow> (\<And>z. w = Some z \<Longrightarrow> outcome c st P (g z)) \<Longrightarrow>
   outcome c st P (case w of None \<Rightarrow> x | Some z \<Rightarrow> g z)"
  by (simp split: option.split)

lemma outcome_ensure [outcome_intros]:
  assumes "idle st st'" "\<And>x s. idle st x \<Longrightarrow> outcome c st P (g x s)"
  shows "outcome c st P (case ensureStock st' sid of (x, None) \<Rightarrow> crash x | (x, Some s) \<Rightarrow> g x s)"
  using idle_ensure [OF assms(1), of sid] assms(2) outcome_crash by (auto split: prod.split option.split)

text \<open>The updates in between keep the desk of every user.\<close>

lemma desk_updates:
  assumes "same_desks st x"
  shows "same_desks st (upd_user u (\<lambda>y. y\<lparr>balance := f y\<rparr>) x)" "same_desks st (upd_user u clear_pending x)"
    "same_desks st (fst (addTrigger x u tid s ty m p))" "same_desks st (removeTrigger x a)" "same_desks st (set_trig a p x)"
    "same_desks st (setUserStock x u s n)" "same_desks st (fst (addUserStock x u s n))"
    "same_desks st (log_accTrans e tid action uid funds x)" "same_desks st (db_write stmts db x)" "same_desks st (snd (getmTS e x))"
  using assms
  by (auto simp: same_desks_def clear_pending_def addTrigger_def removeTrigger_def set_trig_def setUserStock_def
      addUserStock_def put_trig_ring_def crash_def Let_def split_beta split: option.split)

lemma sent_updates [simp]:
  "db_sent (fst (addTrigger x u tid s ty m p)) = db_sent x" "replies (fst (addTrigger x u tid s ty m p)) = replies x"
  "db_sent (removeTrigger x a) = db_sent x" "replies (removeTrigger x a) = replies x"
  "db_sent (set_trig a p x) = db_sent x" "replies (set_trig a p x) = replies x"
  "db_sent (setUserStock x u s n) = db_sent x" "replies (setUserStock x u s n) = replies x"
  "db_sent (fst (addUserStock x u s n)) = db_sent x" "replies (fst (addUserStock x u s n)) = replies x"
  by (auto simp: addTrigger_def removeTrigger_def set_trig_def setUserStock_def addUserStock_def put_trig_ring_def
      crash_def Let_def split_beta split: option.split)

lemma idle_desks: "idle st x \<Longrightarrow> same_desks st x"
  by (simp add: idle_def same_desks_def)

section \<open>The commands\<close>

text \<open>A body that starts with a FAIL code or with details of an offer is not \<open>SUCC\<close>.\<close>

lemma not_succ: "''FAIL,'' @ x \<noteq> ''SUCC''" "''SUCC,'' @ x \<noteq> ''SUCC''" "''SUCC|'' @ x \<noteq> ''SUCC''"
  by simp_all

abbreviation none_sent :: "server \<Rightarrow> (int \<times> sql list) list \<Rightarrow> bool" where "none_sent x D \<equiv> D = []"

lemma outcome_none:
  "outcome c st none_sent (cmd_quote e c st)" "outcome c st none_sent (cmd_buy e c st)"
  "outcome c st none_sent (cmd_sell e c st)" "outcome c st none_sent (cmd_cancel_buy e c st)"
  "outcome c st none_sent (cmd_cancel_sell e c st)" "outcome c st none_sent (cmd_dumplog e c st)"
  "outcome c st none_sent (cmd_display_summary e c st)"
proof -
  have s: "outcome c st none_sent (succ c x)" if "idle st x" for x
    using that by (intro outcome_succ [where D = "[]"] idle_desks) (simp_all add: idle_def)
  have cl: "outcome c st none_sent (succ c (upd_user u clear_pending x))" if "idle st x" for x u
    using that by (intro outcome_succ [where D = "[]"] desk_updates idle_desks) (simp_all add: idle_def)
  note r = outcome_reply(2) [where f = id, simplified]
  show "outcome c st none_sent (cmd_quote e c st)"
    unfolding cmd_quote_def Let_def by (intro outcome_intros idle_intros r not_succ) (simp add: idle_intros)
  show "outcome c st none_sent (cmd_buy e c st)"
    unfolding cmd_buy_def Let_def by (intro outcome_intros idle_intros outcome_reply(1) r not_succ; (assumption | simp))
  show "outcome c st none_sent (cmd_sell e c st)"
    unfolding cmd_sell_def Let_def by (intro outcome_intros idle_intros outcome_reply(1) not_succ; (assumption | simp))
  show "outcome c st none_sent (cmd_cancel_buy e c st)" "outcome c st none_sent (cmd_cancel_sell e c st)"
    unfolding cmd_cancel_buy_def cmd_cancel_sell_def Let_def by (intro outcome_intros idle_intros cl)+
  show "outcome c st none_sent (cmd_dumplog e c st)"
    unfolding cmd_dumplog_def Let_def by (intro outcome_intros idle_intros s)
  show "outcome c st none_sent (cmd_display_summary e c st)"
    unfolding cmd_display_summary_def Let_def by (auto split: option.split intro!: outcome_crash idle_intros r)
qed

text \<open>The commands that write: one request, to the user's database.\<close>

definition sends :: "ctx \<Rightarrow> server \<Rightarrow> (string \<Rightarrow> sql list \<Rightarrow> bool) \<Rightarrow> server \<Rightarrow> (int \<times> sql list) list \<Rightarrow> bool" where
  "sends c st Q st' D \<longleftrightarrow> (\<exists>stmts. D = [(dbID (cuser c st), stmts)] \<and> Q (price2str (balance (cuser c st'))) stmts)"

lemma outcome_written:
  assumes "same_desks st x" "replies x = replies st" "db_sent x = db_sent st" "Q (price2str (balance (cuser c x))) stmts"
  shows "outcome c st (sends c st Q) (succ c (db_write stmts (dbID (cuser c x)) x))"
  using assms
  by (intro outcome_succ [where D = "[(dbID (cuser c x), stmts)]"] desk_updates)
    (simp_all add: sends_def db_write_def same_desks_def)

lemma outcome_written_clear:
  assumes "same_desks st x" "replies x = replies st" "db_sent x = db_sent st" "Q (price2str (balance (cuser c x))) stmts"
  shows "outcome c st (sends c st Q) (succ c (upd_user (c_user c) clear_pending (db_write stmts (dbID (cuser c x)) x)))"
  using assms
  by (intro outcome_succ [where D = "[(dbID (cuser c x), stmts)]"] desk_updates)
    (simp_all add: sends_def db_write_def same_desks_def clear_pending_def)

lemma balance_trees [simp]:
  "balance (usr (fst (addTrigger x u tid s ty m p)) v) = balance (usr x v)"
  "balance (usr (removeTrigger x a) v) = balance (usr x v)" "usr (set_trig a q x) = usr x"
  "balance (usr (setUserStock x u s n) v) = balance (usr x v)"
  "balance (usr (fst (addUserStock x u s n)) v) = balance (usr x v)"
  by (auto simp: addTrigger_def removeTrigger_def set_trig_def setUserStock_def addUserStock_def put_trig_ring_def
      crash_def Let_def split_beta split: option.split)

lemmas outcome_rules = outcome_intros idle_intros outcome_written desk_updates idle_desks

lemma outcome_add:
  "outcome c st (sends c st (\<lambda>b q. \<exists>now. q = [UpdateBal b (cuid c st),
      InsertTran (cuid c st) (c_tid c) ''...'' (sarg c 0) now (CHR ''a'')])) (cmd_add e c st)"
  unfolding cmd_add_def Let_def split_beta by (intro outcome_rules; auto simp: same_desks_def)

lemma outcome_set_buy_amount:
  "outcome c st (sends c st (\<lambda>b q. q = [UpdateBal b (cuid c st),
      InsertTrig (cuid c st) (c_tid c) (sarg c 0) (CHR ''b'') (sarg c 1) ''0.00''])) (cmd_set_buy_amount e c st)"
  unfolding cmd_set_buy_amount_def Let_def by (intro outcome_rules; assumption?) (auto simp: idle_def)

lemma outcome_set_sell_amount:
  "outcome c st (sends c st (\<lambda>b q. q = [InsertTrig (cuid c st) (c_tid c) (sarg c 0) (CHR ''s'') (sarg c 1) ''0.00'']))
     (cmd_set_sell_amount e c st)"
  unfolding cmd_set_sell_amount_def Let_def by (intro outcome_rules; assumption?) (auto simp: idle_def)

lemma outcome_set_trigger:
  "outcome c st (sends c st (\<lambda>b q. q = [UpdateTrig (sarg c 1) (cuid c st) (sarg c 0) (CHR ''b'')])) (cmd_set_buy_trigger e c st)"
  "outcome c st (sends c st (\<lambda>b q. q = [UpdateTrig (sarg c 1) (cuid c st) (sarg c 0) (CHR ''s'')])) (cmd_set_sell_trigger e c st)"
  unfolding cmd_set_buy_trigger_def cmd_set_sell_trigger_def Let_def
  by (intro outcome_rules; assumption?; auto simp: idle_def)+

lemma outcome_cancel_set:
  "outcome c st (sends c st (\<lambda>b q. q = [UpdateBal b (cuid c st), DeleteTrig (cuid c st) (sarg c 0) (CHR ''b'')])) (cmd_cancel_set_buy e c st)"
  "outcome c st (sends c st (\<lambda>b q. q = [DeleteTrig (cuid c st) (sarg c 0) (CHR ''s'')])) (cmd_cancel_set_sell e c st)"
  unfolding cmd_cancel_set_buy_def cmd_cancel_set_sell_def Let_def
  by (intro outcome_rules; assumption?; auto simp: idle_def)+

text \<open>The commits, for the pending stock \<open>s\<close>.\<close>

definition commit_buy_sends :: "ctx \<Rightarrow> server \<Rightarrow> addr \<Rightarrow> string \<Rightarrow> sql list \<Rightarrow> bool" where
  "commit_buy_sends c st s b q \<longleftrightarrow>
     (\<exists>now. q = [case getUserStock st (c_user c) s of
           None \<Rightarrow> InsertStk (cuid c st) (stockID (stk st s)) (no (cuser c st))
         | Some us \<Rightarrow> UpdateStk (s64 (num us + no (cuser c st))) (cuid c st) (stockID (stk st s)),
       UpdateBal b (cuid c st),
       InsertTran (cuid c st) (c_tid c) (stockID (stk st s)) (price2str (reserve (cuser c st))) now (CHR ''b'')])"

lemma outcome_commit_buy:
  assumes ok: "server_ok st" and u: "c_user c < u_fresh st" and s: "stockObj (cuser c st) = Some s" "s < s_fresh st"
  shows "outcome c st (sends c st (commit_buy_sends c st s)) (cmd_commit_buy e c st)"
proof -
  define x where "x = snd (getmTS e (log_userCmd e (c_tid c) (c_cmd c) (cuid c st) spc spc spc st))"
  have i: "idle st x" unfolding x_def by (intro idle_intros)
  have x: "usr x = usr st" "stk x = stk st" "s_fresh x = s_fresh st" "u_fresh x = u_fresh st" by (simp_all add: x_def)
  have t: "turns st (c_user c) (account_of st (c_user c)) x" unfolding x_def by (rule turns_intros turns_start ok u)+
  define x1 where "x1 = upd_user (c_user c) (\<lambda>y. y\<lparr>balance := s64 (balance y - reserve y)\<rparr>) x"
  have t1: "server_ok x1" using turnsD(1) [OF turns_balance' [OF t u, of "\<lambda>y. s64 (balance y - reserve y)"]] by (simp add: x1_def)
  have x1: "same_desks st x1" "replies x1 = replies st" "db_sent x1 = db_sent st" "stk x1 = stk st"
      "getUserStock x1 (c_user c) s = getUserStock st (c_user c) s" "no (cuser c x1) = no (cuser c st)"
      "c_user c < u_fresh x1" "s < s_fresh x1"
    using i x u s by (auto simp: x1_def idle_def getUserStock_def same_desks_def)
  have "outcome c st (sends c st (commit_buy_sends c st s)) (commit_buy_body e c s x)"
  proof (cases "getUserStock st (c_user c) s")
    case None
    obtain y where y: "addUserStock x1 (c_user c) s (no (cuser c st)) = (y, Some \<lparr>num = no (cuser c st), us_stock = s\<rparr>)"
      using turns_hold_new [OF t1 x1(7,8), of "no (cuser c st)"] None x1(5) by auto
    then have y': "y = fst (addUserStock x1 (c_user c) s (no (cuser c st)))" by simp
    show ?thesis
      unfolding commit_buy_body_def Let_def x1_def [symmetric] x1(4-6) None option.case y prod.case
      unfolding split_beta y' x(1)
      using x1(1-3) None by (intro outcome_written_clear desk_updates; simp add: commit_buy_sends_def x1_def)
  next
    case (Some us)
    show ?thesis
      unfolding commit_buy_body_def Let_def x1_def [symmetric] x1(4-6) Some option.case prod.case
      unfolding split_beta x(1)
      using x1(1-3) Some by (intro outcome_written_clear desk_updates; simp add: commit_buy_sends_def x1_def)
  qed
  moreover have "outcome c st P (fail c k (upd_user (c_user c) clear_pending x))" for P k
    using outcome_reply(1) [OF i not_succ(1), of clear_pending] by (simp add: fail_def clear_pending_def)
  moreover have "outcome c st P (fail c k (log_userCmd e (c_tid c) (c_cmd c) (cuid c st) spc spc spc st))" for P k
    by (intro outcome_intros idle_intros)
  ultimately show ?thesis
    using s(1) by (simp add: cmd_commit_buy_def Let_def split_beta x_def [symmetric] x(1))
qed

definition commit_sell_sends :: "ctx \<Rightarrow> server \<Rightarrow> addr \<Rightarrow> string \<Rightarrow> sql list \<Rightarrow> bool" where
  "commit_sell_sends c st s b q \<longleftrightarrow>
     (\<exists>now us. getUserStock st (c_user c) s = Some us \<and>
       q = [UpdateBal b (cuid c st), UpdateStk (s64 (num us - no (cuser c st))) (cuid c st) (stockID (stk st s)),
         InsertTran (cuid c st) (c_tid c) (stockID (stk st s)) (price2str (reserve (cuser c st))) now (CHR ''s'')])"

lemma outcome_commit_sell:
  assumes s: "stockObj (cuser c st) = Some s"
  shows "outcome c st (sends c st (commit_sell_sends c st s)) (cmd_commit_sell e c st)"
proof -
  define w where "w = log_userCmd e (c_tid c) (c_cmd c) (cuid c st) spc spc spc st"
  define x where "x = snd (getmTS e w)"
  have i: "idle st x" unfolding x_def w_def by (intro idle_intros)
  have x: "usr x = usr st" "stk x = stk st" "usr w = usr st" "getUserStock x (c_user c) s = getUserStock st (c_user c) s"
    by (simp_all add: x_def w_def getUserStock_def)
  have "outcome c st (sends c st (commit_sell_sends c st s)) (commit_sell_body e c s us x)"
    if "getUserStock st (c_user c) s = Some us" for us
    unfolding commit_sell_body_def Let_def split_beta x(1,2)
    using i that by (intro outcome_written_clear desk_updates idle_desks; simp add: commit_sell_sends_def idle_def x(1,2))
  moreover have "outcome c st P (fail c k (upd_user (c_user c) clear_pending x))" for P k
    using outcome_reply(1) [OF i not_succ(1), of clear_pending] by (simp add: fail_def clear_pending_def)
  moreover have "outcome c st P (fail c k x)" "outcome c st P (fail c k w)" for P k
    unfolding x_def w_def by (intro outcome_intros idle_intros)+
  ultimately show ?thesis
    using s by (simp add: cmd_commit_sell_def Let_def split_beta w_def [symmetric] x_def [symmetric] x split: option.split)
qed

end
