(* ===== verification/Ledger.thy ===== *)
theory Ledger
  imports Mirror
begin

text \<open>
  From the statements a command sends to the rows of the databases: executed in order, they make the
  rows of the command's user its new account (\<open>follows_exec\<close>).
\<close>

section \<open>Statements that file a change\<close>

text \<open>The orders are for stocks of a list \<open>S\<close> none of which shadows another (see \<open>loses\<close>).\<close>

definition apart :: "string list \<Rightarrow> bool" where
  "apart S \<longleftrightarrow> list_all (\<lambda>s. list_all (\<lambda>t. s = t \<or> \<not> shadowed s t) S) S"

definition filed :: "string list \<Rightarrow> tables \<Rightarrow> string \<Rightarrow> account \<Rightarrow> bool" where
  "filed S tb uid a \<longleftrightarrow> mirrors tb uid a \<and> (\<forall>k. a_order a k \<noteq> None \<longrightarrow> snd k \<in> set S)"

definition files :: "string list \<Rightarrow> string \<Rightarrow> account \<Rightarrow> sql list \<Rightarrow> account \<Rightarrow> bool" where
  "files S uid a stmts a' \<longleftrightarrow> (\<forall>tb. filed S tb uid a \<longrightarrow>
     list_all accepts stmts \<and> list_all (\<lambda>q. sql_user q = uid) stmts \<and> filed S (fold run_sql stmts tb) uid a')"

named_theorems files_intros "statements that file a change of an account"

lemma files_Nil: "files S uid a [] a" "files S uid a [] (a\<lparr>a_pend := p\<rparr>)"
  by (simp_all add: files_def filed_def)

lemma files_done: "a_bal a' = a_bal a \<Longrightarrow> a_held a' = a_held a \<Longrightarrow> a_order a' = a_order a \<Longrightarrow> files S uid a [] a'"
  by (simp add: files_def filed_def mirrors_def)

lemma files_Cons:
  assumes "accepts q" "sql_user q = uid" "\<And>tb. filed S tb uid a \<Longrightarrow> filed S (run_sql q tb) uid b" "files S uid b qs a'"
  shows "files S uid a (q # qs) a'"
  using assms(1,2,4) assms(3) by (fastforce simp: files_def)

lemma files_balance [files_intros]:
  assumes "files S uid (a\<lparr>a_bal := b\<rparr>) qs a'" "char_col 10 uid" "0 \<le> b" "b < 10 ^ 15"
  shows "files S uid a (UpdateBal (price2str b) uid # qs) a'"
  by (rule files_Cons [OF _ _ _ assms(1)])
    (use assms(2) decimal_price2str [OF assms(3,4)] mirrors_balance [of _ uid a "price2str b"] in \<open>auto simp: filed_def decimal_def\<close>)

lemma files_tran [files_intros]:
  assumes "files S uid a qs a'" "char_col 10 uid" "bigint tid" "char_col 3 sid" "numeric adj"
  shows "files S uid a (InsertTran uid tid sid adj t ty # qs) a'"
  by (rule files_Cons [OF _ _ _ assms(1)])
    (use assms(2-) in \<open>simp_all add: filed_def mirrors_def\<close>)

lemma files_shares [files_intros]:
  assumes "files S uid (a\<lparr>a_held := (a_held a)(sid \<mapsto> n)\<rparr>) qs a'" "char_col 10 uid" "char_col 3 sid" "int_col n"
  shows "a_held a sid = None \<Longrightarrow> files S uid a (InsertStk uid sid n # qs) a'"
    "a_held a sid \<noteq> None \<Longrightarrow> files S uid a (UpdateStk n uid sid # qs) a'"
  by (rule files_Cons [OF _ _ _ assms(1)]; use assms(2-4) mirrors_shares in \<open>auto simp: filed_def\<close>)+

lemma files_order [files_intros]:
  assumes "char_col 10 uid" "char_col 3 sid"
  shows "files S uid (a\<lparr>a_order := (a_order a)((ty, sid) \<mapsto> (cents res, cents val))\<rparr>) qs a' \<Longrightarrow>
      a_order a (ty, sid) = None \<Longrightarrow> sid \<in> set S \<Longrightarrow> bigint tid \<Longrightarrow> numeric res \<Longrightarrow> numeric val \<Longrightarrow>
      files S uid a (InsertTrig uid tid sid ty res val # qs) a'"
    "files S uid (a\<lparr>a_order := (a_order a)((ty, sid) \<mapsto> (m, cents val))\<rparr>) qs a' \<Longrightarrow>
      a_order a (ty, sid) = Some (m, p) \<Longrightarrow> numeric val \<Longrightarrow>
      files S uid a (UpdateTrig val uid sid ty # qs) a'"
    "files S uid (a\<lparr>a_order := (a_order a)((ty, sid) := None)\<rparr>) qs a' \<Longrightarrow>
      files S uid a (DeleteTrig uid sid ty # qs) a'"
proof -
  show "files S uid a (InsertTrig uid tid sid ty res val # qs) a'"
    if "files S uid (a\<lparr>a_order := (a_order a)((ty, sid) \<mapsto> (cents res, cents val))\<rparr>) qs a'"
      "a_order a (ty, sid) = None" "sid \<in> set S" "bigint tid" "numeric res" "numeric val"
    by (rule files_Cons [OF _ _ _ that(1)]) (use that(2-) assms mirrors_orders(1) in \<open>auto simp: filed_def\<close>)
  show "files S uid a (UpdateTrig val uid sid ty # qs) a'"
    if "files S uid (a\<lparr>a_order := (a_order a)((ty, sid) \<mapsto> (m, cents val))\<rparr>) qs a'"
      "a_order a (ty, sid) = Some (m, p)" "numeric val"
  proof (rule files_Cons [OF _ _ _ that(1)])
    fix tb assume "filed S tb uid a"
    moreover have "sid \<in> set S" using \<open>filed S tb uid a\<close> that(2) unfolding filed_def by (metis option.distinct(1) snd_conv)
    ultimately show "filed S (run_sql (UpdateTrig val uid sid ty) tb) uid (a\<lparr>a_order := (a_order a)((ty, sid) \<mapsto> (m, cents val))\<rparr>)"
      using mirrors_orders(2) [OF _ that(2)] by (simp add: filed_def)
  qed (use that assms in simp_all)
  show "files S uid a (DeleteTrig uid sid ty # qs) a'"
    if "files S uid (a\<lparr>a_order := (a_order a)((ty, sid) := None)\<rparr>) qs a'"
    by (rule files_Cons [OF _ _ _ that]) (use assms mirrors_orders(3) in \<open>auto simp: filed_def\<close>)
qed

section \<open>One command\<close>

text \<open>The rows of all users, each in its database; the users the server does not know have none.\<close>

definition stranger :: "server \<Rightarrow> string \<Rightarrow> bool" where
  "stranger st uid \<longleftrightarrow> (\<forall>u < u_fresh st. userID (usr st u) \<noteq> uid)"

definition ledger :: "string list \<Rightarrow> (int \<Rightarrow> tables) \<Rightarrow> server \<Rightarrow> bool" where
  "ledger S dbs st \<longleftrightarrow>
     (\<forall>u < u_fresh st. length (userID (usr st u)) \<le> 10 \<and> filed S (dbs (dbID (usr st u))) (userID (usr st u)) (account_of st u)) \<and>
     (\<forall>uid db. stranger st uid \<longrightarrow> absent (dbs db) uid)"

definition follows :: "string list \<Rightarrow> server \<Rightarrow> server \<Rightarrow> bool" where
  "follows S st st' \<longleftrightarrow> (\<exists>D. db_sent st' = db_sent st @ D \<and>
     (\<forall>dbs. ledger S dbs st \<longrightarrow> (\<exists>dbs'. run_requests D dbs = Some dbs' \<and> ledger S dbs' st')))"

lemma userID_distinct:
  assumes "server_ok st" "u < u_fresh st" "v < u_fresh st" "userID (usr st u) = userID (usr st v)"
  shows "u = v"
  using assms by (simp add: server_ok_def users_ok_def uids_def) (metis option.inject)

lemma key_columns:
  "server_ok st \<Longrightarrow> u < u_fresh st \<Longrightarrow> ledger S dbs st \<Longrightarrow> char_col 10 (userID (usr st u))"
  "validStockID (Some s) \<Longrightarrow> char_col 3 s"
proof -
  have n: "\<not> valid_user_char (CHR 0x27)" by code_simp
  then show "char_col 10 (userID (usr st u))" if "server_ok st" "u < u_fresh st" "ledger S dbs st"
    using that by (auto simp: server_ok_def users_ok_def uids_def user_key_def char_col_def ledger_def)
  show "char_col 3 s" if "validStockID (Some s)"
    using that n valid_stock_char_user by (auto simp: validStockID_def char_col_def list_all_iff split: if_splits)
qed

text \<open>The account of one user becomes \<open>a\<close>, whatever made it so.\<close>

definition moves :: "server \<Rightarrow> addr \<Rightarrow> account \<Rightarrow> server \<Rightarrow> bool" where
  "moves st u a st' \<longleftrightarrow> u_fresh st' = u_fresh st \<and> account_of st' u = a \<and>
     (\<forall>v < u_fresh st. v \<noteq> u \<longrightarrow> account_of st' v = account_of st v) \<and> same_desks st st'"

lemma does_moves: "does c st r st' \<Longrightarrow> same_desks st st' \<Longrightarrow> moves st (c_user c) (fst r) st'"
  by (simp add: does_def moves_def)

lemma ledger_file:
  assumes l: "ledger S dbs st" and ok: "server_ok st" and m: "moves st u a' st'"
    and u: "u < u_fresh st" and f: "files S (userID (usr st u)) (account_of st u) stmts a'"
  shows "list_all accepts stmts \<and>
    ledger S (dbs(dbID (usr st u) := fold run_sql stmts (dbs (dbID (usr st u))))) st'"
proof -
  let ?db = "dbID (usr st u)" and ?uid = "userID (usr st u)"
  let ?tb = "dbs ?db" and ?dbs = "dbs(dbID (usr st u) := fold run_sql stmts (dbs (dbID (usr st u))))"
  have desks: "same_desks st st'" using m by (simp add: moves_def)
  have own: "filed S ?tb ?uid (account_of st u)" using l u by (simp add: ledger_def)
  with f have f': "list_all accepts stmts" "list_all (\<lambda>q. sql_user q = ?uid) stmts"
      "filed S (fold run_sql stmts ?tb) ?uid a'" by (simp_all add: files_def)
  have "length (userID (usr st' v)) \<le> 10 \<and> filed S (?dbs (dbID (usr st' v))) (userID (usr st' v)) (account_of st' v)"
    if v: "v < u_fresh st" for v
  proof (cases "v = u")
    case True
    then show ?thesis using f'(3) m desks l u unfolding ledger_def by (simp add: moves_def same_desks_def)
  next
    case False
    then have "userID (usr st v) \<noteq> ?uid" using userID_distinct [OF ok v u] by blast
    then have "mirrors (?dbs i) (userID (usr st v)) a = mirrors (dbs i) (userID (usr st v)) a" for i a
      using mirrors_other(1) [OF f'(2)] by (cases "i = ?db") simp_all
    moreover have "length (userID (usr st v)) \<le> 10 \<and> filed S (dbs (dbID (usr st v))) (userID (usr st v)) (account_of st v)"
      using l v by (simp add: ledger_def)
    moreover have "account_of st' v = account_of st v" using m False v by (simp add: moves_def)
    ultimately show ?thesis using desks by (simp only: same_desks_def filed_def simp_thms) blast
  qed
  moreover have "absent (?dbs db) uid" if s: "stranger st' uid" for uid db
  proof -
    have "uid \<noteq> ?uid" "stranger st uid"
      using s m desks u by (auto simp: stranger_def moves_def same_desks_def)
    moreover have "\<And>tb. absent (fold run_sql stmts tb) uid = absent tb uid"
      using mirrors_other(2) [OF f'(2)] \<open>uid \<noteq> ?uid\<close> by blast
    ultimately show ?thesis using l by (simp add: ledger_def)
  qed
  moreover have "u_fresh st' = u_fresh st" using m by (simp add: moves_def)
  ultimately show ?thesis using f'(1) unfolding ledger_def by (simp only:) blast
qed

lemma follows_moves:
  assumes ok: "server_ok st" and u: "u < u_fresh st" and m: "moves st u a' st'"
    and f: "files S (userID (usr st u)) (account_of st u) stmts a'"
    and D: "db_sent st' = db_sent st @ [(dbID (usr st u), stmts)] \<or> db_sent st' = db_sent st \<and> stmts = []"
  shows "follows S st st'"
  using D
proof
  assume "db_sent st' = db_sent st @ [(dbID (usr st u), stmts)]"
  then show ?thesis using ledger_file [OF _ ok m u f] unfolding follows_def
    by (intro exI [of _ "[(dbID (usr st u), stmts)]"]) (simp add: run_request_def)
next
  assume "db_sent st' = db_sent st \<and> stmts = []"
  then show ?thesis using ledger_file [OF _ ok m u f] unfolding follows_def
    by (intro exI [of _ "[]"]) simp
qed

lemma follows_does:
  assumes ok: "server_ok st" and u: "c_user c < u_fresh st" and d: "does c st r st'"
    and o: "outcome c st (sends c st Q) st'"
    and s: "\<And>stmts. snd r = ''SUCC'' \<Longrightarrow> Q (price2str (a_bal (fst r))) stmts \<Longrightarrow>
      files S (cuid c st) (account_of st (c_user c)) stmts (fst r)"
    and n: "snd r \<noteq> ''SUCC'' \<Longrightarrow> files S (cuid c st) (account_of st (c_user c)) [] (fst r)"
  shows "follows S st st'"
proof -
  have b: "a_bal (fst r) = balance (cuser c st')" using d account_sel(1) [of st' "c_user c"] by (simp add: does_def)
  obtain D where D: "same_desks st st'" "db_sent st' = db_sent st @ D" "if snd r = ''SUCC'' then sends c st Q st' D else D = []"
    using o d by (auto simp: outcome_def does_def)
  note f = follows_moves [OF ok u does_moves [OF d D(1)]]
  show ?thesis
  proof (cases "snd r = ''SUCC''")
    case True
    then obtain stmts where "D = [(dbID (cuser c st), stmts)]" "Q (price2str (a_bal (fst r))) stmts"
      using D(3) b by (auto simp: sends_def)
    then show ?thesis using f [OF s [OF True]] D(2) by simp
  next
    case False
    then show ?thesis using f [OF n [OF False]] D(2,3) by simp
  qed
qed

lemma follows_quiet:
  assumes ok: "server_ok st" and u: "c_user c < u_fresh st" and d: "does c st r st'"
    and o: "outcome c st none_sent st'" and n: "files S (cuid c st) (account_of st (c_user c)) [] (fst r)"
  shows "follows S st st'"
proof -
  have "same_desks st st' \<and> db_sent st' = db_sent st" using o d by (auto simp: outcome_def does_def split: if_splits)
  then show ?thesis using follows_moves [OF ok u does_moves [OF d] n] by simp
qed

section \<open>Every command\<close>

text \<open>The numbers fit the columns: cents in \<open>numeric(15,2)\<close>, shares in \<open>integer\<close>.\<close>

definition narrow :: "int \<Rightarrow> nat \<Rightarrow> bool" where
  "narrow K n \<longleftrightarrow> cap K n < 2 ^ 31"

lemma narrow_roomy: "narrow K n \<Longrightarrow> roomy K n"
  by (simp add: narrow_def roomy_def)

lemma balance_range:
  assumes "small K n a" "0 \<le> K" "narrow K n"
  shows "0 \<le> a_bal a" "a_bal a < 10 ^ 15"
proof -
  show "0 \<le> a_bal a" using smallD(1) [OF assms(1)] by (simp add: sound_def)
  have "a_bal a < 2 ^ 31" using smallD(2) [OF assms(1)] assms(3) by (simp add: narrow_def)
  then show "a_bal a < 10 ^ 15" by simp
qed

lemma held_range:
  assumes "small K n a" "narrow K n" "a_held a sid = Some k"
  shows "int_col k"
proof -
  have "k < 2 ^ 31" using smallD(3) [OF assms(1,3)] assms(2) by (simp add: narrow_def)
  moreover have "0 \<le> k" using smallD(1) [OF assms(1)] assms(3) unfolding sound_def by blast
  ultimately show ?thesis by (simp add: int_col_def)
qed

lemma pending_cash:
  assumes "small K n a" "0 \<le> K" "narrow K (Suc n)" "a_pend a = Some (Pending sd sid k cash t)"
  shows "numeric (price2str cash)"
proof -
  have "0 \<le> cash" using smallD(1) [OF assms(1)] assms(4) by (cases sd) (simp_all add: sound_def)
  moreover have "cash \<le> cap K (Suc n)" using smallD(6) [OF assms(1,4)] cap_nonneg [OF assms(2), of n] unfolding cap_Suc by linarith
  then have "cash < 10 ^ 15" using assms(3) by (simp add: narrow_def)
  ultimately show ?thesis using decimal_price2str(1) by (simp add: decimal_def)
qed

lemma follows_fail:
  assumes "server_ok st" "c_user c < u_fresh st"
  shows "follows S st (fail c k st)"
proof -
  have "does c st (account_of st (c_user c), refuse k) (fail c k st)"
    by (rule does_fail [OF turns_start [OF assms(1)]]) simp_all
  then show ?thesis
    by (rule follows_quiet [OF assms]) (simp_all add: outcome_fail idle_steps(1) files_Nil)
qed

text \<open>The numbers a client sends to be filed are numbers for the database as well.\<close>

definition files_number :: "ctx \<Rightarrow> bool" where
  "files_number c \<longleftrightarrow> c_cmd c \<in> {''ADD'', ''SET_BUY_AMOUNT'', ''SET_SELL_AMOUNT'', ''SET_BUY_TRIGGER'', ''SET_SELL_TRIGGER''}"

definition names_order :: "ctx \<Rightarrow> bool" where
  "names_order c \<longleftrightarrow> c_cmd c \<in> {''SET_BUY_AMOUNT'', ''SET_SELL_AMOUNT'', ''CANCEL_SET_BUY'', ''CANCEL_SET_SELL''}"

definition fits_columns :: "string list \<Rightarrow> ctx \<Rightarrow> bool" where
  "fits_columns S c \<longleftrightarrow> bigint (c_tid c) \<and> (names_order c \<longrightarrow> sarg c 0 \<in> set S) \<and>
     (files_number c \<longrightarrow> decimal (sarg c (if c_cmd c = ''ADD'' then 0 else 1)))"

lemma refuse_not_succ [simp]: "refuse k \<noteq> ''SUCC''"
  by (simp add: refuse_def)

lemma sarg_price: "decimal (sarg c i) \<Longrightarrow> str2price (arg c i) \<noteq> - 1 \<Longrightarrow> str2price (arg c i) = cents (sarg c i)"
  using decimal_price [of "sarg c i"] by (cases "arg c i") (simp_all add: str2price_def sarg_def)

lemma sarg_column: "validStockID (arg c i) \<Longrightarrow> char_col 3 (sarg c i)"
  using key_columns(2) by (cases "arg c i") (simp_all add: validStockID_def sarg_def)

lemma follows_add:
  assumes b: "books e K U n st" and u: "c_user c < U" and r: "narrow K (Suc n)" and id: "char_col 10 (cuid c st)"
    and m: "- 1 \<le> str2price (arg c 0)" "str2price (arg c 0) \<le> K" and p: "bigint (c_tid c)" "decimal (sarg c 0)"
  shows "follows S st (cmd_add e c st)"
proof (cases "str2price (arg c 0) = - 1")
  case True
  then show ?thesis using follows_fail [OF booksD(1) [OF b] books_user(1) [OF b u]] by (simp only: refusals)
next
  case False
  then have m0: "0 \<le> str2price (arg c 0)" using m(1) by simp
  note w = books_user [OF b u] and d = booksD [OF b]
  note rg = balance_range [OF small_add [OF w(4) m0 m(2)] d(3) r]
  show ?thesis
  proof (rule follows_does [OF d(1) w(1) did_add [OF b u narrow_roomy [OF r] m0 m(2)] outcome_add])
    fix stmts
    assume "\<exists>now. stmts = [UpdateBal (price2str (a_bal (fst (add_spec (str2price (arg c 0)) (account_of st (c_user c)))))) (cuid c st),
        InsertTran (cuid c st) (c_tid c) ''...'' (sarg c 0) now (CHR ''a'')]"
    moreover have "char_col 3 ''...''" by code_simp
    ultimately show "files S (cuid c st) (account_of st (c_user c)) stmts (fst (add_spec (str2price (arg c 0)) (account_of st (c_user c))))"
      using rg p id by (auto simp: add_spec_def decimal_def intro!: files_intros files_Nil)
  qed (simp add: add_spec_def)
qed

text \<open>The commands that file nothing leave the rows as they are; a pending buy or sell is not filed.\<close>

lemma files_pending:
  "files S uid a [] (fst (buy_spec sid m p t a))" "files S uid a [] (fst (sell_spec sid m p t a))"
  "files S uid a [] (fst (cancel_spec sd a))"
  by (auto simp: buy_spec_def sell_spec_def cancel_spec_def Let_def files_Nil)

lemma follows_trade:
  assumes b: "books e K U n st" and u: "c_user c < U" and r: "narrow K (Suc n)"
    and m: "- 1 \<le> str2price (arg c 1)" "str2price (arg c 1) \<le> K"
  shows "follows S st (cmd_buy e c st)" "follows S st (cmd_sell e c st)"
proof -
  note w = books_user [OF b u] and d = booksD [OF b]
  note q = follows_quiet [OF d(1) w(1)] and f = follows_fail [OF d(1) w(1)]
  have "follows S st (cmd_buy e c st) \<and> follows S st (cmd_sell e c st)"
  proof (cases "validStockID (arg c 0) \<and> str2price (arg c 1) \<noteq> - 1")
    case False
    then have "\<exists>k. cmd_buy e c st = fail c k st" "\<exists>k. cmd_sell e c st = fail c k st"
      using refusals(1,2,11,12) by metis+
    then show ?thesis using f by metis
  next
    case True
    then have m0: "0 \<le> str2price (arg c 1)" using m(1) by simp
    from q [OF did_buy [OF b u narrow_roomy [OF r] conjunct1 [OF True] m0 m(2)] outcome_none(2) files_pending(1)]
      did_sell [OF b u narrow_roomy [OF r] conjunct1 [OF True] m0 m(2)] q [OF _ outcome_none(3) files_pending(2)]
    show ?thesis by blast
  qed
  then show "follows S st (cmd_buy e c st)" "follows S st (cmd_sell e c st)" by simp_all
qed

lemma follows_unfiled:
  assumes b: "books e K U n st" and u: "c_user c < U"
  shows "follows S st (cmd_cancel_buy e c st)" "follows S st (cmd_cancel_sell e c st)" "follows S st (cmd_quote e c st)"
    "follows S st (cmd_dumplog e c st)" "follows S st (cmd_display_summary e c st)" "follows S st (cmd_bad c st)"
proof -
  note w = books_user [OF b u] and d = booksD [OF b]
  note q = follows_quiet [OF d(1) w(1)]
  show "follows S st (cmd_cancel_buy e c st)" "follows S st (cmd_cancel_sell e c st)"
    by (rule q [OF cancel_buy_refines [OF d(1) w(1)] outcome_none(4) files_pending(3)],
        rule q [OF cancel_sell_refines [OF d(1) w(1)] outcome_none(5) files_pending(3)])
  have q': "follows S st st'"
    if "\<exists>body. does c st (account_of st (c_user c), body) st'" "outcome c st none_sent st'" for st'
    using that q files_Nil(1) by (metis fst_conv)
  show "follows S st (cmd_quote e c st)" "follows S st (cmd_dumplog e c st)" "follows S st (cmd_display_summary e c st)"
    using did_others [OF b u] by (blast intro: q' outcome_none)+
  have "db_sent (cmd_bad c st) = db_sent st" "u_fresh (cmd_bad c st) = u_fresh st" "usr (cmd_bad c st) = usr st"
    by (simp_all add: cmd_bad_def)
  then show "follows S st (cmd_bad c st)" by (auto simp: follows_def ledger_def stranger_def bad_account)
qed

text \<open>The commits write what the account of a user with this pending stock becomes.\<close>

lemma pending_stock:
  assumes "server_ok st" "u < u_fresh st" "buysell (usr st u) \<noteq> 0"
  obtains s where "stockObj (usr st u) = Some s" "s < s_fresh st" "validStockID (Some (stockID (stk st s)))"
    "a_pend (account_of st u) = Some (Pending (if buysell (usr st u) = 1 then Buying else Selling) (stockID (stk st s))
      (no (usr st u)) (reserve (usr st u)) (prompt_time (usr st u)))"
    "a_held (account_of st u) (stockID (stk st s)) = map_option num (getUserStock st u s)"
proof -
  obtain s where s: "stockObj (usr st u) = Some s" "s < s_fresh st"
    using assms(3) ok_user_wf [OF assms(1,2)] by (auto simp: user_wf_def)
  with that [OF s] assms(3) getStock_known [OF assms(1) s(2)] holding_known [OF assms(1) s(2) refl, of u]
  show thesis by (simp add: pending_of_def)
qed

lemma files_commit:
  "snd (commit_buy_spec now a) \<noteq> ''SUCC'' \<Longrightarrow> files S uid a [] (fst (commit_buy_spec now a))"
  "snd (commit_sell_spec now a) \<noteq> ''SUCC'' \<Longrightarrow> files S uid a [] (fst (commit_sell_spec now a))"
  by (auto simp: commit_buy_spec_def commit_sell_spec_def files_Nil
      split: option.splits pending.splits side.splits if_splits)

lemma follows_commit_buy:
  assumes b: "books e K U n st" and u: "c_user c < U" and r: "narrow K (Suc n)" and id: "char_col 10 (cuid c st)" and tid: "bigint (c_tid c)"
  shows "follows S st (cmd_commit_buy e c st)"
proof -
  note w = books_user [OF b u] and d = booksD [OF b]
  let ?a = "account_of st (c_user c)" and ?r = "commit_buy_spec (commit_time e st (c_user c)) (account_of st (c_user c))"
  note did = did_commit_buy [OF b u narrow_roomy [OF r]]
  show ?thesis
  proof (cases "buysell (cuser c st) = 1")
    case False
    then have "cmd_commit_buy e c st = fail c (- 12) (log_userCmd e (c_tid c) (c_cmd c) (cuid c st) spc spc spc st)"
      by (simp add: cmd_commit_buy_def)
    then have "outcome c st none_sent (cmd_commit_buy e c st)" by (simp add: outcome_fail idle_steps)
    moreover have "snd ?r \<noteq> ''SUCC''"
      using False by (auto simp: commit_buy_spec_def pending_of_def split: option.splits)
    ultimately show ?thesis using follows_quiet [OF d(1) w(1) did] files_commit by blast
  next
    case True
    then have ne: "buysell (cuser c st) \<noteq> 0" by simp
    obtain s where s: "stockObj (cuser c st) = Some s" "s < s_fresh st" "validStockID (Some (stockID (stk st s)))"
      "a_pend ?a = Some (Pending Buying (stockID (stk st s)) (no (cuser c st)) (reserve (cuser c st)) (prompt_time (cuser c st)))"
      "a_held ?a (stockID (stk st s)) = map_option num (getUserStock st (c_user c) s)"
      using pending_stock [OF d(1) w(1) ne] True by auto
    let ?sid = "stockID (stk st s)" and ?k = "no (cuser c st)" and ?cash = "reserve (cuser c st)"
    have pos: "0 < ?k" "0 < ?cash" using smallD(1) [OF w(4)] s(4) by (simp_all add: sound_def)
    have fit: "fits64 (holding ?a ?sid + ?k)"
      using pos smallD(5) [OF w(4) s(4)] small_holding [OF w(4) d(3), of ?sid] d(3) cap_nonneg [OF d(3), of n]
      by (intro roomy_fits [OF narrow_roomy [OF r] d(3)]) simp_all
    have nums: "numeric (price2str ?cash)" using pending_cash [OF w(4) d(3) r s(4)] .
    note rg = balance_range [OF small_commit_buy [OF w(4) d(3)] d(3) r]
    show ?thesis
    proof (rule follows_does [OF d(1) w(1) did outcome_commit_buy [OF d(1) w(1) s(1,2)]])
      fix q
      assume succ: "snd ?r = ''SUCC''" and q: "commit_buy_sends c st s (price2str (a_bal (fst ?r))) q"
      have eq: "fst ?r = ?a\<lparr>a_bal := a_bal ?a - ?cash, a_held := (a_held ?a)(?sid \<mapsto> holding ?a ?sid + ?k), a_pend := None\<rparr>"
        using succ s(4) by (auto simp: commit_buy_spec_def split: if_splits)
      note pl = id key_columns(2) [OF s(3)] tid
      have rg': "0 \<le> a_bal ?a - ?cash" "a_bal ?a - ?cash < 10 ^ 15" using rg [of "commit_time e st (c_user c)"] by (simp_all add: eq)
      have e': "a_bal (fst ?r) = a_bal ?a - ?cash" by (simp add: eq)
      have ic: "int_col (holding ?a ?sid + ?k)"
        using held_range [OF small_commit_buy [OF w(4) d(3)] r, of "commit_time e st (c_user c)" ?sid] by (simp add: eq)
      show "files S (cuid c st) ?a q (fst ?r)"
      proof (cases "getUserStock st (c_user c) s")
        case None
        then have h: "a_held ?a ?sid = None" using s(5) by simp
        show ?thesis using q h ic unfolding commit_buy_sends_def None option.case e'
          by (auto intro!: files_shares(1) files_balance files_tran pl nums rg' files_done simp: eq simp del: account_sel)
      next
        case (Some us)
        then have h: "a_held ?a ?sid = Some (num us)" using s(5) by simp
        then have k: "s64 (num us + ?k) = holding ?a ?sid + ?k" using fit by (simp add: s64_id)
        show ?thesis using q h ic unfolding commit_buy_sends_def Some option.case e' k
          by (auto intro!: files_shares(2) files_balance files_tran pl nums rg' files_done simp: eq simp del: account_sel)
      qed
    next
      assume "snd ?r \<noteq> ''SUCC''"
      then show "files S (cuid c st) ?a [] (fst ?r)" by (rule files_commit)
    qed
  qed
qed

lemma follows_commit_sell:
  assumes b: "books e K U n st" and u: "c_user c < U" and r: "narrow K (Suc n)" and id: "char_col 10 (cuid c st)" and tid: "bigint (c_tid c)"
  shows "follows S st (cmd_commit_sell e c st)"
proof -
  note w = books_user [OF b u] and d = booksD [OF b]
  let ?a = "account_of st (c_user c)" and ?r = "commit_sell_spec (commit_time e st (c_user c)) (account_of st (c_user c))"
  note did = did_commit_sell [OF b u narrow_roomy [OF r]]
  show ?thesis
  proof (cases "buysell (cuser c st) = - 1")
    case False
    then have "cmd_commit_sell e c st = fail c (- 12) (log_userCmd e (c_tid c) (c_cmd c) (cuid c st) spc spc spc st)"
      by (simp add: cmd_commit_sell_def)
    then have "outcome c st none_sent (cmd_commit_sell e c st)" by (simp add: outcome_fail idle_steps)
    moreover have "snd ?r \<noteq> ''SUCC''"
      using False ok_user_wf [OF d(1) w(1)] by (auto simp: commit_sell_spec_def pending_of_def user_wf_def split: option.splits)
    ultimately show ?thesis using follows_quiet [OF d(1) w(1) did] files_commit(2) by blast
  next
    case True
    then have ne: "buysell (cuser c st) \<noteq> 0" by simp
    obtain s where s: "stockObj (cuser c st) = Some s" "s < s_fresh st" "validStockID (Some (stockID (stk st s)))"
      "a_pend ?a = Some (Pending Selling (stockID (stk st s)) (no (cuser c st)) (reserve (cuser c st)) (prompt_time (cuser c st)))"
      "a_held ?a (stockID (stk st s)) = map_option num (getUserStock st (c_user c) s)"
      using pending_stock [OF d(1) w(1) ne] True by auto
    let ?sid = "stockID (stk st s)" and ?k = "no (cuser c st)" and ?cash = "reserve (cuser c st)"
    have nums: "numeric (price2str ?cash)" using pending_cash [OF w(4) d(3) r s(4)] .
    note rg = balance_range [OF small_commit_sell [OF w(4) d(3)] d(3) r]
    show ?thesis
    proof (rule follows_does [OF d(1) w(1) did outcome_commit_sell [OF s(1)]])
      fix q
      assume succ: "snd ?r = ''SUCC''" and q: "commit_sell_sends c st s (price2str (a_bal (fst ?r))) q"
      obtain us where us: "getUserStock st (c_user c) s = Some us" using q by (auto simp: commit_sell_sends_def)
      then have h: "a_held ?a ?sid = Some (num us)" using s(5) by simp
      have eq: "fst ?r = ?a\<lparr>a_bal := a_bal ?a + ?cash, a_held := (a_held ?a)(?sid \<mapsto> num us - ?k), a_pend := None\<rparr>"
        using succ s(4) h by (auto simp: commit_sell_spec_def split: if_splits)
      have "0 < ?k \<and> ?k \<le> num us" using smallD(1) [OF w(4)] s(4) h by (simp add: sound_def)
      then have "fits64 (num us - ?k)" using smallD(3) [OF w(4) h] d(3) cap_nonneg [OF d(3), of n]
        by (intro roomy_fits [OF narrow_roomy [OF r] d(3)]; unfold cap_Suc; linarith)
      then have k: "s64 (num us - ?k) = num us - ?k" by (rule s64_id)
      note pl = id key_columns(2) [OF s(3)] tid
      have rg': "0 \<le> a_bal ?a + ?cash" "a_bal ?a + ?cash < 10 ^ 15" using rg [of "commit_time e st (c_user c)"] by (simp_all add: eq)
      have e': "a_bal (fst ?r) = a_bal ?a + ?cash" by (simp add: eq)
      have ic: "int_col (num us - ?k)"
        using held_range [OF small_commit_sell [OF w(4) d(3)] r, of "commit_time e st (c_user c)" ?sid] by (simp add: eq)
      show "files S (cuid c st) ?a q (fst ?r)"
        using q us h ic unfolding commit_sell_sends_def e'
        by (auto intro!: files_shares(2) files_balance files_tran pl nums rg' files_done simp: eq k simp del: account_sel)
    next
      assume "snd ?r \<noteq> ''SUCC''"
      then show "files S (cuid c st) ?a [] (fst ?r)" by (rule files_commit)
    qed
  qed
qed

lemma zero_text: "numeric ''0.00''" "cents ''0.00'' = 0"
  by code_simp+

text \<open>The account operations on orders, with the statements that file them.\<close>

lemma files_set_orders:
  assumes "char_col 10 uid" "bigint tid" "char_col 3 sid" "sid \<in> set S" "decimal txt" "m = cents txt"
  shows "0 \<le> a_bal (fst (set_buy_spec sid m a)) \<Longrightarrow> a_bal (fst (set_buy_spec sid m a)) < 10 ^ 15 \<Longrightarrow>
      snd (set_buy_spec sid m a) = ''SUCC'' \<Longrightarrow>
      files S uid a [UpdateBal (price2str (a_bal (fst (set_buy_spec sid m a)))) uid, InsertTrig uid tid sid (CHR ''b'') txt ''0.00'']
        (fst (set_buy_spec sid m a))"
    "snd (set_sell_spec sid m a) = ''SUCC'' \<Longrightarrow>
      files S uid a [InsertTrig uid tid sid (CHR ''s'') txt ''0.00''] (fst (set_sell_spec sid m a))"
  using assms by (auto simp: set_buy_spec_def set_sell_spec_def decimal_def zero_text simp del: not_None_eq split: if_splits
      intro!: files_balance files_order(1) files_done)

lemma files_set_trigger:
  assumes "char_col 10 uid" "char_col 3 sid" "decimal txt" "p = cents txt" "snd (set_trigger_spec ty sid p a) = ''SUCC''"
  shows "files S uid a [UpdateTrig txt uid sid ty] (fst (set_trigger_spec ty sid p a))"
proof -
  obtain m q where o: "a_order a (ty, sid) = Some (m, q)"
    using assms(5) by (auto simp: set_trigger_spec_def split: option.splits)
  then have "fst (set_trigger_spec ty sid p a) = a\<lparr>a_order := (a_order a)((ty, sid) \<mapsto> (m, p))\<rparr>" by (simp add: set_trigger_spec_def)
  moreover have "numeric txt" using assms(3) by (simp add: decimal_def)
  ultimately show ?thesis using files_order(2) [OF assms(1,2) files_Nil(1) o] assms(4) by simp
qed

lemma files_cancel_orders:
  assumes "char_col 10 uid" "char_col 3 sid"
  shows "0 \<le> a_bal (fst (cancel_set_buy_spec sid a)) \<Longrightarrow> a_bal (fst (cancel_set_buy_spec sid a)) < 10 ^ 15 \<Longrightarrow>
      snd (cancel_set_buy_spec sid a) = ''SUCC'' \<Longrightarrow>
      files S uid a [UpdateBal (price2str (a_bal (fst (cancel_set_buy_spec sid a)))) uid, DeleteTrig uid sid (CHR ''b'')]
        (fst (cancel_set_buy_spec sid a))"
    "snd (cancel_set_sell_spec sid a) = ''SUCC'' \<Longrightarrow>
      files S uid a [DeleteTrig uid sid (CHR ''s'')] (fst (cancel_set_sell_spec sid a))"
  using assms by (auto simp: cancel_set_buy_spec_def cancel_set_sell_spec_def split: option.splits
      intro!: files_balance files_order(3) files_done)

lemma files_refused_orders:
  "snd (set_buy_spec sid m a) \<noteq> ''SUCC'' \<Longrightarrow> files S uid a [] (fst (set_buy_spec sid m a))"
  "snd (set_sell_spec sid m a) \<noteq> ''SUCC'' \<Longrightarrow> files S uid a [] (fst (set_sell_spec sid m a))"
  "snd (set_trigger_spec ty sid m a) \<noteq> ''SUCC'' \<Longrightarrow> files S uid a [] (fst (set_trigger_spec ty sid m a))"
  "snd (cancel_set_buy_spec sid a) \<noteq> ''SUCC'' \<Longrightarrow> files S uid a [] (fst (cancel_set_buy_spec sid a))"
  "snd (cancel_set_sell_spec sid a) \<noteq> ''SUCC'' \<Longrightarrow> files S uid a [] (fst (cancel_set_sell_spec sid a))"
  by (auto simp: set_buy_spec_def set_sell_spec_def set_trigger_spec_def cancel_set_buy_spec_def cancel_set_sell_spec_def
      files_Nil split: option.splits)

lemma follows_set_amount:
  assumes b: "books e K U n st" and u: "c_user c < U" and r: "narrow K (Suc n)" and id: "char_col 10 (cuid c st)"
    and m: "- 1 \<le> str2price (arg c 1)" "str2price (arg c 1) \<le> K"
    and p: "bigint (c_tid c)" "decimal (sarg c 1)" "sarg c 0 \<in> set S"
  shows "follows S st (cmd_set_buy_amount e c st)" "follows S st (cmd_set_sell_amount e c st)"
proof -
  note w = books_user [OF b u] and d = booksD [OF b]
  have "follows S st (cmd_set_buy_amount e c st) \<and> follows S st (cmd_set_sell_amount e c st)"
  proof (cases "validStockID (arg c 0) \<and> str2price (arg c 1) \<noteq> - 1")
    case False
    then have "\<exists>k. cmd_set_buy_amount e c st = fail c k st" "\<exists>k. cmd_set_sell_amount e c st = fail c k st"
      using refusals(4,5,13,14) by metis+
    then show ?thesis using follows_fail [OF d(1) w(1)] by metis
  next
    case True
    then have v: "validStockID (arg c 0)" and m0: "0 \<le> str2price (arg c 1)" and m1: "str2price (arg c 1) \<noteq> - 1"
      using m(1) by simp_all
    note did = did_set_amount [OF b u narrow_roomy [OF r] v m0 m(2)]
      and fl = files_set_orders [OF id p(1) sarg_column [OF v] p(3,2) sarg_price [OF p(2) m1], of "account_of st (c_user c)"]
      and rg = balance_range [OF small_set_buy [OF w(4) m0 m(2), of "sarg c 0"] d(3) r]
    show ?thesis
      using follows_does [OF d(1) w(1) did(1) outcome_set_buy_amount _ files_refused_orders(1)] fl(1) [OF rg]
        follows_does [OF d(1) w(1) did(2) outcome_set_sell_amount _ files_refused_orders(2)] fl(2) by blast
  qed
  then show "follows S st (cmd_set_buy_amount e c st)" "follows S st (cmd_set_sell_amount e c st)" by simp_all
qed

lemma follows_set_trigger:
  assumes b: "books e K U n st" and u: "c_user c < U" and id: "char_col 10 (cuid c st)" and p: "decimal (sarg c 1)"
  shows "follows S st (cmd_set_buy_trigger e c st)" "follows S st (cmd_set_sell_trigger e c st)"
proof -
  note w = books_user [OF b u] and d = booksD [OF b]
  have "follows S st (cmd_set_buy_trigger e c st) \<and> follows S st (cmd_set_sell_trigger e c st)"
  proof (cases "validStockID (arg c 0) \<and> str2price (arg c 1) \<noteq> - 1")
    case False
    then have "\<exists>k. cmd_set_buy_trigger e c st = fail c k st" "\<exists>k. cmd_set_sell_trigger e c st = fail c k st"
      using refusals(6,7,15,16) by metis+
    then show ?thesis using follows_fail [OF d(1) w(1)] by metis
  next
    case True
    then have v: "validStockID (arg c 0)" and m1: "str2price (arg c 1) \<noteq> - 1" by simp_all
    note did = set_trigger_refines [OF d(1) w(1) v refl m1]
      and fl = files_set_trigger [OF id sarg_column [OF v] p sarg_price [OF p m1]]
    show ?thesis
      using follows_does [OF d(1) w(1) did(1) outcome_set_trigger(1) _ files_refused_orders(3)]
        follows_does [OF d(1) w(1) did(2) outcome_set_trigger(2) _ files_refused_orders(3)] fl by blast
  qed
  then show "follows S st (cmd_set_buy_trigger e c st)" "follows S st (cmd_set_sell_trigger e c st)" by simp_all
qed

text \<open>With no shadowing among the stocks of the orders, a cancellation loses only its own.\<close>

lemma apart_shadows:
  assumes "apart S" "filed S tb uid a" "sid \<in> set S"
  shows "shadows_none a ty sid"
  unfolding shadows_none_def
proof (intro allI impI)
  fix sid' assume "a_order a (ty, sid') \<noteq> None" "sid' \<noteq> sid"
  moreover have "sid' \<in> set S" using assms(2) calculation(1) unfolding filed_def by (metis snd_conv)
  ultimately show "\<not> shadowed sid sid'" using assms(1,3) by (auto simp: apart_def list_all_iff)
qed

lemma apart_exact:
  "apart S \<Longrightarrow> filed S tb uid a \<Longrightarrow> sid \<in> set S \<Longrightarrow> loses a ty sid ord \<Longrightarrow> ord = (a_order a)((ty, sid) := None)"
  by (intro loses_exact apart_shadows)

lemma follows_cancel_set:
  assumes b: "books e K U n st" and u: "c_user c < U" and r: "narrow K (Suc n)" and id: "char_col 10 (cuid c st)"
    and S: "apart S" "sarg c 0 \<in> set S" and l: "ledger S dbs st"
  shows "follows S st (cmd_cancel_set_buy e c st)" "follows S st (cmd_cancel_set_sell e c st)"
proof -
  note w = books_user [OF b u] and d = booksD [OF b]
  let ?a = "account_of st (c_user c)"
  have "follows S st (cmd_cancel_set_buy e c st) \<and> follows S st (cmd_cancel_set_sell e c st)"
  proof (cases "validStockID (arg c 0)")
    case False
    then show ?thesis by (simp only: refusals follows_fail [OF d(1) w(1)] not_False_eq_True simp_thms)
  next
    case True
    have "filed S (dbs (dbID (cuser c st))) (cuid c st) ?a" using l w(1) by (simp add: ledger_def)
    note exact = apart_exact [OF S(1) this S(2)]
    note did = did_cancel_set [OF b u narrow_roomy [OF r] True] and sm = small_cancel_losing [OF w(4) d(3)]
    have "does c st (cancel_set_buy_spec (sarg c 0) ?a) (cmd_cancel_set_buy e c st)"
      and "small K (Suc n) (fst (cancel_set_buy_spec (sarg c 0) ?a))"
      and "does c st (cancel_set_sell_spec (sarg c 0) ?a) (cmd_cancel_set_sell e c st)"
      using did sm exact cancel_losing_exact by metis+
    note did = this and fl = files_cancel_orders [OF id sarg_column [OF True]]
      and rg = balance_range [OF this(2) d(3) r]
    show ?thesis
      using follows_does [OF d(1) w(1) did(1) outcome_cancel_set(1) _ files_refused_orders(4)] fl(1) [OF rg]
        follows_does [OF d(1) w(1) did(3) outcome_cancel_set(2) _ files_refused_orders(5)] fl(2) by blast
  qed
  then show "follows S st (cmd_cancel_set_buy e c st)" "follows S st (cmd_cancel_set_sell e c st)" by simp_all
qed

lemma follows_exec:
  assumes b: "books e K U n st" and r: "narrow K (Suc n)" and f: "fair K U c" and S: "apart S" and c: "fits_columns S c"
    and l: "ledger S dbs st"
  shows "follows S st (exec_command e c st)"
proof -
  have u: "c_user c < U" using f by (simp add: fair_def)
  have p: "bigint (c_tid c)" using c by (simp add: fits_columns_def)
  have o: "sarg c 0 \<in> set S"
    if "c_cmd c \<in> {''SET_BUY_AMOUNT'', ''SET_SELL_AMOUNT'', ''CANCEL_SET_BUY'', ''CANCEL_SET_SELL''}"
    using c that unfolding fits_columns_def names_order_def by blast
  have m0: "- 1 \<le> str2price (arg c 0)" "str2price (arg c 0) \<le> K" "decimal (sarg c 0)" if "c_cmd c = ''ADD''"
    using f c that by (simp_all add: fair_def moves_money_def amount_of_def fits_columns_def files_number_def)
  have m1: "- 1 \<le> str2price (arg c 1)" "str2price (arg c 1) \<le> K"
    if "c_cmd c \<in> {''BUY'', ''SELL'', ''SET_BUY_AMOUNT'', ''SET_SELL_AMOUNT''}"
    using f that by (auto simp: fair_def moves_money_def amount_of_def)
  have t1: "decimal (sarg c 1)"
    if "c_cmd c \<in> {''SET_BUY_AMOUNT'', ''SET_SELL_AMOUNT'', ''SET_BUY_TRIGGER'', ''SET_SELL_TRIGGER''}"
    using c that by (auto simp: fits_columns_def files_number_def)
  have id: "char_col 10 (cuid c st)" using key_columns(1) [OF booksD(1) [OF b] books_user(1) [OF b u] l] .
  have i: "(x \<Longrightarrow> follows S st y) \<Longrightarrow> (\<not> x \<Longrightarrow> follows S st z) \<Longrightarrow> follows S st (if x then y else z)" for x y z by simp
  show ?thesis
    unfolding exec_command_def Let_def
    by (intro i follows_add [OF b u r id] follows_trade [OF b u r] follows_commit_buy [OF b u r id] follows_commit_sell [OF b u r id]
        follows_unfiled [OF b u] follows_set_amount [OF b u r id] follows_set_trigger [OF b u id]
        follows_cancel_set [OF b u r id S _ l] p o m0 m1 t1) simp_all
qed

section \<open>A sample\<close>

text \<open>The rows of the sample user.\<close>

definition sample_tables :: tables where
  "sample_tables = \<lparr>t_accounts = [(''A1b2C3d4E5'', 2000)], t_holdings = [(''A1b2C3d4E5'', ''ABC'', 10)],
     t_orders = [\<lparr>o_user = ''A1b2C3d4E5'', o_trans = 5, o_stock = ''ABC'', o_type = CHR ''b'', o_reserved = 500, o_value = 200\<rparr>],
     t_transactions = []\<rparr>"

lemma sample_userID: "userID (usr sample_server 0) = ''A1b2C3d4E5''"
  using turnsD(8) [OF sample_server(1)] by (simp add: sample_user_def link_user_def server_init_def new_user_def)

lemma sample_mirrors: "mirrors sample_tables ''A1b2C3d4E5'' sample_account"
  by (simp add: mirrors_def sample_tables_def sample_account_def balance_rows_def share_rows_def order_rows_def is_order_def)

lemma sample_ledger: "ledger [''ABC''] (\<lambda>_. sample_tables) sample_server"
proof -
  have "absent sample_tables uid" if "uid \<noteq> ''A1b2C3d4E5''" for uid
    using that by (auto simp: absent_def sample_tables_def balance_rows_def share_rows_def order_rows_def is_order_def)
  then show ?thesis
    using sample_mirrors by (simp add: ledger_def stranger_def sample_ok sample_userID filed_def) (simp add: sample_account_def)
qed

end
