(* ===== verification/Filing.thy ===== *)
theory Filing
  imports Ledger Firing
begin

text \<open>
  The trigger thread and the databases: a fired order keeps the books and writes what it does. The
  one exception is a sell order on shares a pending sale has promised (\<open>sold_twice\<close>).
\<close>

section \<open>Firing keeps the books\<close>

lemma small_fire_buy:
  assumes "small K n a" "0 \<le> K" "1 \<le> p"
  shows "small K (Suc n) (fire_buy_spec sid p a)"
proof (cases "fire_buy_spec sid p a = a")
  case True
  then show ?thesis using small_mono [OF assms(1,2)] by simp
next
  case False
  then obtain m t where o: "a_order a (CHR ''b'', sid) = Some (m, t)" "p < t" "p \<le> m"
    by (auto simp: fire_buy_spec_def split: option.splits if_splits)
  have m: "0 \<le> m" "m \<le> K" using sound_order [OF smallD(1) [OF assms(1)] o(1)] smallD(4) [OF assms(1) o(1)] .
  note d = div_bounds [OF assms(3) m(1)]
  have "holding a sid + m div p \<le> cap K n + K" "a_bal a + (m - p * (m div p)) \<le> cap K n + K"
    using small_holding(2) [OF assms(1,2), of sid] smallD(2) [OF assms(1)] d m by linarith+
  moreover have "fire_buy_spec sid p a = a\<lparr>a_held := (a_held a)(sid \<mapsto> holding a sid + m div p),
      a_bal := a_bal a + (m - p * (m div p)), a_order := (a_order a)((CHR ''b'', sid) := None)\<rparr>"
    using o by (simp add: fire_buy_spec_def)
  ultimately show ?thesis
    using sound_fire_buy [OF smallD(1) [OF assms(1)] assms(3), of sid] small_mono [OF assms(1,2)] assms(2)
    by (simp add: small_def)
qed

text \<open>A pending sale of the stock.\<close>

definition promised :: "account \<Rightarrow> string \<Rightarrow> bool" where
  "promised a sid \<longleftrightarrow> (case a_pend a of Some (Pending Selling sid' k cash t) \<Rightarrow> sid' = sid | _ \<Rightarrow> False)"

lemma fire_sell_cases:
  assumes "fire_sell_spec sid p a \<noteq> a"
  obtains m t where "a_order a (CHR ''s'', sid) = Some (m, t)" "t < p" "t \<noteq> 0" "holding a sid \<noteq> 0"
    "fire_sell_spec sid p a = a\<lparr>a_held := (a_held a)(sid \<mapsto> holding a sid - min (holding a sid) (m div p + 1)),
      a_bal := a_bal a + p * min (holding a sid) (m div p + 1), a_order := (a_order a)((CHR ''s'', sid) := None)\<rparr>"
proof (cases "a_order a (CHR ''s'', sid)")
  case None
  then show thesis using assms by (simp add: fire_sell_spec_def)
next
  case (Some mt)
  then obtain m t where mt: "a_order a (CHR ''s'', sid) = Some (m, t)" by (cases mt) simp
  then have "t < p \<and> t \<noteq> 0 \<and> holding a sid \<noteq> 0" using assms by (simp add: fire_sell_spec_def split: if_splits)
  with mt that [of m t] show thesis by (simp add: fire_sell_spec_def Let_def)
qed

lemma small_fire_sell:
  assumes "small K n a" "0 \<le> K" "1 \<le> p" "p \<le> K" "\<not> promised a sid"
  shows "small K (Suc n) (fire_sell_spec sid p a)"
proof (cases "fire_sell_spec sid p a = a")
  case True
  then show ?thesis using small_mono [OF assms(1,2)] by simp
next
  case False
  then obtain m t where o: "a_order a (CHR ''s'', sid) = Some (m, t)" "holding a sid \<noteq> 0"
    and eq: "fire_sell_spec sid p a = a\<lparr>a_held := (a_held a)(sid \<mapsto> holding a sid - min (holding a sid) (m div p + 1)),
      a_bal := a_bal a + p * min (holding a sid) (m div p + 1), a_order := (a_order a)((CHR ''s'', sid) := None)\<rparr>"
    by (rule fire_sell_cases)
  define k where "k = min (holding a sid) (m div p + 1)"
  note eq = eq [folded k_def]
  have m: "0 \<le> m" "m \<le> K" using sound_order [OF smallD(1) [OF assms(1)] o(1)] smallD(4) [OF assms(1) o(1)] .
  note d = div_bounds [OF assms(3) m(1)] and h = small_holding [OF assms(1,2), of sid]
  have k: "0 \<le> k" "k \<le> holding a sid" "k \<le> m div p + 1" using d(2) h(1) by (simp_all add: k_def)
  have "p * k \<le> p * (m div p + 1)" using assms(3) k(3) by (intro mult_left_mono) simp_all
  also have "\<dots> \<le> m + p" using d(1) by (simp add: distrib_left)
  finally have pk: "p * k \<le> 2 * K" "0 \<le> p * k" using m(2) assms(3,4) k(1) by simp_all
  have "sound (a\<lparr>a_held := (a_held a)(sid \<mapsto> holding a sid - k), a_bal := a_bal a + p * k\<rparr>)"
    using smallD(1) [OF assms(1)] pk(2) k(2) assms(5)
    by (cases rule: pend_cases [of a]) (auto simp: sound_def promised_def)
  from sound_drop_order [OF this, of "(CHR ''s'', sid)"] have "sound (fire_sell_spec sid p a)" by (simp add: eq)
  then show ?thesis
    using small_mono [OF assms(1,2)] smallD(2) [OF assms(1)] pk(1) h(2) k(1) assms(2) unfolding eq by (simp add: small_def)
qed

section \<open>What a fired order writes\<close>

lemma fire_desks: "same_desks st (fst (fire e s p a tr st))"
proof -
  have r: "same_desks st st" by (simp add: same_desks_def)
  have c: "same_desks st (crash x)" if "same_desks st x" for x using that by (simp add: same_desks_def crash_def)
  show ?thesis
    unfolding fire_def fire_buy_def fire_sell_def Let_def split_beta
    by (auto intro!: desk_updates c r split: option.split)
qed

lemma fire_buy_sent:
  assumes ok: "server_ok st" and u: "t_user tr < u_fresh st" and s: "s < s_fresh st"
  shows "\<exists>now. db_sent (fire_buy e s p q a tr st) = db_sent st @ [(dbID (usr st (t_user tr)),
    [case getUserStock st (t_user tr) s of
       None \<Rightarrow> InsertStk (userID (usr st (t_user tr))) (stockID (stk st s)) q
     | Some us \<Rightarrow> UpdateStk (s64 (num us + q)) (userID (usr st (t_user tr))) (stockID (stk st s)),
     UpdateBal (price2str (balance (usr (fire_buy e s p q a tr st) (t_user tr)))) (userID (usr st (t_user tr))),
     InsertTran (userID (usr st (t_user tr))) (t_transID tr) (stockID (stk st s)) (price2str (s64 (p * q))) now (CHR ''g''),
     DeleteTrig (userID (usr st (t_user tr))) (stockID (stk st s)) (CHR ''b'')])]"
proof -
  define x where "x = log_accTrans e (t_transID tr) ''remove'' (userID (usr st (t_user tr))) (price2str (s64 (p * q))) st"
  have x: "usr x = usr st" "stk x = stk st" "db_sent x = db_sent st" "getUserStock x (t_user tr) s = getUserStock st (t_user tr) s"
    "s_fresh x = s_fresh st" "u_fresh x = u_fresh st"
    by (simp_all add: x_def getUserStock_def)
  have okx: "server_ok x" unfolding x_def by (intro ok_intros ok)
  have d: "same_desks st y \<Longrightarrow> dbID (usr y v) = dbID (usr st v)" for y v by (simp add: same_desks_def)
  have r: "same_desks st x" by (simp add: same_desks_def x(1))
  show ?thesis
  proof (cases "getUserStock st (t_user tr) s")
    case None
    obtain y where y: "addUserStock x (t_user tr) s q = (y, Some \<lparr>num = q, us_stock = s\<rparr>)"
      using turns_hold_new [OF okx _ _ None [folded x(4)], of q] u s x(5,6) by metis
    then have y': "y = fst (addUserStock x (t_user tr) s q)" by simp
    show ?thesis
      unfolding fire_buy_def Let_def x_def [symmetric] None option.case y prod.case
      unfolding split_beta y'
      by (simp add: db_write_def x d [OF desk_updates(4)] desk_updates r)
  next
    case (Some us)
    show ?thesis
      unfolding fire_buy_def Let_def x_def [symmetric] Some option.case prod.case split_beta
      by (simp add: db_write_def x d [OF desk_updates(4)] desk_updates r)
  qed
qed

lemma fire_sell_sent:
  "\<exists>now. db_sent (fire_sell e s p a tr us st) = db_sent st @ [(dbID (usr st (t_user tr)),
    (let k = (let k = s64 (cdiv (amount tr) p + 1) in if num us < k then num us else k) in
     [UpdateStk (s64 (num us - k)) (userID (usr st (t_user tr))) (stockID (stk st s)),
      UpdateBal (price2str (balance (usr (fire_sell e s p a tr us st) (t_user tr)))) (userID (usr st (t_user tr))),
      InsertTran (userID (usr st (t_user tr))) (t_transID tr) (stockID (stk st s)) (price2str (s64 (p * k))) now (CHR ''h''),
      DeleteTrig (userID (usr st (t_user tr))) (stockID (stk st s)) (CHR ''s'')]))]"
proof -
  have d: "same_desks st y \<Longrightarrow> dbID (usr y v) = dbID (usr st v)" for y v by (simp add: same_desks_def)
  have r: "same_desks st st" by (simp add: same_desks_def)
  show ?thesis
    unfolding fire_sell_def Let_def prod.case split_beta
    by (simp add: db_write_def d [OF desk_updates(4)] desk_updates r)
qed

section \<open>A fired order is filed\<close>

lemma turns_moves: "turns st u a st' \<Longrightarrow> same_desks st st' \<Longrightarrow> moves st u a st'"
  by (simp add: turns_def moves_def)

lemma fire_prices: "prices_within b e st \<Longrightarrow> prices_within b e (fst (fire e s p a tr st))"
  unfolding fire_def fire_buy_def fire_sell_def Let_def split_beta
  by (auto simp: prices_within_def split: option.split)

text \<open>The books after firing, whatever the type.\<close>

lemma fired_books:
  assumes b: "books e K U n st" and t: "turns st u a' st'" and u: "u < U" and s: "small K (Suc n) a'"
    and p: "prices_within K e st'"
  shows "books e K U (Suc n) st'"
proof -
  note d = booksD [OF b] and t' = turnsD [OF t]
  have "small K (Suc n) (account_of st' v)" if "v < U" for v
    using t'(6) t'(7) [of v] s small_mono [OF d(5) [OF that] d(3)] that d(2) by (cases "v = u") simp_all
  then show ?thesis using t'(1,2) d(2,3) p by (simp add: books_def list_all_iff)
qed

lemma files_fire_buy:
  assumes "char_col 10 uid" "char_col 3 sid" "bigint tid" "a_order a (CHR ''b'', sid) = Some (m, t)" "p < t" "p \<le> m"
    "numeric (price2str (p * (m div p)))" "0 \<le> a_bal (fire_buy_spec sid p a)" "a_bal (fire_buy_spec sid p a) < 10 ^ 15"
    "int_col (holding a sid + m div p)"
    "q = (if a_held a sid = None then InsertStk uid sid (m div p) else UpdateStk (holding a sid + m div p) uid sid)"
  shows "files S uid a [q, UpdateBal (price2str (a_bal (fire_buy_spec sid p a))) uid,
    InsertTran uid tid sid (price2str (p * (m div p))) now (CHR ''g''), DeleteTrig uid sid (CHR ''b'')] (fire_buy_spec sid p a)"
proof -
  have sp: "fire_buy_spec sid p a = a\<lparr>a_held := (a_held a)(sid \<mapsto> holding a sid + m div p),
      a_bal := a_bal a + (m - p * (m div p)), a_order := (a_order a)((CHR ''b'', sid) := None)\<rparr>"
    using assms(4-6) by (simp add: fire_buy_spec_def)
  define h where "h = holding a sid + m div p"
  note sp = sp [folded h_def]
  have fl: "files S uid (a\<lparr>a_held := (a_held a)(sid \<mapsto> h)\<rparr>) [UpdateBal (price2str (a_bal (fire_buy_spec sid p a))) uid,
      InsertTran uid tid sid (price2str (p * (m div p))) now (CHR ''g''), DeleteTrig uid sid (CHR ''b'')] (fire_buy_spec sid p a)"
    using assms(1-3,7-9) by (intro files_balance files_tran files_order(3) files_done) (simp_all add: sp)
  show ?thesis
    using files_shares [OF fl assms(1,2)] assms(10,11) by (auto simp: h_def)
qed

lemma files_fire_sell:
  assumes "char_col 10 uid" "char_col 3 sid" "bigint tid" "a_held a sid \<noteq> None"
    "fire_sell_spec sid p a = a\<lparr>a_held := (a_held a)(sid \<mapsto> h), a_bal := b, a_order := (a_order a)((CHR ''s'', sid) := None)\<rparr>"
    "numeric adj" "0 \<le> b" "b < 10 ^ 15" "int_col h"
  shows "files S uid a [UpdateStk h uid sid, UpdateBal (price2str b) uid, InsertTran uid tid sid adj now (CHR ''h''),
    DeleteTrig uid sid (CHR ''s'')] (fire_sell_spec sid p a)"
  unfolding assms(5) using assms by (intro files_shares(2) files_balance files_tran files_order(3) files_done) simp_all

text \<open>What is known of an order that its owner's tree holds.\<close>

lemma linked_order:
  assumes b: "books e K U n st" and S: "apart S" and l: "ledger S dbs st"
    and tr: "trg st a = Some tr" "t_stock tr = s" and g: "getTrigger st (t_user tr) s (t_type tr) = Some a"
  shows "t_user tr < u_fresh st" "s < s_fresh st" "small K n (account_of st (t_user tr))"
    "a_order (account_of st (t_user tr)) (t_type tr, stockID (stk st s)) = Some (amount tr, trig tr)"
    "0 \<le> amount tr" "amount tr \<le> K" "0 \<le> balance (usr st (t_user tr))" "balance (usr st (t_user tr)) \<le> cap K n"
    "shadows_none (account_of st (t_user tr)) (t_type tr) (stockID (stk st s))"
    "char_col 10 (userID (usr st (t_user tr)))" "char_col 3 (stockID (stk st s))"
proof -
  note d = booksD [OF b] and k = linked_known [OF booksD(1) [OF b] tr(1)]
  show u: "t_user tr < u_fresh st" and s: "s < s_fresh st" using k(1,2) tr(2) by simp_all
  show sm: "small K n (account_of st (t_user tr))" using d(5) u d(2) by simp
  show o: "a_order (account_of st (t_user tr)) (t_type tr, stockID (stk st s)) = Some (amount tr, trig tr)"
    using order_linked [OF d(1) tr g] .
  show "0 \<le> amount tr" "amount tr \<le> K" using sound_order [OF smallD(1) [OF sm] o] smallD(4) [OF sm o] .
  show "0 \<le> balance (usr st (t_user tr))" "balance (usr st (t_user tr)) \<le> cap K n"
    using smallD(1,2) [OF sm] by (simp_all add: sound_def)
  have f: "filed S (dbs (dbID (usr st (t_user tr)))) (userID (usr st (t_user tr))) (account_of st (t_user tr))"
    using l u by (simp add: ledger_def)
  then have "stockID (stk st s) \<in> set S" using o unfolding filed_def by (metis option.distinct(1) snd_conv)
  then show "shadows_none (account_of st (t_user tr)) (t_type tr) (stockID (stk st s))" by (rule apart_shadows [OF S f])
  show "char_col 10 (userID (usr st (t_user tr)))" using key_columns(1) [OF d(1) u l] .
  show "char_col 3 (stockID (stk st s))" using getStock_known [OF d(1) s] key_columns(2) by blast
qed

lemma small_numeric:
  assumes "0 \<le> c" "c \<le> 2 * K" "0 \<le> K" "narrow K (Suc n)"
  shows "numeric (price2str c)" "s64 c = c"
proof -
  have "c < 2 ^ 31" using assms cap_nonneg [OF assms(3), of n] unfolding narrow_def cap_Suc by linarith
  then show "numeric (price2str c)" "s64 c = c"
    using assms(1) decimal_price2str(1) [of c] by (simp_all add: decimal_def fits64_def)
qed

lemma fired_buy:
  assumes b: "books e K U n st" and r: "narrow K (Suc n)" and S: "apart S" and l: "ledger S dbs st"
    and tr: "trg st a = Some tr" "t_stock tr = s" "t_type tr = CHR ''b''" "bigint (t_transID tr)"
    and g: "getTrigger st (t_user tr) s (CHR ''b'') = Some a" and p: "1 \<le> p"
  shows "books e K U (Suc n) (fst (fire e s p a tr st)) \<and> follows S st (fst (fire e s p a tr st))"
proof -
  let ?u = "t_user tr" and ?sid = "stockID (stk st s)" and ?a = "account_of st (t_user tr)"
    and ?st' = "fst (fire e s p a tr st)" and ?q = "amount tr div p"
  note d = booksD [OF b] and o = linked_order [OF b S l tr(1,2), unfolded tr(3), OF g]
  note h = small_holding [OF o(3) d(3), of ?sid] and q = div_bounds [OF p o(5)]
  have fit: "fits64 (balance (usr st ?u) + amount tr)" "fits64 (holding ?a ?sid + amount tr)"
    using o(5-8) h d(3) cap_nonneg [OF d(3), of n] by (intro roomy_fits [OF narrow_roomy [OF r] d(3)]; unfold cap_Suc; linarith)+
  note t = fire_buy_refines [OF d(1) tr(1-3) g p smallD(1) [OF o(3)] fit o(9), of e]
  note sm' = small_fire_buy [OF o(3) d(3) p, of ?sid] and mv = turns_moves [OF t fire_desks]
  have dv: "cdiv (amount tr) p = ?q" using o(5) p by (simp add: cdiv_div)
  have "follows S st ?st'"
  proof (cases "p < trig tr \<and> p \<le> amount tr")
    case False
    then have "?st' = st" using tr(3) dv q(5) by (auto simp: fire_def Let_def)
    then show ?thesis by (auto simp: follows_def)
  next
    case True
    then have eq: "?st' = fire_buy e s p ?q a tr st" using tr(3) dv q(5) by (simp add: fire_def Let_def)
    have fb: "balance (usr ?st' ?u) = a_bal (fire_buy_spec ?sid p ?a)" using turnsD(6) [OF t] account_sel(1) [of ?st' ?u] by simp
    have num: "numeric (price2str (p * ?q))" "s64 (p * ?q) = p * ?q"
      using q o(6) d(3) by (intro small_numeric [OF _ _ d(3) r]; linarith)+
    have hk: "a_held ?a ?sid = map_option num (getUserStock st ?u s)" using holding_known [OF d(1) o(2) refl] .
    have hs: "s64 (num us + ?q) = num us + ?q" if "getUserStock st ?u s = Some us" for us
      using hk that fit(2) h(1) q by (intro s64_in_range) (simp_all add: fits64_def)
    let ?w = "case getUserStock st ?u s of None \<Rightarrow> InsertStk (userID (usr st ?u)) ?sid ?q
       | Some us \<Rightarrow> UpdateStk (s64 (num us + ?q)) (userID (usr st ?u)) ?sid"
    obtain now where D: "db_sent ?st' = db_sent st @ [(dbID (usr st ?u), [?w,
       UpdateBal (price2str (a_bal (fire_buy_spec ?sid p ?a))) (userID (usr st ?u)),
       InsertTran (userID (usr st ?u)) (t_transID tr) ?sid (price2str (p * ?q)) now (CHR ''g''),
       DeleteTrig (userID (usr st ?u)) ?sid (CHR ''b'')])]"
      using fire_buy_sent [OF d(1) o(1,2), of e p ?q a] unfolding eq [symmetric] fb num(2) by blast
    have "int_col (holding ?a ?sid + ?q)" using held_range [OF sm' r, of ?sid] o(4) True by (simp add: fire_buy_spec_def)
    moreover have "?w = (if a_held ?a ?sid = None then InsertStk (userID (usr st ?u)) ?sid ?q
        else UpdateStk (holding ?a ?sid + ?q) (userID (usr st ?u)) ?sid)"
      using hk hs by (simp split: option.split)
    ultimately have "files S (userID (usr st ?u)) ?a [?w, UpdateBal (price2str (a_bal (fire_buy_spec ?sid p ?a))) (userID (usr st ?u)),
       InsertTran (userID (usr st ?u)) (t_transID tr) ?sid (price2str (p * ?q)) now (CHR ''g''),
       DeleteTrig (userID (usr st ?u)) ?sid (CHR ''b'')] (fire_buy_spec ?sid p ?a)"
      using True by (intro files_fire_buy [OF o(10,11) tr(4) o(4)] num(1) balance_range [OF sm' d(3) r]) simp_all
    with D show ?thesis using follows_moves [OF d(1) o(1) mv] by blast
  qed
  with fired_books [OF b t _ sm' fire_prices [OF d(4)]] o(1) d(2) show ?thesis by simp
qed

lemma fired_sell:
  assumes b: "books e K U n st" and r: "narrow K (Suc n)" and S: "apart S" and l: "ledger S dbs st"
    and tr: "trg st a = Some tr" "t_stock tr = s" "t_type tr = CHR ''s''" "bigint (t_transID tr)"
    and g: "getTrigger st (t_user tr) s (CHR ''s'') = Some a" and p: "1 \<le> p" "p \<le> K"
    and np: "\<not> promised (account_of st (t_user tr)) (stockID (stk st s))"
  shows "books e K U (Suc n) (fst (fire e s p a tr st)) \<and> follows S st (fst (fire e s p a tr st))"
proof -
  let ?u = "t_user tr" and ?sid = "stockID (stk st s)" and ?a = "account_of st (t_user tr)"
    and ?st' = "fst (fire e s p a tr st)"
  note d = booksD [OF b] and o = linked_order [OF b S l tr(1,2), unfolded tr(3), OF g]
  note h = small_holding [OF o(3) d(3), of ?sid] and q = div_bounds [OF p(1) o(5)]
  have fit: "fits64 (balance (usr st ?u) + (amount tr + p))" "fits64 (holding ?a ?sid)"
    using o(5-8) h p d(3) cap_nonneg [OF d(3), of n] by (intro roomy_fits [OF narrow_roomy [OF r] d(3)]; unfold cap_Suc; linarith)+
  note t = fire_sell_refines [OF d(1) tr(1-3) g p(1) smallD(1) [OF o(3)] fit o(9), of e]
  note sm' = small_fire_sell [OF o(3) d(3) p np] and mv = turns_moves [OF t fire_desks]
  have hk: "a_held ?a ?sid = map_option num (getUserStock st ?u s)" using holding_known [OF d(1) o(2) refl] .
  have "follows S st ?st'"
  proof (cases "\<exists>us. getUserStock st ?u s = Some us \<and> num us \<noteq> 0 \<and> trig tr < p \<and> trig tr \<noteq> 0")
    case False
    then have "?st' = st" using tr(3) by (auto simp: fire_def split: option.split)
    then show ?thesis by (auto simp: follows_def)
  next
    case True
    then obtain us where us: "getUserStock st ?u s = Some us" "num us \<noteq> 0" and c: "trig tr < p" "trig tr \<noteq> 0" by blast
    have hu: "a_held ?a ?sid = Some (num us)" "holding ?a ?sid = num us" using hk us(1) by simp_all
    define k where "k = min (num us) (amount tr div p + 1)"
    have fm: "fits64 (amount tr + p)" using fit(1) o(5,7) p(1) by (simp add: fits64_def)
    have k: "(let k = s64 (cdiv (amount tr) p + 1) in if num us < k then num us else k) = k"
      using sell_arith(1) [OF o(5) p(1) h(1) fm] by (simp add: k_def Let_def min_def)
    have k0: "0 \<le> k" "k \<le> num us" "k \<le> amount tr div p + 1" using h(1) hu(2) q(2) by (simp_all add: k_def)
    have sp: "fire_sell_spec ?sid p ?a = ?a\<lparr>a_held := (a_held ?a)(?sid \<mapsto> num us - k),
        a_bal := a_bal ?a + p * k, a_order := (a_order ?a)((CHR ''s'', ?sid) := None)\<rparr>"
      using o(4) c us(2) hu by (simp add: fire_sell_spec_def Let_def k_def)
    have fb: "balance (usr ?st' ?u) = a_bal ?a + p * k" using turnsD(6) [OF t] account_sel(1) [of ?st' ?u] by (simp add: sp)
    have eq: "?st' = fire_sell e s p a tr us st" using tr(3) us c by (simp add: fire_def)
    have "p * k \<le> p * (amount tr div p + 1)" using p(1) k0(3) by (intro mult_left_mono) simp_all
    then have "p * k \<le> 2 * K" using q(1) o(6) p(2) by (simp add: distrib_left)
    then have num: "numeric (price2str (p * k))" "s64 (p * k) = p * k"
      using k0(1) p(1) by (intro small_numeric [OF _ _ d(3) r]; simp)+
    have ic: "int_col (num us - k)" using held_range [OF sm' r, of ?sid] by (simp add: sp)
    then have sk: "s64 (num us - k) = num us - k" by (intro s64_id) (simp add: int_col_def fits64_def)
    obtain now where D: "db_sent ?st' = db_sent st @ [(dbID (usr st ?u), [UpdateStk (num us - k) (userID (usr st ?u)) ?sid,
       UpdateBal (price2str (a_bal ?a + p * k)) (userID (usr st ?u)),
       InsertTran (userID (usr st ?u)) (t_transID tr) ?sid (price2str (p * k)) now (CHR ''h''),
       DeleteTrig (userID (usr st ?u)) ?sid (CHR ''s'')])]"
      using fire_sell_sent [of e s p a tr us st] unfolding Let_def k [unfolded Let_def] eq [symmetric] fb num(2) sk
      by blast
    have "files S (userID (usr st ?u)) ?a [UpdateStk (num us - k) (userID (usr st ?u)) ?sid,
       UpdateBal (price2str (a_bal ?a + p * k)) (userID (usr st ?u)),
       InsertTran (userID (usr st ?u)) (t_transID tr) ?sid (price2str (p * k)) now (CHR ''h''),
       DeleteTrig (userID (usr st ?u)) ?sid (CHR ''s'')] (fire_sell_spec ?sid p ?a)"
      using balance_range [OF sm' d(3) r] hu(1)
      by (intro files_fire_sell [OF o(10,11) tr(4) _ sp num(1) _ _ ic]) (simp_all add: sp)
    with D show ?thesis using follows_moves [OF d(1) o(1) mv] by blast
  qed
  with fired_books [OF b t _ sm' fire_prices [OF d(4)]] o(1) d(2) show ?thesis by simp
qed

section \<open>The transaction numbers of the orders\<close>

text \<open>An order carries the number of the command that placed it, and is filed under it when it fires.\<close>

definition tids_ok :: "server \<Rightarrow> bool" where
  "tids_ok st \<longleftrightarrow> (\<forall>a tr. trg st a = Some tr \<longrightarrow> bigint (t_transID tr))"

named_theorems tid_intros "rules for the transaction numbers of the orders"

lemma tids_cong: "trg st' = trg st \<Longrightarrow> tids_ok st \<Longrightarrow> tids_ok st'"
  by (simp add: tids_ok_def)

lemma tids_steps [tid_intros]:
  assumes "tids_ok st"
  shows "tids_ok (log_userCmd e tid cmd uid sid file funds st)" "tids_ok (log_accTrans e tid action uid funds st)"
    "tids_ok (log_line l st)" "tids_ok (reply c body st)" "tids_ok (fail c k st)" "tids_ok (succ c st)"
    "tids_ok (upd_user u f st)" "tids_ok (crash st)" "tids_ok (snd (getmTS e st))" "tids_ok (db_write stmts db st)"
    "tids_ok (quickSend sock str st)" "tids_ok (setUserStock st u s k)" "tids_ok (fst (addUserStock st u s k))"
    "tids_ok (ask_quote e c s st)" "tids_ok (refresh_quote e c s st)" "tids_ok (fst (ensureStock st sid))"
  by (rule tids_cong [OF _ assms]; simp add: crash_def setUserStock_def addUserStock_def ask_quote_def refresh_quote_def
      ensureStock_def addStock_def upd_stock_def Let_def split_beta split: option.split)+

lemma tids_orders [tid_intros]:
  assumes "tids_ok st"
  shows "bigint tid \<Longrightarrow> tids_ok (fst (addTrigger st u tid s ty m p))" "tids_ok (removeTrigger st a)" "tids_ok (set_trig a p st)"
  using assms by (auto simp: tids_ok_def addTrigger_def removeTrigger_def set_trig_def crash_def put_trig_ring_def Let_def split_beta
      split: option.splits if_splits)

lemma tids_if [tid_intros]: "(b \<Longrightarrow> tids_ok x) \<Longrightarrow> (\<not> b \<Longrightarrow> tids_ok y) \<Longrightarrow> tids_ok (if b then x else y)"
  by simp

lemma tids_case [tid_intros]: "tids_ok x \<Longrightarrow> (\<And>z. tids_ok (g z)) \<Longrightarrow> tids_ok (case w of None \<Rightarrow> x | Some z \<Rightarrow> g z)"
  by (simp split: option.split)

lemma tids_ensure [tid_intros]:
  assumes "tids_ok st" "\<And>x s. tids_ok x \<Longrightarrow> tids_ok (g x s)"
  shows "tids_ok (case ensureStock st sid of (x, None) \<Rightarrow> crash x | (x, Some s) \<Rightarrow> g x s)"
  using tids_steps(16) [OF assms(1), of sid] assms(2) tids_steps(8) by (auto split: prod.split option.split)

lemma tids_stored [tid_intros]:
  assumes "tids_ok st" "\<And>stmt x. tids_ok x \<Longrightarrow> tids_ok (g stmt x)"
  shows "tids_ok (case (case getUserStock st u s of
          None \<Rightarrow> (case addUserStock st u s k of
                     (x, None) \<Rightarrow> (None, x)
                   | (x, Some us) \<Rightarrow> (Some (InsertStk uid sid (num us)), x))
        | Some us \<Rightarrow> (Some (UpdateStk (f us) uid sid), setUserStock st u s (f us)))
      of (stmt, x) \<Rightarrow> (case stmt of None \<Rightarrow> crash x | Some stmt \<Rightarrow> g stmt x))"
  using tids_steps(12,13) [OF assms(1)] assms(2) tids_steps(8)
  by (auto split: option.split prod.split simp: prod_eq_iff)

lemma tids_exec:
  assumes "tids_ok st" "bigint (c_tid c)"
  shows "tids_ok (exec_command e c st)"
proof -
  have b: "tids_ok (commit_buy_body e c s x)" "tids_ok (commit_sell_body e c s us x)" if "tids_ok x" for s us x
    unfolding commit_buy_body_def commit_sell_body_def Let_def by (rule tid_intros that | assumption | unfold split_beta)+
  show ?thesis
    unfolding exec_command_def cmd_add_def cmd_quote_def cmd_buy_def cmd_commit_buy_def cmd_cancel_buy_def cmd_sell_def
      cmd_commit_sell_def cmd_cancel_sell_def cmd_set_buy_amount_def cmd_set_sell_amount_def cmd_set_buy_trigger_def
      cmd_set_sell_trigger_def cmd_cancel_set_buy_def cmd_cancel_set_sell_def cmd_dumplog_def cmd_display_summary_def
      cmd_bad_def Let_def
    by (rule tid_intros b assms | assumption | unfold split_beta)+
qed

lemma tids_fire: "tids_ok st \<Longrightarrow> tids_ok (fst (fire e s p a tr st))"
  unfolding fire_def fire_buy_def fire_sell_def Let_def
  by (auto intro!: tid_intros simp: split_beta split: option.split)

end
