(* ===== verification/Hooked.thy ===== *)
theory Hooked
  imports Filing
begin

text \<open>
  Every order in the ring of a stock is still in the tree of its owner, as long as no identifier of
  the orders shadows another: then the removals lose nothing (cf. \<open>order_vanishes\<close>).
\<close>

section \<open>The invariant\<close>

definition hooked :: "server \<Rightarrow> bool" where
  "hooked st \<longleftrightarrow> (\<forall>a tr. trg st a = Some tr \<longrightarrow> (\<exists>p. look (tTree (usr st (t_user tr))) p = Some a))"

lemma hooked_found:
  assumes ok: "server_ok st" and h: "hooked st" and tr: "trg st a = Some tr"
  shows "getTrigger st (t_user tr) (t_stock tr) (t_type tr) = Some a"
proof -
  note k = linked_known [OF ok tr]
  obtain p where p: "look (tTree (usr st (t_user tr))) p = Some a" using h tr by (auto simp: hooked_def)
  then have "p = trigger_path (t_type tr) (sids st (t_stock tr))"
    using ok_tree [OF ok k(1)] tr unfolding tree_ok_def by fastforce
  with p getTrigger_look [OF ok k(2,3), of "t_user tr"] show ?thesis by (simp add: sids_def)
qed

named_theorems hook_intros "rules for orders held by the trees"

lemma hooked_cong: "hooked st \<Longrightarrow> trg st' = trg st \<Longrightarrow> (\<And>v. tTree (usr st' v) = tTree (usr st v)) \<Longrightarrow> hooked st'"
  by (simp add: hooked_def)

lemma hooked_user [hook_intros]: "hooked st \<Longrightarrow> (\<And>x. tTree (f x) = tTree x) \<Longrightarrow> hooked (upd_user u f st)"
  by (erule hooked_cong) (simp_all add: upd_user_def)

lemma hooked_steps [hook_intros]:
  assumes "hooked st"
  shows "hooked (log_userCmd e tid cmd uid sid file funds st)" "hooked (log_accTrans e tid action uid funds st)"
    "hooked (log_line l st)" "hooked (reply c body st)" "hooked (fail c k st)" "hooked (succ c st)"
    "hooked (crash st)" "hooked (snd (getmTS e st))" "hooked (db_write stmts db st)"
    "hooked (quickSend sock str st)" "hooked (setUserStock st u s k)" "hooked (fst (addUserStock st u s k))"
    "hooked (ask_quote e c s st)" "hooked (refresh_quote e c s st)" "hooked (fst (ensureStock st sid))"
    "hooked (put_trig_ring s r st)"
  by (rule hooked_cong [OF assms]; simp add: crash_def setUserStock_def addUserStock_def ask_quote_def refresh_quote_def
      ensureStock_def addStock_def upd_stock_def upd_user_def Let_def split_beta split: option.split)+

lemma hooked_set_trig [hook_intros]: "hooked st \<Longrightarrow> hooked (set_trig a p st)"
  by (auto simp: hooked_def set_trig_def crash_def split: option.splits)

lemma hooked_if [hook_intros]: "(b \<Longrightarrow> hooked x) \<Longrightarrow> (\<not> b \<Longrightarrow> hooked y) \<Longrightarrow> hooked (if b then x else y)"
  by simp

lemma hooked_case [hook_intros]: "hooked x \<Longrightarrow> (\<And>z. hooked (g z)) \<Longrightarrow> hooked (case w of None \<Rightarrow> x | Some z \<Rightarrow> g z)"
  by (simp split: option.split)

lemma hooked_ensure [hook_intros]:
  assumes "hooked st" "\<And>x s. hooked x \<Longrightarrow> hooked (g x s)"
  shows "hooked (case ensureStock st sid of (x, None) \<Rightarrow> crash x | (x, Some s) \<Rightarrow> g x s)"
  using hooked_steps(15) [OF assms(1), of sid] assms(2) hooked_steps(7) by (auto split: prod.split option.split)

lemma hooked_stored [hook_intros]:
  assumes "hooked st" "\<And>stmt x. hooked x \<Longrightarrow> hooked (g stmt x)"
  shows "hooked (case (case getUserStock st u s of
          None \<Rightarrow> (case addUserStock st u s k of
                     (x, None) \<Rightarrow> (None, x)
                   | (x, Some us) \<Rightarrow> (Some (InsertStk uid sid (num us)), x))
        | Some us \<Rightarrow> (Some (UpdateStk (f us) uid sid), setUserStock st u s (f us)))
      of (stmt, x) \<Rightarrow> (case stmt of None \<Rightarrow> crash x | Some stmt \<Rightarrow> g stmt x))"
  using hooked_steps(11,12) [OF assms(1)] assms(2) hooked_steps(7)
  by (auto split: option.split prod.split simp: prod_eq_iff)

section \<open>Orders set and removed\<close>

lemma hooked_add:
  assumes ok: "server_ok st" and h: "hooked st" and n: "u < u_fresh st" "s < s_fresh st" "ty \<in> {CHR ''b'', CHR ''s''}"
    "getTrigger st u s ty = None"
  shows "hooked (fst (addTrigger st u tid s ty m p))"
proof -
  obtain st' where st': "addTrigger st u tid s ty m p = (st', Some (t_fresh st))" "trig_frame u st st'"
    "trg st' = (trg st)(t_fresh st \<mapsto> \<lparr>t_type = ty, trig = p, amount = m, t_transID = tid, t_user = u, t_stock = s\<rparr>)"
    "\<And>q. look (tTree (usr st' u)) q =
       (if q = trigger_path ty (stockID (stk st s)) then Some (t_fresh st) else look (tTree (usr st u)) q)"
    using addTrigger_new [OF ok n] by metis
  have free: "look (tTree (usr st u)) (trigger_path ty (stockID (stk st s))) = None"
    using n(4) getTrigger_look [OF ok n(2,3), of u] by simp
  have "\<exists>q. look (tTree (usr st' (t_user tr))) q = Some a" if tr: "trg st' a = Some tr" for a tr
  proof (cases "a = t_fresh st")
    case True
    then have "t_user tr = u" using tr st'(3) by auto
    then show ?thesis using True st'(4) by auto
  next
    case False
    then obtain q where q: "look (tTree (usr st (t_user tr))) q = Some a" using h tr st'(3) by (auto simp: hooked_def)
    then have "look (tTree (usr st' (t_user tr))) q = Some a"
      using free st'(4) trig_frame_other [OF st'(2)] by (cases "t_user tr = u") auto
    then show ?thesis by blast
  qed
  then show ?thesis by (simp add: st'(1) hooked_def)
qed

lemma hooked_remove:
  assumes ok: "server_ok st" and h: "hooked st" and tr: "trg st a = Some tr"
    and sh: "shadows_none (account_of st (t_user tr)) (t_type tr) (stockID (stk st (t_stock tr)))"
  shows "hooked (removeTrigger st a)"
proof -
  let ?st = "removeTrigger st a"
  note k = linked_known [OF ok tr] and found = hooked_found [OF ok h]
  note rem = removeTrigger_spec [OF ok tr found [OF tr]]
  have "\<exists>q. look (tTree (usr ?st (t_user trb))) q = Some b" if b: "trg ?st b = Some trb" for b trb
  proof -
    have ne: "b \<noteq> a" and trb: "trg st b = Some trb" using b rem(3) by (auto split: if_splits)
    note kb = linked_known [OF ok trb]
    let ?ty = "t_type trb" and ?sid = "stockID (stk st (t_stock trb))"
    have lb: "look (tTree (usr st (t_user trb))) (trigger_path ?ty ?sid) = Some b"
      using found [OF trb] getTrigger_look [OF ok kb(2,3)] by simp
    show ?thesis
    proof (cases "t_user trb = t_user tr")
      case True
      have la: "look (tTree (usr st (t_user tr))) (trigger_path (t_type tr) (stockID (stk st (t_stock tr)))) = Some a"
        using found [OF tr] getTrigger_look [OF ok k(2,3)] by simp
      then have d: "(?ty, ?sid) \<noteq> (t_type tr, stockID (stk st (t_stock tr)))" using lb True ne by auto
      have "a_order (account_of st (t_user tr)) (?ty, ?sid) \<noteq> None"
        using order_linked [OF ok trb refl found [OF trb]] True by simp
      with sh d have "\<not> (?ty = t_type tr \<and> shadowed (stockID (stk st (t_stock tr))) ?sid)"
        unfolding shadows_none_def by auto
      with rem(5) [OF known_key [OF ok kb(2)] kb(3) d] lb True show ?thesis by auto
    next
      case False
      then show ?thesis using lb trig_frame_other [OF rem(2)] by auto
    qed
  qed
  then show ?thesis by (simp add: hooked_def)
qed

section \<open>Every command and every firing\<close>

lemma hooked_set_amount:
  assumes ok: "server_ok st" and h: "hooked st" and u: "c_user c < u_fresh st"
  shows "hooked (cmd_set_buy_amount e c st)" "hooked (cmd_set_sell_amount e c st)"
proof -
  have both: "hooked (cmd_set_buy_amount e c st) \<and> hooked (cmd_set_sell_amount e c st)"
  proof (cases "validStockID (arg c 0)")
    case False
    then show ?thesis using h by (simp add: cmd_set_buy_amount_def cmd_set_sell_amount_def hook_intros)
  next
    case v: True
    define st1 where "st1 = log_userCmd e (c_tid c) (c_cmd c) (cuid c st) (sarg c 0) spc (sarg c 1) st"
    have h1: "hooked st1" unfolding st1_def by (intro hook_intros h)
    obtain st2 s where st2: "ensureStock st1 (sarg c 0) = (st2, Some s)" "turns st (c_user c) (account_of st (c_user c)) st2"
        "s < s_fresh st2" "server_ok st2" "c_user c < u_fresh st2"
      using ensured [OF ok u v, of e spc "sarg c 1"] unfolding st1_def by metis
    have h2: "hooked st2" using hooked_steps(15) [OF h1, of "sarg c 0"] st2(1) by simp
    define st3 where "st3 = log_accTrans e (c_tid c) ''remove'' (cuid c st) (sarg c 1)
      (upd_user (c_user c) (\<lambda>x. x\<lparr>balance := s64 (balance x - str2price (arg c 1))\<rparr>) st2)"
    have ok3: "server_ok st3" unfolding st3_def
      by (rule turnsD(1)) (rule turns_intros st2(2) u)+
    have h3: "hooked st3" unfolding st3_def by (intro hook_intros h2) simp
    have f3: "s < s_fresh st3" "c_user c < u_fresh st3" "getTrigger st3 (c_user c) s ty = getTrigger st2 (c_user c) s ty" for ty
      using st2(3,5) by (simp_all add: st3_def getTrigger_def)
    have a3: "hooked (fst (addTrigger st3 (c_user c) (c_tid c) s (CHR ''b'') (str2price (arg c 1)) 0))"
      if "getTrigger st2 (c_user c) s (CHR ''b'') = None"
      by (rule hooked_add [OF ok3 h3 f3(2,1)]) (simp_all add: f3(3) that)
    have "hooked (cmd_set_buy_amount e c st)"
      unfolding cmd_set_buy_amount_def Let_def
      unfolding st1_def [symmetric] st2(1) prod.case option.case
      by (auto intro!: hook_intros h h1 h2 a3 [unfolded st3_def] simp del: One_nat_def)
    moreover have "hooked (cmd_set_sell_amount e c st)"
      unfolding cmd_set_sell_amount_def Let_def
      unfolding st1_def [symmetric] st2(1) prod.case option.case
      by (auto intro!: hook_intros h h1 h2 hooked_add st2(3-5))
    ultimately show ?thesis ..
  qed
  then show "hooked (cmd_set_buy_amount e c st)" "hooked (cmd_set_sell_amount e c st)" by blast+
qed

lemma hooked_cancel:
  assumes ok: "server_ok st" and h: "hooked st" and u: "c_user c < u_fresh st"
    and sh: "\<And>ty. shadows_none (account_of st (c_user c)) ty (sarg c 0)"
  shows "hooked (cmd_cancel_set_buy e c st)" "hooked (cmd_cancel_set_sell e c st)"
proof -
  have both: "hooked (cmd_cancel_set_buy e c st) \<and> hooked (cmd_cancel_set_sell e c st)"
  proof (cases "validStockID (arg c 0)")
    case False
    then show ?thesis using h by (simp add: cmd_cancel_set_buy_def cmd_cancel_set_sell_def hook_intros)
  next
    case v: True
    define st1 where "st1 = log_userCmd e (c_tid c) (c_cmd c) (cuid c st) (sarg c 0) spc spc st"
    have h1: "hooked st1" unfolding st1_def by (intro hook_intros h)
    obtain st2 s where st2: "ensureStock st1 (sarg c 0) = (st2, Some s)" "turns st (c_user c) (account_of st (c_user c)) st2"
        "s < s_fresh st2" "stockID (stk st2 s) = sarg c 0" "account_of st2 (c_user c) = account_of st (c_user c)"
        "server_ok st2" "c_user c < u_fresh st2"
      using ensured [OF ok u v, of e spc spc] unfolding st1_def by metis
    have h2: "hooked st2" using hooked_steps(15) [OF h1, of "sarg c 0"] st2(1) by simp
    have rm: "hooked (removeTrigger x a)"
      if a: "getTrigger st2 (c_user c) s ty = Some a" "ty \<in> {CHR ''b'', CHR ''s''}"
        and x: "server_ok x" "hooked x" "trg x = trg st2" "stk x = stk st2" "a_order (account_of x (c_user c)) = a_order (account_of st2 (c_user c))"
      for x a ty
    proof -
      obtain tr where tr: "trg st2 a = Some tr" "t_user tr = c_user c" "t_type tr = ty" "stockID (stk st2 (t_stock tr)) = sarg c 0"
        using getTrigger_some [OF st2(6,7,3) a(2,1)] st2(4) by metis
      have "shadows_none (account_of x (c_user c)) ty (sarg c 0)" using sh [of ty] x(5) st2(5) by (simp only: shadows_none_def)
      then show ?thesis using hooked_remove [OF x(1,2), of a tr] x(3,4) tr by simp
    qed
    have "hooked (cmd_cancel_set_buy e c st)"
    proof -
      have "hooked (removeTrigger (upd_user (c_user c) (\<lambda>x. x\<lparr>balance := s64 (balance x + k)\<rparr>) st2) a)"
        if "getTrigger st2 (c_user c) s (CHR ''b'') = Some a" for a k
      proof (rule rm [OF that])
        let ?x = "upd_user (c_user c) (\<lambda>x. x\<lparr>balance := s64 (balance x + k)\<rparr>) st2"
        show "server_ok ?x" by (rule turnsD(1) [OF turns_balance' [OF st2(2) u]])
        show "hooked ?x" by (rule hooked_user [OF h2]) simp
        show "a_order (account_of ?x (c_user c)) = a_order (account_of st2 (c_user c))" by (simp add: account_of_def upd_user_def)
      qed (simp_all add: upd_user_def)
      then show ?thesis
        unfolding cmd_cancel_set_buy_def Let_def
        unfolding st1_def [symmetric] st2(1) prod.case option.case
        by (auto intro!: hook_intros h h1 h2 split: option.split)
    qed
    moreover have "hooked (cmd_cancel_set_sell e c st)"
    proof -
      have "hooked (removeTrigger st2 a)" if "getTrigger st2 (c_user c) s (CHR ''s'') = Some a" for a
        by (rule rm [OF that]) (simp_all add: st2 h2)
      then show ?thesis
        unfolding cmd_cancel_set_sell_def Let_def
        unfolding st1_def [symmetric] st2(1) prod.case option.case
        by (auto intro!: hook_intros h h1 h2 split: option.split)
    qed
    ultimately show ?thesis ..
  qed
  then show "hooked (cmd_cancel_set_buy e c st)" "hooked (cmd_cancel_set_sell e c st)" by blast+
qed

lemma hooked_exec:
  assumes ok: "server_ok st" and h: "hooked st" and u: "c_user c < u_fresh st"
    and sh: "\<And>ty. c_cmd c \<in> {''CANCEL_SET_BUY'', ''CANCEL_SET_SELL''} \<Longrightarrow> shadows_none (account_of st (c_user c)) ty (sarg c 0)"
  shows "hooked (exec_command e c st)"
proof -
  have b: "hooked (commit_buy_body e c s x)" "hooked (commit_sell_body e c s us x)" if "hooked x" for s us x
    unfolding commit_buy_body_def commit_sell_body_def Let_def
    by (rule hook_intros that | assumption | unfold split_beta | (simp add: clear_pending_def; fail))+
  show ?thesis
    unfolding exec_command_def cmd_add_def cmd_quote_def cmd_buy_def cmd_commit_buy_def cmd_cancel_buy_def cmd_sell_def
      cmd_commit_sell_def cmd_cancel_sell_def cmd_set_buy_trigger_def cmd_set_sell_trigger_def cmd_dumplog_def
      cmd_display_summary_def cmd_bad_def Let_def
    by (rule hooked_set_amount [OF ok h u] hooked_cancel [OF ok h u sh] hook_intros b h | assumption | unfold split_beta |
        (simp add: clear_pending_def; fail))+
qed

lemma hooked_fire:
  assumes ok: "server_ok st" and h: "hooked st" and tr: "trg st a = Some tr" "t_stock tr = s"
    and sh: "shadows_none (account_of st (t_user tr)) (t_type tr) (stockID (stk st s))"
  shows "hooked (fst (fire e s p a tr st))"
proof (rule fire_cases [OF ok tr, of e p])
  assume "fire e s p a tr st = (st, False)"
  then show ?thesis using h by simp
next
  fix st' stmts db acc
  assume f: "fire e s p a tr st = (db_write stmts db (removeTrigger st' a), True)"
    and t: "turns st (t_user tr) acc st'" and same: "same_triggers st st'"
  have sm: "trg st' = trg st" "stk st' = stk st" "\<And>v. tTree (usr st' v) = tTree (usr st v)"
    using same by (simp_all add: same_triggers_def)
  have "a_order (account_of st' v) = a_order (account_of st v)" for v by (simp add: account_of_def sm)
  then have "shadows_none (account_of st' (t_user tr)) (t_type tr) (stockID (stk st' (t_stock tr)))"
    using sh tr(2) sm(2) by (simp only: shadows_none_def)
  from hooked_remove [OF turnsD(1) [OF t] hooked_cong [OF h sm(1,3)] _ this] tr(1) sm(1) show ?thesis
    by (simp add: f hook_intros)
qed

text \<open>In terms of the databases: orders for stocks none of which shadows another.\<close>

lemma hooked_turn:
  assumes b: "books e K U n st" and h: "hooked st" and u: "c_user c < u_fresh st" and S: "apart S" and l: "ledger S dbs st"
    and c: "fits_columns S c"
  shows "hooked (exec_command e c st)"
proof (rule hooked_exec [OF booksD(1) [OF b] h u])
  fix ty assume "c_cmd c \<in> {''CANCEL_SET_BUY'', ''CANCEL_SET_SELL''}"
  then have "sarg c 0 \<in> set S" using c by (auto simp: fits_columns_def names_order_def)
  then show "shadows_none (account_of st (c_user c)) ty (sarg c 0)"
    using apart_shadows [OF S] l u unfolding ledger_def by blast
qed

section \<open>One iteration of the trigger thread\<close>

text \<open>
  The stock has an order next in its ring, and it is not a sell order on shares a pending sale has
  promised.
\<close>

definition due :: "server \<Rightarrow> addr \<Rightarrow> bool" where
  "due st s \<longleftrightarrow> (case Option.bind (t_curr st s) (trg st) of None \<Rightarrow> False
     | Some tr \<Rightarrow> \<not> (t_type tr = CHR ''s'' \<and> promised (account_of st (t_user tr)) (stockID (stk st s))))"

lemma next_order:
  assumes ok: "server_ok st" and c: "t_curr st s = Some a"
  obtains tr where "trg st a = Some tr" "t_stock tr = s"
proof -
  obtain bs where bs: "ring_list (trig_ring st s) bs" "set bs = watchers (trg st) s"
    using ok_rings [OF ok] by (auto simp: rings_ok_def)
  then have "a \<in> set bs" using c by (cases bs) (auto simp: ring_list_def trig_ring_def)
  then show thesis using bs(2) that by (auto simp: watchers_def)
qed

lemma books_later: "books e K U n st \<Longrightarrow> books e K U (Suc n) st"
  using small_mono by (auto simp: books_def list_all_iff)

lemma account_cong:
  "usr st' = usr st \<Longrightarrow> trg st' = trg st \<Longrightarrow> (\<And>s. stockID (stk st' s) = stockID (stk st s)) \<Longrightarrow> account_of st' v = account_of st v"
  by (simp add: account_of_def pending_of_def)

lemma books_cong:
  assumes "books e K U n st" "server_ok st'" "usr st' = usr st" "u_fresh st' = u_fresh st" "trg st' = trg st"
    "\<And>s. stockID (stk st' s) = stockID (stk st s)" "prices_within K e st'"
  shows "books e K U n st'"
  using assms(1,2,4,7) account_cong [OF assms(3,5,6)] by (simp add: books_def)

lemma ledger_cong:
  assumes "usr st' = usr st" "u_fresh st' = u_fresh st" "trg st' = trg st" "\<And>s. stockID (stk st' s) = stockID (stk st s)"
  shows "ledger S dbs st' = ledger S dbs st"
  using account_cong [OF assms(1,3,4)] assms(1,2) by (simp add: ledger_def stranger_def)

lemma follows_idle:
  assumes "usr st' = usr st" "u_fresh st' = u_fresh st" "trg st' = trg st" "\<And>s. stockID (stk st' s) = stockID (stk st s)"
    "db_sent st' = db_sent st"
  shows "follows S st st'"
  using ledger_cong [OF assms(1-4)] assms(5) by (simp add: follows_def)

lemma pass_step_filed:
  assumes b: "books e K U n st" and r: "narrow K (Suc n)" and S: "apart S" and l: "ledger S dbs st" and t: "tids_ok st"
    and hk: "hooked st" and due: "due st s" and p: "1 \<le> p" "p \<le> K"
  shows "books e K U (Suc n) (fst (snd (pass_step e busy s p start st))) \<and>
    follows S st (fst (snd (pass_step e busy s p start st))) \<and> tids_ok (fst (snd (pass_step e busy s p start st))) \<and>
    hooked (fst (snd (pass_step e busy s p start st)))"
proof -
  define st1 where "st1 = put_trig_ring s (ring_advance (trig_ring st s)) st"
  note d = booksD [OF b]
  have f: "usr st1 = usr st" "u_fresh st1 = u_fresh st" "trg st1 = trg st" "stockID (stk st1 x) = stockID (stk st x)"
      "db_sent st1 = db_sent st" "stk st1 = stk st" for x
    by (simp_all add: st1_def)
  obtain a where c: "t_curr st s = Some a" using due by (cases "t_curr st s") (auto simp: due_def)
  obtain tr where tr: "trg st a = Some tr" "t_stock tr = s" by (rule next_order [OF d(1) c])
  with hooked_found [OF d(1) hk tr(1)] have a: "trg st a = Some tr" "t_stock tr = s" "getTrigger st (t_user tr) s (t_type tr) = Some a"
    by simp_all
  have np: "t_type tr = CHR ''s'' \<Longrightarrow> \<not> promised (account_of st (t_user tr)) (stockID (stk st s))"
    using due c tr(1) by (simp add: due_def)
  have g: "getTrigger st1 v s ty = getTrigger st v s ty" and ac: "account_of st1 v = account_of st v" for v ty
    using f account_cong [OF f(1,3,4)] by (simp_all add: getTrigger_def)
  have ok1: "server_ok st1" unfolding st1_def by (rule advance_ok [OF d(1)]) (simp add: c)
  have b1: "books e K U n st1"
    by (rule books_cong [OF b ok1 f(1-4)]) (rule prices_cong [OF f(6) d(4)])
  have l1: "ledger S dbs st1" using l ledger_cong [OF f(1-4)] by simp
  have t1: "tids_ok st1" by (rule tids_cong [OF f(3) t])
  have step: "fst (snd (pass_step e busy s p start st)) = (if busy then st1 else fst (fire e s p a tr st1))"
    by (simp add: pass_step_def c Let_def st1_def [symmetric] f(3) a(1) split_beta)
  have k: "fst (snd (pass_step e busy s p start st)) = st1 \<or>
      books e K U (Suc n) (fst (fire e s p a tr st1)) \<and> follows S st1 (fst (fire e s p a tr st1)) \<and>
      fst (snd (pass_step e busy s p start st)) = fst (fire e s p a tr st1)"
  proof (cases busy)
    case False
    have bg: "bigint (t_transID tr)" using t a(1) by (simp add: tids_ok_def)
    have a1: "trg st1 a = Some tr" by (simp add: f(3) a(1))
    consider "t_type tr = CHR ''b''" | "t_type tr = CHR ''s''" using linked_known(3) [OF d(1) a(1)] by blast
    then have "books e K U (Suc n) (fst (fire e s p a tr st1)) \<and> follows S st1 (fst (fire e s p a tr st1))"
    proof cases
      case 1
      show ?thesis by (rule fired_buy [OF b1 r S l1 a1 a(2) 1 bg _ p(1)]) (use a(3) 1 g in simp)
    next
      case 2
      show ?thesis by (rule fired_sell [OF b1 r S l1 a1 a(2) 2 bg _ p]) (use a(3) 2 g np ac f(4) in simp_all)
    qed
    then show ?thesis using False step by simp
  next
    case True
    then show ?thesis using step by simp
  qed
  moreover have "tids_ok (fst (snd (pass_step e busy s p start st)))" using step t1 tids_fire by simp
  moreover have "hooked (fst (snd (pass_step e busy s p start st)))"
  proof -
    have h1: "hooked st1" unfolding st1_def by (rule hooked_steps(16) [OF hk])
    have "trg st1 a = Some tr" by (simp add: f(3) a(1))
    moreover have "getTrigger st1 (t_user tr) s (t_type tr) = Some a" using a(3) g by simp
    ultimately have "shadows_none (account_of st1 (t_user tr)) (t_type tr) (stockID (stk st1 s))"
      using linked_order(9) [OF b1 S l1] a(2) by blast
    from hooked_fire [OF ok1 h1 _ a(2) this] show ?thesis using step h1 by (simp add: f(3) a(1))
  qed
  moreover have "follows S st x" if "follows S st1 x" for x
    using that ledger_cong [OF f(1-4), of S] by (simp add: follows_def f(5))
  moreover have "follows S st st1" by (rule follows_idle [OF f(1-5)])
  ultimately show ?thesis using books_later [OF b1] by auto
qed

lemma requote_filed:
  assumes b: "books e K U n st" and t: "tids_ok st" and h: "hooked st"
  shows "books e K U (Suc n) (refresh_quote e c s st) \<and> follows S st (refresh_quote e c s st) \<and>
    tids_ok (refresh_quote e c s st) \<and> hooked (refresh_quote e c s st)"
proof -
  note d = booksD [OF b]
  have "books e K U n (refresh_quote e c s st)"
    using ok_refresh_quote [OF d(1)] prices_quote(2) [OF d(4)] by (intro books_cong [OF b]) simp_all
  moreover have "follows S st (refresh_quote e c s st)" by (rule follows_idle) simp_all
  ultimately show ?thesis using books_later tids_steps(15) [OF t] hooked_steps(14) [OF h] by blast
qed

end
