(* ===== verification/Lifetime.thy ===== *)
theory Lifetime
  imports Hooked Connection
begin

text \<open>
  The databases over the life of a server: new users arrive, commands run and the trigger thread fires
  orders, in any order, from the empty tables on (\<open>database_mirrors\<close>).
\<close>

section \<open>A new user\<close>

text \<open>
  A user the server does not know has no rows: \<open>main\<close> empties the tables, and every user that gets
  rows is known. The three queries of \<open>addUser\<close> then return none.
\<close>

lemma load_nothing:
  assumes "rows e = (\<lambda>_. Some [])"
  shows "load_user e u uid st = db_write [SelectUserBal uid] (dbID (usr st u))
    (db_write [SelectUserStock uid] (dbID (usr st u)) (db_write [SelectUserTrig uid] (dbID (usr st u)) st))"
  by (simp add: load_user_def db_read_def Let_def assms)

lemma new_user_desk [simp]: "userID (new_user uid) = uid" "dbID (new_user uid) = userSort (Some uid)"
  by (simp_all add: new_user_def)

lemma link_frames [simp]:
  "stk (link_user st uid) = stk st" "db_sent (link_user st uid) = db_sent st"
  "usr (link_user st uid) = (usr st)(u_fresh st := new_user uid)" "u_fresh (link_user st uid) = Suc (u_fresh st)"
  "trg (link_user st uid) = trg st"
  by (simp_all add: link_user_def)

lemma link_account:
  assumes "server_ok st"
  shows "account_of (link_user st uid) (u_fresh st) = \<lparr>a_bal = 0, a_pend = None, a_held = Map.empty, a_order = Map.empty\<rparr>"
proof -
  have "usr (link_user st uid) (u_fresh st) = new_user uid" by (simp add: link_user_def)
  moreover have "held_of empty_trie = Map.empty" by (simp add: fun_eq_iff held_of_path empty_trie_def look_leaf)
  moreover have "orders_of h empty_trie = Map.empty" for h by (simp add: fun_eq_iff orders_of_path empty_trie_def look_leaf)
  ultimately show ?thesis by (simp add: account_of_def new_user_def pending_of_def)
qed

lemma link_others: "v \<noteq> u_fresh st \<Longrightarrow> account_of (link_user st uid) v = account_of st v"
  by (simp add: link_user_def account_of_def pending_of_def)

lemma link_tree: "v \<noteq> u_fresh st \<Longrightarrow> tTree (usr (link_user st uid) v) = tTree (usr st v)"
  by (simp add: link_user_def)

lemma unknown_stranger:
  assumes "server_ok st" "user_key uid" "getUser st uid = None"
  shows "stranger st uid"
  using found_user [OF assms(1) _ _ assms(2)] assms(3) by (auto simp: stranger_def)

lemma absent_mirrors:
  assumes "absent tb uid"
  shows "mirrors (run_sql (InsertAcct uid ''0.00'') tb) uid \<lparr>a_bal = 0, a_pend = None, a_held = Map.empty, a_order = Map.empty\<rparr>"
  using assms by (simp add: absent_def mirrors_def zero_text)

lemma link_ledger:
  assumes ok: "server_ok st" and uid: "validUserID (Some uid)" and none: "getUser st uid = None" and l: "ledger S dbs st"
  shows "char_col 10 uid"
    "ledger S (dbs(userSort (Some uid) := run_sql (InsertAcct uid ''0.00'') (dbs (userSort (Some uid))))) (link_user st uid)"
proof -
  let ?u = "u_fresh st" and ?db = "userSort (Some uid)" and ?l = "link_user st uid"
  let ?q = "InsertAcct uid ''0.00''" and ?dbs = "dbs(userSort (Some uid) := run_sql (InsertAcct uid ''0.00'') (dbs (userSort (Some uid))))"
  have str: "stranger st uid" using unknown_stranger [OF ok valid_key [OF uid] none] .
  have len: "length uid \<le> 10" using uid by (simp add: validUserID_def split: if_splits)
  show "char_col 10 uid"
  proof -
    have "\<not> valid_user_char (CHR 0x27)" by code_simp
    then show ?thesis using uid len by (auto simp: validUserID_def char_col_def list_all_iff split: if_splits)
  qed
  have other: "mirrors (?dbs i) u a = mirrors (dbs i) u a \<and> absent (?dbs i) u = absent (dbs i) u" if "u \<noteq> uid" for i u a
    using mirrors_other [of uid "[?q]" u] that by (cases "i = ?db") simp_all
  have "length (userID (usr ?l v)) \<le> 10 \<and> filed S (?dbs (dbID (usr ?l v))) (userID (usr ?l v)) (account_of ?l v)"
    if v: "v < u_fresh ?l" for v
  proof (cases "v = ?u")
    case True
    have "absent (dbs ?db) uid" using l str by (simp add: ledger_def)
    from absent_mirrors [OF this] True len show ?thesis
      by (simp add: filed_def new_user_def link_account [OF ok] del: link_frames(3)) (simp add: new_user_def)
  next
    case False
    then have v': "v < u_fresh st" using v by simp
    then have "userID (usr st v) \<noteq> uid" using str by (simp add: stranger_def)
    then show ?thesis using l v' False other link_others [OF False] by (simp add: ledger_def filed_def del: fun_upd_apply) simp
  qed
  moreover have "absent (?dbs i) u" if "stranger ?l u" for i u
  proof -
    have "u \<noteq> uid" using that by (auto simp: stranger_def new_user_def)
    moreover have "usr ?l w = usr st w" if "w < u_fresh st" for w using that by simp
    then have "stranger st u" using that unfolding stranger_def by (metis less_SucI link_frames(4))
    ultimately show ?thesis using other l by (simp add: ledger_def)
  qed
  ultimately show "ledger S ?dbs ?l" unfolding ledger_def by blast
qed

text \<open>The state after a message for a user, known or not.\<close>

lemma follows_arrival:
  assumes ok: "server_ok st" and uid: "validUserID (Some uid)" and rows: "rows e = (\<lambda>_. Some [])" and l: "ledger S dbs st"
  shows "follows S st (enqueue_command e sock tid cmd uid co st) \<and>
    u_fresh st \<le> u_fresh (enqueue_command e sock tid cmd uid co st) \<and> stk (enqueue_command e sock tid cmd uid co st) = stk st \<and>
    trg (enqueue_command e sock tid cmd uid co st) = trg st \<and>
    (\<forall>v < u_fresh st. tTree (usr (enqueue_command e sock tid cmd uid co st) v) = tTree (usr st v)) \<and>
    (\<forall>v < u_fresh st. account_of (enqueue_command e sock tid cmd uid co st) v = account_of st v) \<and>
    (\<forall>v. u_fresh st \<le> v \<and> v < u_fresh (enqueue_command e sock tid cmd uid co st) \<longrightarrow>
      account_of (enqueue_command e sock tid cmd uid co st) v = \<lparr>a_bal = 0, a_pend = None, a_held = Map.empty, a_order = Map.empty\<rparr>)"
proof (cases "getUser st uid")
  case (Some u)
  define st' where "st' = enqueue_command e sock tid cmd uid co st"
  have "\<exists>q av. st' = (upd_user u (\<lambda>x. x\<lparr>commList := q\<rparr>) st)\<lparr>avail := av\<rparr>"
    unfolding st'_def enqueue_command_def Some option.case Let_def prod.case split_beta fst_conv snd_conv by blast
  then have "db_sent st' = db_sent st" "u_fresh st' = u_fresh st" "stk st' = stk st" "trg st' = trg st" "account_of st' v = account_of st v"
    "dbID (usr st' v) = dbID (usr st v)" "userID (usr st' v) = userID (usr st v)" "tTree (usr st' v) = tTree (usr st v)" for v
    using account_commList by auto
  then show ?thesis unfolding st'_def [symmetric] by (auto simp: follows_def ledger_def stranger_def)
next
  case None
  define st' where "st' = enqueue_command e sock tid cmd uid co st"
  let ?l = "link_user st uid" and ?u = "u_fresh st" and ?db = "userSort (Some uid)"
  define st1 where "st1 = db_write [InsertAcct uid ''0.00''] ?db (load_user e ?u uid ?l)"
  have db: "dbID (usr ?l ?u) = ?db" "dbID (usr (load_user e ?u uid ?l) ?u) = ?db"
    by (simp_all add: new_user_def load_nothing [OF rows] db_write_def)
  have "\<exists>q av. st' = (upd_user ?u (\<lambda>x. x\<lparr>commList := q\<rparr>) st1)\<lparr>avail := av\<rparr>"
    unfolding st'_def enqueue_command_def None option.case addUser_eq [OF ok valid_key [OF uid] None] prod.case Let_def split_beta
      db(2) fst_conv snd_conv st1_def [symmetric] by blast
  then have st': "db_sent st' = db_sent st1" "u_fresh st' = u_fresh st1" "stk st' = stk st1" "account_of st' v = account_of st1 v"
    "dbID (usr st' v) = dbID (usr st1 v)" "userID (usr st' v) = userID (usr st1 v)" "trg st' = trg st1"
    "tTree (usr st' v) = tTree (usr st1 v)" for v
    using account_commList by auto
  have st1: "db_sent st1 = db_sent st @ [(?db, [SelectUserTrig uid]), (?db, [SelectUserStock uid]), (?db, [SelectUserBal uid]),
      (?db, [InsertAcct uid ''0.00''])]" "u_fresh st1 = Suc ?u" "stk st1 = stk st" "usr st1 = usr ?l" "account_of st1 v = account_of ?l v"
      "trg st1 = trg st" for v
    by (simp_all add: st1_def load_nothing [OF rows] db_write_def db [unfolded link_frames(3) fun_upd_same] account_of_def pending_of_def)
  have "follows S st st'" unfolding follows_def
  proof (intro exI conjI allI impI)
    show "db_sent st' = db_sent st @ [(?db, [SelectUserTrig uid]), (?db, [SelectUserStock uid]), (?db, [SelectUserBal uid]),
      (?db, [InsertAcct uid ''0.00''])]" by (simp only: st'(1) st1(1))
    fix dbs assume "ledger S dbs st"
    note k = link_ledger [OF ok uid None this]
    then show "run_requests [(?db, [SelectUserTrig uid]), (?db, [SelectUserStock uid]), (?db, [SelectUserBal uid]),
        (?db, [InsertAcct uid ''0.00''])] dbs = Some (dbs(?db := run_sql (InsertAcct uid ''0.00'') (dbs ?db)))"
      by (simp add: run_request_def zero_text)
    from k(2) show "ledger S (dbs(?db := run_sql (InsertAcct uid ''0.00'') (dbs ?db))) st'"
      by (simp only: ledger_def stranger_def st' st1 link_frames(4))
  qed
  then show ?thesis
    unfolding st'_def [symmetric] by (auto simp: st' st1 link_others link_tree link_account [OF ok] less_Suc_eq simp del: link_frames(3))
qed

section \<open>Any sequence of arrivals, commands and firings\<close>

text \<open>
  A message of a user for whom \<open>enqueue_command\<close> finds or adds the user; a command a command
  thread has taken from the queue of a listed user, whatever the command; the trigger thread
  refreshing the quote of a stock; and one iteration of its pass over the orders of a stock, at
  the price it has read. Left out is the iteration at an order that is not \<open>due\<close>: a sell order on
  shares that a pending sale has promised (\<open>sold_twice\<close>).
\<close>

datatype event = Arrival nat string string string "string option" | Turn ctx | Requote ctx addr | Look bool addr int addr

fun event_step :: "env \<Rightarrow> event \<Rightarrow> server \<Rightarrow> server" where
  "event_step e (Arrival sock tid cmd uid co) st = enqueue_command e sock tid cmd uid co st"
| "event_step e (Turn c) st = (if c_user c < u_fresh st then exec_command e c st else st)"
| "event_step e (Requote c s) st = refresh_quote e c s st"
| "event_step e (Look busy s p start) st = (if due st s then fst (snd (pass_step e busy s p start st)) else st)"

fun legal :: "int \<Rightarrow> string list \<Rightarrow> event \<Rightarrow> bool" where
  "legal K S (Arrival sock tid cmd uid co) \<longleftrightarrow> validUserID (Some uid)"
| "legal K S (Turn c) \<longleftrightarrow> fair K (Suc (c_user c)) c \<and> fits_columns S c"
| "legal K S (Requote c s) \<longleftrightarrow> True"
| "legal K S (Look busy s p start) \<longleftrightarrow> 1 \<le> p \<and> p \<le> K"

text \<open>The requests sent since \<open>k\<close> of them had been executed, on the tables \<open>dbs0\<close> of then.\<close>

definition filed_books :: "env \<Rightarrow> int \<Rightarrow> string list \<Rightarrow> (int \<Rightarrow> tables) \<Rightarrow> nat \<Rightarrow> nat \<Rightarrow> server \<Rightarrow> bool" where
  "filed_books e K S dbs0 k n st \<longleftrightarrow> books e K (u_fresh st) n st \<and> tids_ok st \<and> hooked st \<and> k \<le> length (db_sent st) \<and>
     (case run_requests (drop k (db_sent st)) dbs0 of None \<Rightarrow> False | Some dbs \<Rightarrow> ledger S dbs st)"

lemma run_requests_append:
  "run_requests (xs @ ys) dbs = Option.bind (run_requests xs dbs) (run_requests ys)"
proof (induction xs arbitrary: dbs)
  case (Cons x xs)
  then show ?case by (cases "run_request x dbs") simp_all
qed simp

lemma filed_books_follows:
  assumes b: "filed_books e K S dbs0 k n st" and n: "books e K (u_fresh st') m st'" "tids_ok st'" "hooked st'"
    and f: "\<And>dbs. ledger S dbs st \<Longrightarrow> follows S st st'"
  shows "filed_books e K S dbs0 k m st'"
proof -
  obtain dbs where k: "k \<le> length (db_sent st)" and dbs: "run_requests (drop k (db_sent st)) dbs0 = Some dbs" "ledger S dbs st"
    using b by (auto simp: filed_books_def split: option.splits)
  obtain D dbs' where "db_sent st' = db_sent st @ D" "run_requests D dbs = Some dbs'" "ledger S dbs' st'"
    using f [OF dbs(2)] dbs(2) unfolding follows_def by blast
  with k dbs(1) n show ?thesis by (simp add: filed_books_def run_requests_append)
qed

lemma small_empty: "0 \<le> K \<Longrightarrow> small K n \<lparr>a_bal = 0, a_pend = None, a_held = Map.empty, a_order = Map.empty\<rparr>"
  by (simp add: small_def sound_def)

lemma arrival_books:
  assumes b: "books e K (u_fresh st) n st" and uid: "validUserID (Some uid)" and rows: "rows e = (\<lambda>_. Some [])" and l: "ledger S dbs st"
  shows "books e K (u_fresh (enqueue_command e sock tid cmd uid co st)) (Suc n) (enqueue_command e sock tid cmd uid co st)"
proof -
  define st' where "st' = enqueue_command e sock tid cmd uid co st"
  note d = booksD [OF b] and a = follows_arrival [OF booksD(1) [OF b] uid rows l, of sock tid cmd co, folded st'_def]
  have "rows_ok e (length (db_sent st))" by (simp add: rows_ok_def rows)
  then have "server_ok st'" unfolding st'_def
    by - (rule enqueue_appends [OF d(1) uid, where e = e and sock = sock and tid = tid and cmd = cmd and co = co], assumption+)
  moreover have "small K (Suc n) (account_of st' v)" if "v < u_fresh st'" for v
    using a that small_mono [OF d(5) d(3)] small_empty [OF d(3)] by (cases "v < u_fresh st") simp_all
  moreover have "prices_within K e st'" using a d(4) by (simp add: prices_within_def)
  ultimately show ?thesis unfolding st'_def [symmetric] using d(3) by (simp add: books_def list_all_iff)
qed

lemma event_filed:
  assumes b: "filed_books e K S dbs0 k n st" and r: "narrow K (Suc n)" and l: "legal K S ev" and S: "apart S" and rows: "rows e = (\<lambda>_. Some [])"
  shows "filed_books e K S dbs0 k (Suc n) (event_step e ev st)"
proof -
  obtain dbs where bk: "books e K (u_fresh st) n st" and t: "tids_ok st" and h: "hooked st" and dbs: "ledger S dbs st"
    using b by (auto simp: filed_books_def split: option.splits)
  note d = booksD [OF bk]
  have idle: "filed_books e K S dbs0 k (Suc n) st" using b books_later [OF bk] by (simp add: filed_books_def)
  have keep: "filed_books e K S dbs0 k (Suc n) st'" if "books e K (u_fresh st) (Suc n) st' \<and> follows S st st' \<and> tids_ok st' \<and> hooked st'" for st'
    using filed_books_follows [OF b, of st' "Suc n"] that booksD(2) [of e K "u_fresh st" "Suc n" st'] by auto
  show ?thesis
  proof (cases ev)
    case (Arrival sock tid cmd uid co)
    with l have uid: "validUserID (Some uid)" by simp
    have "tids_ok (event_step e ev st)" using follows_arrival [OF d(1) uid rows dbs, of sock tid cmd co] t
      by (intro tids_cong [OF _ t]) (simp add: Arrival)
    moreover have "hooked (event_step e ev st)" using follows_arrival [OF d(1) uid rows dbs, of sock tid cmd co] h linked_known(1) [OF d(1)]
      by (auto simp: hooked_def Arrival)
    moreover note follows_arrival [OF d(1) uid rows] arrival_books [OF bk uid rows dbs]
    ultimately show ?thesis
      unfolding Arrival event_step.simps by (intro filed_books_follows [OF b]) blast+
  next
    case (Turn c)
    show ?thesis
    proof (cases "c_user c < u_fresh st")
      case True
      then have f: "fair K (u_fresh st) c" and cl: "fits_columns S c" using l Turn by (simp_all add: fair_def)
      have "bigint (c_tid c)" using cl by (simp add: fits_columns_def)
      with keep exec_books [OF bk narrow_roomy [OF r] f] follows_exec [OF bk r f S cl dbs] tids_exec [OF t]
        hooked_turn [OF bk h True S dbs cl] True show ?thesis
        by (simp add: Turn)
    qed (simp add: Turn idle)
  next
    case (Requote c s)
    show ?thesis using keep [OF requote_filed [OF bk t h]] by (simp add: Requote)
  next
    case (Look busy s p start)
    with l have p: "1 \<le> p" "p \<le> K" by simp_all
    show ?thesis using keep [OF pass_step_filed [OF bk r S dbs t h _ p]] idle by (simp add: Look)
  qed
qed

interpretation filing: counted_run "event_step e" "filed_books e K S dbs0 k"
  "\<lambda>ev. legal K S ev \<and> apart S \<and> rows e = (\<lambda>_. Some [])" "\<lambda>n. 0 \<le> K \<longrightarrow> narrow K n" for e K S dbs0 k
proof
  show "filed_books e K S dbs0 k (Suc n) (event_step e ev st)"
    if "filed_books e K S dbs0 k n st" "0 \<le> K \<longrightarrow> narrow K (Suc n)"
      "legal K S ev \<and> apart S \<and> rows e = (\<lambda>_. Some [])" for n st ev
    using event_filed that booksD(3) by (metis filed_books_def)
  show "0 \<le> K \<longrightarrow> narrow K m" if "0 \<le> K \<longrightarrow> narrow K n" "m \<le> n" for n m
    using that cap_mono [of K m n] by (auto simp: narrow_def)
qed


definition no_rows :: tables where
  "no_rows = \<lparr>t_accounts = [], t_holdings = [], t_orders = [], t_transactions = []\<rparr>"

abbreviation first_env :: env where
  "first_env \<equiv> sample_env\<lparr>rows := (\<lambda>_. Some [])\<rparr>"

abbreviation first_events :: "event list" where
  "first_events \<equiv> [Arrival 3 ''1'' ''ADD'' ''A1b2C3d4E5'' (Some ''10.00''), Turn (sample_ctx ''ADD'' [''10.00'']),
     Turn (sample_ctx ''BUY'' [''ABC'', ''10.00'']), Arrival 4 ''2'' ''QUOTE'' ''B1b2C3d4E5'' (Some ''ABC''),
     Turn (sample_ctx ''COMMIT_BUY'' []), Turn (sample_ctx ''SET_SELL_AMOUNT'' [''ABC'', ''2.50'']),
     Turn (sample_ctx ''SET_SELL_TRIGGER'' [''ABC'', ''2.50'']), Requote (sample_ctx ''SET_SELL_AMOUNT'' []) 0, Look False 0 300 0]"


end
