(* ===== verification/Restoring.thy ===== *)
theory Restoring
  imports Lifetime
begin

text \<open>
  The way back: what the server reads from the database when it meets a user it does not know
  (the tail of \<open>addUser\<close>), with the answers of a database whose rows are the account of that user.
\<close>

section \<open>What the queries return\<close>

text \<open>The texts of the columns: a \<open>numeric(15,2)\<close> has two decimals.\<close>

definition numeric_out :: "int \<Rightarrow> string" where
  "numeric_out p = (let n = nat \<bar>p\<bar> in (if p < 0 then ''-'' else []) @ show_nat (n div 100) @ CHR ''.'' #
     [digit_char (n mod 100 div 10), digit_char (n mod 10)])"

lemma numeric_out_price: "0 \<le> p \<Longrightarrow> p < 10 ^ 15 \<Longrightarrow> str2price (Some (numeric_out p)) = p"
  using price2str_nonneg [of p] str2price_price2str [of p] by (simp add: numeric_out_def Let_def)

definition order_texts :: "order_row \<Rightarrow> string list" where
  "order_texts r = [o_user r, show_long (o_trans r), o_stock r, [o_type r], numeric_out (o_reserved r), numeric_out (o_value r)]"

fun answer :: "sql \<Rightarrow> tables \<Rightarrow> string list list" where
  "answer (SelectUserBal uid) tb = map (\<lambda>b. [numeric_out b]) (balance_rows tb uid)"
| "answer (SelectUserStock uid) tb =
     map (\<lambda>(u, s, n). [u, s, show_long n]) (filter (\<lambda>(u, s, n). u = uid) (t_holdings tb))"
| "answer (SelectUserTrig uid) tb =
     map order_texts
       (filter (\<lambda>r. o_user r = uid) (t_orders tb))"
| "answer _ tb = []"

text \<open>The three queries of \<open>addUser\<close> are the next ones to be sent.\<close>

definition answered :: "env \<Rightarrow> nat \<Rightarrow> string \<Rightarrow> tables \<Rightarrow> bool" where
  "answered e n uid tb \<longleftrightarrow> rows e n = Some (answer (SelectUserTrig uid) tb) \<and>
     rows e (n + 1) = Some (answer (SelectUserStock uid) tb) \<and> rows e (n + 2) = Some (answer (SelectUserBal uid) tb)"

section \<open>Lists with at most one entry for each key\<close>

abbreviation at :: "'k \<Rightarrow> ('k \<times> 'v) list \<Rightarrow> 'v list" where
  "at k xs \<equiv> map snd (filter (\<lambda>p. fst p = k) xs)"

lemma map_of_at: "map_of xs k = (case at k xs of [] \<Rightarrow> None | v # _ \<Rightarrow> Some v)"
  by (induction xs) auto

lemma distinct_at: "(\<And>k. length (at k xs) \<le> 1) \<Longrightarrow> distinct (map fst xs)"
proof (induction xs)
  case (Cons x xs)
  have "at k xs \<noteq> [] \<longrightarrow> fst x \<noteq> k" for k using Cons.prems [of k] by (auto split: if_splits)
  then have "fst x \<notin> fst ` set xs" by (force simp: filter_empty_conv)
  moreover have "length (at k xs) \<le> 1" for k using Cons.prems [of k] by (auto split: if_splits)
  ultimately show ?case using Cons.IH by simp
qed simp

section \<open>Loading\<close>

definition money :: "order_row \<Rightarrow> bool" where
  "money r \<longleftrightarrow> 0 \<le> o_reserved r \<and> o_reserved r < 10 ^ 15 \<and> 0 \<le> o_value r \<and> o_value r < 10 ^ 15"

lemma load_triggers_turns:
  assumes "turns l u a st" "u < u_fresh l" "distinct (map (\<lambda>r. (o_type r, o_stock r)) rs)"
    "\<And>r. r \<in> set rs \<Longrightarrow> money r \<and> validStockID (Some (o_stock r)) \<and> o_type r \<in> {CHR ''b'', CHR ''s''} \<and> a_order a (o_type r, o_stock r) = None"
  shows "turns l u (a\<lparr>a_order := a_order a ++ map_of (map (\<lambda>r. ((o_type r, o_stock r), (o_reserved r, o_value r))) rs)\<rparr>)
    (load_triggers u (map order_texts rs) st)"
  using assms(1,3,4)
proof (induction rs arbitrary: a st)
  case (Cons r rs)
  let ?k = "(o_type r, o_stock r)" and ?p = "(o_reserved r, o_value r)"
  have r: "validStockID (Some (o_stock r))" "o_type r \<in> {CHR ''b'', CHR ''s''}" "a_order a ?k = None"
    and m: "str2price (Some (numeric_out (o_reserved r))) = o_reserved r" "str2price (Some (numeric_out (o_value r))) = o_value r"
    using Cons.prems(3) [of r] by (simp_all add: money_def numeric_out_price)
  obtain st1 s where st1: "ensureStock st (o_stock r) = (st1, Some s)" "turns l u a st1" "s < s_fresh st1" "stockID (stk st1 s) = o_stock r"
    using turns_ensure [OF Cons.prems(1) assms(2) r(1)] by metis
  have d: "server_ok st1" "u < u_fresh st1" "account_of st1 u = a" using turnsD(1,2,6) [OF st1(2)] assms(2) by simp_all
  have none: "getTrigger st1 u s (o_type r) = None"
  proof (rule ccontr)
    assume "getTrigger st1 u s (o_type r) \<noteq> None"
    then obtain t where t: "look (tTree (usr st1 u)) (trigger_path (o_type r) (o_stock r)) = Some t"
      using getTrigger_look [OF d(1) st1(3) r(2)] st1(4) by auto
    then have "trg st1 t \<noteq> None" using ok_tree [OF d(1,2)] unfolding tree_ok_def by blast
    then have "a_order (account_of st1 u) ?k \<noteq> None" using t r(1,2) by (auto simp: orders_of_path)
    with r(3) d(3) show False by simp
  qed
  note t = turns_order_new' [OF st1(2) assms(2) st1(3,4) r(2) none, of "fst ?p" "snd ?p" "show_long (o_trans r)"]
  let ?st2 = "fst (addTrigger st1 u (show_long (o_trans r)) s (o_type r) (fst ?p) (snd ?p))"
  let ?rest = "map_of (map (\<lambda>r. ((o_type r, o_stock r), (o_reserved r, o_value r))) rs)"
  have "?k \<notin> dom ?rest" using Cons.prems(2) by (auto simp: dom_map_of_conv_image_fst)
  then have upd: "(a_order a)(?k \<mapsto> ?p) ++ ?rest = (a_order a ++ ?rest)(?k \<mapsto> ?p)"
    by (simp add: map_add_upd_left)
  have "turns l u ((a\<lparr>a_order := (a_order a)(?k \<mapsto> ?p)\<rparr>)\<lparr>a_order := a_order (a\<lparr>a_order := (a_order a)(?k \<mapsto> ?p)\<rparr>) ++ ?rest\<rparr>)
    (load_triggers u (map order_texts rs) ?st2)"
    using t Cons.prems(2,3) by (intro Cons.IH) (auto simp: image_iff)
  then show ?case by (simp add: order_texts_def [of r] st1(1) m upd del: fun_upd_apply)
qed (simp add: assms)

lemma load_stocks_turns:
  assumes "turns l u a st" "u < u_fresh l" "distinct (map fst hs)"
    "\<And>s n. (s, n) \<in> set hs \<Longrightarrow> validStockID (Some s) \<and> 0 \<le> n \<and> n < 2 ^ 63 \<and> a_held a s = None"
  shows "turns l u (a\<lparr>a_held := a_held a ++ map_of hs\<rparr>) (load_stocks u (map (\<lambda>(s, n). [uid, s, show_long n]) hs) st)"
  using assms(1,3,4)
proof (induction hs arbitrary: a st)
  case (Cons h hs)
  obtain sid n where h: "h = (sid, n)" by (cases h)
  have r: "validStockID (Some sid)" "0 \<le> n" "n < 2 ^ 63" "a_held a sid = None" using Cons.prems(3) [of sid n] by (simp_all add: h)
  obtain st1 s where st1: "ensureStock st sid = (st1, Some s)" "turns l u a st1" "s < s_fresh st1" "stockID (stk st1 s) = sid"
    using turns_ensure [OF Cons.prems(1) assms(2) r(1)] by metis
  have d: "server_ok st1" "u < u_fresh st1" "account_of st1 u = a" using turnsD(1,2,6) [OF st1(2)] assms(2) by simp_all
  have num: "strtol10 (show_long n) = n" using strtol10_show_nat [of "nat n"] r(2,3) by (simp add: show_long_def)
  have none: "getUserStock st1 u s = None" using holding_known [OF d(1) st1(3,4), of u] r(4) d(3) by simp
  obtain st2 where st2: "addUserStock st1 u s n = (st2, Some \<lparr>num = n, us_stock = s\<rparr>)"
      "turns st1 u ((account_of st1 u)\<lparr>a_held := (held_of (usTree (usr st1 u)))(stockID (stk st1 s) \<mapsto> n)\<rparr>) st2"
    using turns_hold_new [OF d(1,2) st1(3) none, of n] by metis
  have "held_of (usTree (usr st1 u)) = a_held a" using d(3) by auto
  then have t: "turns l u (a\<lparr>a_held := (a_held a)(sid \<mapsto> n)\<rparr>) st2" using turns_chain [OF st1(2)] st2(2) d(3) st1(4) by simp
  have "sid \<notin> dom (map_of hs)" using Cons.prems(2) by (auto simp: dom_map_of_conv_image_fst h)
  then have m: "(a_held a)(sid \<mapsto> n) ++ map_of hs = (a_held a ++ map_of hs)(sid \<mapsto> n)" by (simp add: map_add_upd_left)
  have "turns l u ((a\<lparr>a_held := (a_held a)(sid \<mapsto> n)\<rparr>)\<lparr>a_held := a_held (a\<lparr>a_held := (a_held a)(sid \<mapsto> n)\<rparr>) ++ map_of hs\<rparr>)
    (load_stocks u (map (\<lambda>(s, n). [uid, s, show_long n]) hs) st2)"
    using t Cons.prems(2,3) by (intro Cons.IH) (auto simp: image_iff h)
  then show ?case by (simp add: st1(1) st2(1) num h m del: fun_upd_apply)
qed (simp add: assms)

section \<open>The account comes back\<close>

lemma rows_distinct:
  assumes "mirrors tb uid a"
  shows "distinct (map (\<lambda>r. (o_type r, o_stock r)) (filter (\<lambda>r. o_user r = uid) (t_orders tb)))"
    "map_of (map (\<lambda>r. ((o_type r, o_stock r), (o_reserved r, o_value r))) (filter (\<lambda>r. o_user r = uid) (t_orders tb))) = a_order a"
    "distinct (map fst (map snd (filter (\<lambda>h. fst h = uid) (t_holdings tb))))"
    "map_of (map snd (filter (\<lambda>h. fst h = uid) (t_holdings tb))) = a_held a"
proof -
  let ?os = "map (\<lambda>r. ((o_type r, o_stock r), (o_reserved r, o_value r))) (filter (\<lambda>r. o_user r = uid) (t_orders tb))"
  have o: "at (ty, sid) ?os = (case a_order a (ty, sid) of None \<Rightarrow> [] | Some p \<Rightarrow> [p])" for ty sid
  proof -
    have "filter (\<lambda>r. o_user r = uid \<and> o_type r = ty \<and> o_stock r = sid) xs = filter (is_order uid sid ty) xs" for xs
      by (rule filter_cong) (auto simp: is_order_def)
    then have "at (ty, sid) ?os = order_rows tb uid ty sid"
      by (simp add: filter_map o_def order_rows_def conj_commute)
    then show ?thesis using mirrorsD(3) [OF assms] by simp
  qed
  have "length (at k ?os) \<le> 1" for k using o [of "fst k" "snd k"] by (simp split: option.splits)
  from distinct_at [OF this] show "distinct (map (\<lambda>r. (o_type r, o_stock r)) (filter (\<lambda>r. o_user r = uid) (t_orders tb)))"
    by (simp add: o_def)
  show "map_of ?os = a_order a"
  proof
    fix k show "map_of ?os k = a_order a k" using o [of "fst k" "snd k"] unfolding map_of_at by (simp split: option.splits)
  qed
  let ?hs = "map snd (filter (\<lambda>h. fst h = uid) (t_holdings tb))"
  have h: "at sid ?hs = (case a_held a sid of None \<Rightarrow> [] | Some n \<Rightarrow> [n])" for sid
  proof -
    have "at sid (map snd (filter (\<lambda>h. fst h = uid) xs)) = map (\<lambda>(u, s, n). n) (filter (\<lambda>(u, s, n). u = uid \<and> s = sid) xs)"
      for xs :: "(string \<times> string \<times> int) list" by (induction xs) auto
    then show ?thesis using mirrorsD(2) [OF assms] by (simp add: share_rows_def)
  qed
  have "length (at k ?hs) \<le> 1" for k using h [of k] by (simp split: option.splits)
  then show "distinct (map fst ?hs)" by (rule distinct_at)
  show "map_of ?hs = a_held a"
  proof
    fix k show "map_of ?hs k = a_held a k" using h [of k] unfolding map_of_at by (simp split: option.splits)
  qed
qed

text \<open>The keys of a server's accounts.\<close>

lemma account_keys:
  "a_order (account_of st u) (ty, sid) \<noteq> None \<Longrightarrow> validStockID (Some sid) \<and> ty \<in> {CHR ''b'', CHR ''s''}"
  "a_held (account_of st u) sid \<noteq> None \<Longrightarrow> validStockID (Some sid)"
  by (auto simp: orders_of_path held_of_path split: if_splits)

lemma load_user_turns:
  assumes ok: "server_ok st0" "v < u_fresh st0" and mi: "mirrors tb uid (account_of st0 v)"
    and sm: "small K n (account_of st0 v)" "0 \<le> K" "narrow K n" and mo: "list_all money (t_orders tb)"
    and l: "server_ok l" "u < u_fresh l" "account_of l u = \<lparr>a_bal = 0, a_pend = None, a_held = Map.empty, a_order = Map.empty\<rparr>"
    and an: "answered e (length (db_sent l)) uid tb"
  shows "turns l u ((account_of st0 v)\<lparr>a_pend := None\<rparr>) (load_user e u uid l)"
proof -
  let ?n = "length (db_sent l)" and ?db = "dbID (usr l u)" and ?a = "account_of st0 v"
  let ?os = "filter (\<lambda>r. o_user r = uid) (t_orders tb)" and ?hs = "map snd (filter (\<lambda>h. fst h = uid) (t_holdings tb))"
  note rd = rows_distinct [OF mi]
  define s1 where "s1 = db_write [SelectUserTrig uid] ?db l"
  define s2 where "s2 = load_triggers u (answer (SelectUserTrig uid) tb) s1"
  define s3 where "s3 = db_write [SelectUserStock uid] ?db s2"
  define s4 where "s4 = load_stocks u (answer (SelectUserStock uid) tb) s3"
  define s5 where "s5 = db_write [SelectUserBal uid] ?db s4"
  have len: "length (db_sent s2) = ?n + 1" "length (db_sent s4) = ?n + 2"
    by (simp_all add: s1_def s2_def s3_def s4_def db_sent_load db_write_def)
  have b: "balance_rows tb uid = [a_bal ?a]" using mirrorsD(1) [OF mi] .
  have bal: "str2price (Some (numeric_out (a_bal ?a))) = a_bal ?a"
    using balance_range [OF sm] by (rule numeric_out_price)
  have r: "rows e ?n = Some (answer (SelectUserTrig uid) tb)" "rows e (?n + 1) = Some (answer (SelectUserStock uid) tb)"
      "rows e (?n + 2) = Some [[numeric_out (a_bal ?a)]]" using an b by (simp_all add: answered_def)
  have eq: "load_user e u uid l = upd_user u (\<lambda>x. x\<lparr>balance := a_bal ?a\<rparr>) s5"
    unfolding load_user_def db_read_def Let_def prod.case r(1) option.case s1_def [symmetric] s2_def [symmetric] len(1)
      s3_def [symmetric] r(2) s4_def [symmetric] len(2) s5_def [symmetric] r(3)
    by (simp add: bal del: account_sel)
  define e0 where "e0 = \<lparr>a_bal = 0, a_pend = None, a_held = Map.empty, a_order = Map.empty :: char \<times> string \<rightharpoonup> int \<times> int\<rparr>"
  have t1: "turns l u e0 s1" unfolding s1_def e0_def l(3) [symmetric] by (rule turns_intros turns_start l)+
  have k: "validStockID (Some (o_stock r)) \<and> o_type r \<in> {CHR ''b'', CHR ''s''}" if "r \<in> set ?os" for r
  proof -
    have "map_of (map (\<lambda>r. ((o_type r, o_stock r), (o_reserved r, o_value r))) ?os) (o_type r, o_stock r) \<noteq> None"
      unfolding map_of_eq_None_iff using that by (auto simp: image_iff)
    then show ?thesis unfolding rd(2) by (rule account_keys(1))
  qed
  have t2: "turns l u (e0\<lparr>a_order := a_order ?a\<rparr>) s2"
    using load_triggers_turns [OF t1 l(2) rd(1)] k mo by (simp add: rd(2) s2_def e0_def list_all_iff)
  have t3: "turns l u (e0\<lparr>a_order := a_order ?a\<rparr>) s3" unfolding s3_def by (rule turns_intros t2 l)+
  have h: "validStockID (Some s) \<and> 0 \<le> m \<and> m < 2 ^ 63" if "(s, m) \<in> set ?hs" for s m
  proof -
    have "a_held ?a s = Some m" using map_of_is_SomeI [OF rd(3) that] unfolding rd(4) .
    moreover have "int_col m" "0 \<le> m"
      using held_range [OF sm(1,3) calculation] smallD(1) [OF sm(1)] calculation unfolding sound_def by blast+
    ultimately show ?thesis using account_keys(2) [of st0 v s] by (simp add: int_col_def)
  qed
  have ans: "answer (SelectUserStock uid) tb = map (\<lambda>(s, n). [uid, s, show_long n]) ?hs"
  proof -
    have "map (\<lambda>(u, s, n). [u, s, show_long n]) (filter (\<lambda>(u, s, n). u = uid) xs) =
        map (\<lambda>(s, n). [uid, s, show_long n]) (map snd (filter (\<lambda>h. fst h = uid) xs))" for xs by (induction xs) auto
    then show ?thesis by simp
  qed
  have e4: "e0\<lparr>a_order := a_order ?a, a_held := a_held ?a\<rparr> =
      (e0\<lparr>a_order := a_order ?a\<rparr>)\<lparr>a_held := a_held (e0\<lparr>a_order := a_order ?a\<rparr>) ++ map_of ?hs\<rparr>"
    by (simp add: rd(4) e0_def)
  have t4: "turns l u (e0\<lparr>a_order := a_order ?a, a_held := a_held ?a\<rparr>) s4"
    unfolding s4_def ans e4
  proof (rule load_stocks_turns [OF t3 l(2) rd(3)])
    show "validStockID (Some s) \<and> 0 \<le> m \<and> m < 2 ^ 63 \<and> a_held (e0\<lparr>a_order := a_order ?a\<rparr>) s = None"
      if "(s, m) \<in> set ?hs" for s m
      using h [OF that] by (simp add: e0_def)
  qed
  have t5: "turns l u (e0\<lparr>a_order := a_order ?a, a_held := a_held ?a\<rparr>) s5" unfolding s5_def by (rule turns_intros t4 l)+
  have "turns l u ((e0\<lparr>a_order := a_order ?a, a_held := a_held ?a\<rparr>)\<lparr>a_bal := a_bal ?a\<rparr>) (load_user e u uid l)"
    unfolding eq by (rule turns_balance' [OF t5 l(2)])
  then show ?thesis by (simp add: e0_def account_of_def)
qed


definition sample_answers :: env where
  "sample_answers = sample_env\<lparr>rows := (\<lambda>n.
     nth_opt [answer (SelectUserTrig ''A1b2C3d4E5'') sample_tables, answer (SelectUserStock ''A1b2C3d4E5'') sample_tables,
       answer (SelectUserBal ''A1b2C3d4E5'') sample_tables] n)\<rparr>"


end
