(* ===== verification/Removal.thy ===== *)
theory Removal
  imports Users
begin

text \<open>
  \<open>removeUser\<close>, which the server declares but no code calls: what it would do to a server. It
  faults for a user with an order or a holding; for any other it ends with counts that are off by
  one, and indexes the nodes of the user tree by another function than \<open>addUser\<close>.
\<close>

section \<open>The function\<close>

text \<open>
  The loops over the collected triggers and holdings read index \<open>n\<close> of an array of \<open>n\<close> entries first;
  \<open>None\<close> is an access outside the array.
\<close>

fun remove_triggers :: "addr option list \<Rightarrow> nat \<Rightarrow> server \<Rightarrow> server option" where
  "remove_triggers arr 0 st = Some st"
| "remove_triggers arr (Suc n) st =
     (case nth_opt arr (Suc n) of
        Some (Some a) \<Rightarrow> remove_triggers arr n (removeTrigger st a)
      | _ \<Rightarrow> None)"

fun remove_holdings :: "addr \<Rightarrow> user_stock option list \<Rightarrow> nat \<Rightarrow> server \<Rightarrow> server option" where
  "remove_holdings u arr 0 st = Some st"
| "remove_holdings u arr (Suc n) st =
     (case nth_opt arr (Suc n) of
        Some (Some us) \<Rightarrow> remove_holdings u arr n (removeUserStock st u us)
      | _ \<Rightarrow> None)"

text \<open>The loop that empties the command queue; its length is enough fuel.\<close>

fun drain :: "nat \<Rightarrow> command queue \<Rightarrow> command queue option" where
  "drain 0 q = (if q_length q = 0 then Some q else None)"
| "drain (Suc n) q =
     (if q_length q = 0 then Some q
      else (case cdeq q of (Got a v, q') \<Rightarrow> drain n q' | _ \<Rightarrow> None))"

text \<open>The upward loop with the index \<open>userID[--i] - 65\<close>; \<open>None\<close> is an access outside the array of children.\<close>

fun prune_user :: "string \<Rightarrow> addr trie \<Rightarrow> nat list \<Rightarrow> nat \<Rightarrow> addr trie option" where
  "prune_user uid t p 0 = Some t"
| "prune_user uid t p (Suc i) =
     (case trie_at t p of
        None \<Rightarrow> None
      | Some temp \<Rightarrow>
          if obj temp \<noteq> None \<or> kids temp \<noteq> None then Some t
          else (let p' = butlast p; ad = c_int (uid ! i) - 65 in
                case Option.bind (trie_at t p') kids of
                  None \<Rightarrow> None
                | Some ks \<Rightarrow>
                    if ad < 0 \<or> int (length ks) \<le> ad then None
                    else (let t1 = trie_upd t p' (clear_kid (nat ad)) in
                          if \<exists>k \<in> set (ks[nat ad := None]). k \<noteq> None then Some t1
                          else prune_user uid (trie_upd t1 p' drop_kids) p' i)))"

text \<open>
  The whole of it, with the user's mutex held. \<open>None\<close>: it waits at \<open>sem_wait(ul->avail)\<close>, the user
  already unlinked from the ring. The object, its trees and its queue are freed; nothing of the
  state refers to them afterwards.
\<close>

definition removeUser :: "addr \<Rightarrow> server \<Rightarrow> server option" where
  "removeUser u st =
     (let uid = userID (usr st u); path = map user_index uid in
      case gather getAllTriggers (tTree (usr st u)) of
        None \<Rightarrow> Some (crash st)
      | Some triggers \<Rightarrow>
          (case remove_triggers triggers (length triggers) st of
             None \<Rightarrow> Some (crash st)
           | Some st \<Rightarrow>
               (case gather getAllUserStocks (usTree (usr st u)) of
                  None \<Rightarrow> Some (crash st)
                | Some userStocks \<Rightarrow>
                    (case remove_holdings u userStocks (length userStocks) st of
                       None \<Rightarrow> Some (crash st)
                     | Some st \<Rightarrow>
                         (let st = st\<lparr>u_ring := ring_remove u (u_ring st), ul_num := ul_num st - 1\<rparr> in
                          if avail st = 0 then None
                          else
                            (let st = st\<lparr>avail := avail st - 1\<rparr> in
                             case drain (q_length (commList (usr st u))) (commList (usr st u)) of
                               None \<Rightarrow> Some (crash st)
                             | Some q \<Rightarrow>
                                 if look (users st) path \<noteq> Some u then Some (crash st)
                                 else (case prune_user uid (trie_upd (users st) path clear_obj) path (length uid) of
                                         None \<Rightarrow> Some (crash st)
                                       | Some tree \<Rightarrow>
                                           Some ((upd_user u (\<lambda>x. x\<lparr>commList := q\<rparr>) st)
                                             \<lparr>users := tree, ul_num := ul_num st - 1\<rparr>))))))))"

section \<open>A user with orders or holdings\<close>

lemma remove_all_fault:
  "xs \<noteq> [] \<Longrightarrow> remove_triggers (map Some xs) (length xs) st = None"
  "ys \<noteq> [] \<Longrightarrow> remove_holdings u (map Some ys) (length ys) st = None"
  by (cases xs; simp add: nth_opt_def) (cases ys; simp add: nth_opt_def)

lemma removeUser_owner:
  assumes "objects (tTree (usr st u)) \<noteq> [] \<or> objects (usTree (usr st u)) \<noteq> []"
  shows "removeUser u st = Some (crash st)"
  using assms by (cases "objects (tTree (usr st u)) = []") (simp_all add: removeUser_def gather_objects remove_all_fault)

section \<open>A user without\<close>

lemma drain_all:
  assumes "queue_inv q"
  shows "\<exists>q'. drain (q_length q) q = Some q' \<and> queue_inv q' \<and> contents q' = []"
  using assms
proof (induction "q_length q" arbitrary: q)
  case 0
  then have "contents q = []" using queue_inv_contents [OF 0(2)] by (metis length_0_conv)
  with 0 show ?case by simp
next
  case (Suc n)
  obtain bs where len: "length (contents q) = q_length q" using Suc.prems by (rule queue_inv_contents) auto
  then obtain v vs where vs: "contents q = v # vs" using Suc.hyps(2) by (cases "contents q") auto
  then have c: "cdeq q = deq False q" using cdeq_deq [OF Suc.prems] by simp
  note d = queue_inv_deq [OF Suc.prems vs, of False]
  obtain q' where q': "deq False q = (Got (q_start q) v, q')" using d by (cases "deq False q") auto
  have inv: "queue_inv q'" "contents q' = vs" using d q' by simp_all
  have "n = q_length q'"
    using queue_inv_contents [OF inv(1)] inv(2) len vs Suc.hyps(2) by (metis Suc_inject length_Cons)
  with Suc.hyps(1) [OF _ inv(1)] Suc.hyps(2) c q' show ?case by (simp add: Suc.hyps(2) [symmetric])
qed

lemma look_clear_at: "trie_at t p = Some nd \<Longrightarrow> look (trie_upd t p clear_obj) q = (if q = p then None else look t q)"
  by (auto simp: look_upd look_clear prefix_def look_append)

text \<open>The index of the removal is never the index of the node.\<close>

lemma removal_index: "valid_user_char c \<Longrightarrow> 65 \<le> c_int c \<Longrightarrow> nat (c_int c - 65) \<noteq> user_index c \<and> nat (c_int c - 65) < USER_CHARS"
  by (auto simp: valid_user_char_def user_index_def user_addr_def USER_CHARS_def Let_def)

text \<open>
  So at most one round of the loop runs: it frees the child under the wrong index, and stops at the
  node of the removed user, which is still there.
\<close>

lemma prune_user_once:
  assumes wf: "wf_trie USER_CHARS t" and v: "user_key (cs @ [c])" and p: "p = map user_index (cs @ [c])"
    and nd: "trie_at t p = Some nd" "kids nd = None"
  shows "prune_user (cs @ [c]) (trie_upd t p clear_obj) p (length (cs @ [c])) =
    (if c_int c < 65 then None
     else Some (trie_upd (trie_upd t p clear_obj) (butlast p) (clear_kid (nat (c_int c - 65)))))"
proof -
  let ?t = "trie_upd t p clear_obj" and ?a = "nat (c_int c - 65)"
  have c: "valid_user_char c" using v by (simp add: user_key_def)
  have ne: "p \<noteq> []" and last: "last p = user_index c" by (simp_all add: p)
  have nd': "trie_at ?t p = Some (clear_obj nd)" by (rule trie_at_upd [OF nd(1)])
  have "wf_trie USER_CHARS nd" by (rule wf_trie_at [OF wf nd(1)])
  then have wf': "wf_trie USER_CHARS ?t" by (intro wf_trie_upd [OF wf nd(1)]) simp
  obtain par where par: "trie_at ?t (butlast p) = Some par" "kid par (user_index c) = Some (clear_obj nd)"
    using trie_at_parent [OF nd' ne] last by metis
  have "wf_trie USER_CHARS par" by (rule wf_trie_at [OF wf' par(1)])
  moreover obtain ks where ks: "kids par = Some ks" "user_index c < length ks" "ks ! user_index c = Some (clear_obj nd)"
    using par(2) by (auto simp: kid_def split: option.splits if_splits)
  ultimately have len: "length ks = USER_CHARS" by (cases par) (simp add: wf_trie_node)
  have stop: "\<exists>k \<in> set (ks[?a := None]). k \<noteq> None" if "65 \<le> c_int c"
  proof -
    have "?a \<noteq> user_index c" using removal_index [OF c that] by blast
    then have "ks[?a := None] ! user_index c = Some (clear_obj nd)" using ks(3) by simp
    moreover have "user_index c < length (ks[?a := None])" using ks(2) by simp
    ultimately show ?thesis by (metis nth_mem option.distinct(1))
  qed
  have "obj (clear_obj nd) = None" "kids (clear_obj nd) = None" using nd(2) by (simp_all add: clear_obj_def)
  moreover have "int (length ks) \<le> c_int c - 65 \<Longrightarrow> c_int c < 65" using removal_index [OF c] len by linarith
  ultimately show ?thesis using nd' par(1) ks(1) stop by (auto simp: Let_def nth_append)
qed

text \<open>
  When some command is queued: the user is gone, the list counts one user too few, the semaphore
  one command less. Gone from the tree, but not from the ring, is also the user whose identifier
  differs in the last character, when the index of that one is the number computed for the other.
\<close>

lemma removeUser_alone:
  assumes ok: "server_ok st" and u: "u < u_fresh st" "userID (usr st u) = cs @ [c]" and av: "0 < avail st"
    and none: "objects (tTree (usr st u)) = []" "objects (usTree (usr st u)) = []"
    and leaf: "\<And>nd. trie_at (users st) (map user_index (cs @ [c])) = Some nd \<Longrightarrow> kids nd = None"
  shows "c_int c < 65 \<and> (\<exists>st'. removeUser u st = Some st' \<and> fault st') \<or>
    65 \<le> c_int c \<and> (\<exists>st'. removeUser u st = Some st' \<and> fault st' = fault st \<and> ul_num st' = ul_num st - 2 \<and>
      avail st' = avail st - 1 \<and> u_ring st' = ring_remove u (u_ring st) \<and>
      (\<forall>vid. user_key vid \<longrightarrow> getUser st' vid =
        (if vid = cs @ [c] \<or> prefix (map user_index cs @ [nat (c_int c - 65)]) (map user_index vid) then None
         else getUser st vid)))"
proof -
  let ?p = "map user_index (cs @ [c])"
  have uo: "users_ok (users st) (uids st) (u_fresh st) (u_ring st) (ul_num st)" using ok by (simp add: server_ok_def)
  then have wf: "wf_trie USER_CHARS (users st)" and key: "user_key (cs @ [c])" and lk: "look (users st) ?p = Some u"
    using u by (auto simp: users_ok_def uids_def)
  obtain nd where nd: "trie_at (users st) ?p = Some nd" "kids nd = None" using lk leaf by (auto simp: look_def split: option.splits)
  obtain q where q: "drain (q_length (commList (usr st u))) (commList (usr st u)) = Some q"
    using drain_all [of "commList (usr st u)"] ok_user_wf [OF ok u(1)] unfolding user_wf_def by blast
  note once = prune_user_once [OF wf key refl nd]
  show ?thesis
  proof (cases "c_int c < 65")
    case True
    then show ?thesis
      using av none q lk once by (simp add: removeUser_def gather_objects u(2) Let_def crash_def del: map_append)
  next
    case False
    let ?t = "trie_upd (trie_upd (users st) ?p clear_obj) (butlast ?p) (clear_kid (nat (c_int c - 65)))"
    have r: "removeUser u st = Some ((upd_user u (\<lambda>x. x\<lparr>commList := q\<rparr>) (st\<lparr>u_ring := ring_remove u (u_ring st),
        ul_num := ul_num st - 1, avail := avail st - 1\<rparr>))\<lparr>users := ?t, ul_num := ul_num st - 2\<rparr>)"
      using av none q lk once False by (simp add: removeUser_def gather_objects u(2) Let_def upd_user_def del: map_append)
    obtain par where par: "trie_at (trie_upd (users st) ?p clear_obj) (butlast ?p) = Some par"
      using trie_at_parent [OF trie_at_upd [OF nd(1)]] by blast
    have l: "look ?t x = (if prefix (map user_index cs @ [nat (c_int c - 65)]) x then None
        else if x = ?p then None else look (users st) x)" for x
      using look_clear_kid_at [OF par, of "nat (c_int c - 65)" x] look_clear_at [OF nd(1), of x] by simp
    have "getUser st' vid = (if vid = cs @ [c] \<or> prefix (map user_index cs @ [nat (c_int c - 65)]) (map user_index vid) then None
         else getUser st vid)" if "users st' = ?t" "user_key vid" for st' vid
      using l [of "map user_index vid"] user_path_inj [OF that(2) key] by (auto simp: getUser_look [OF that(2)] that(1))
    then show ?thesis using False r by simp
  qed
qed

section \<open>Who is lost with whom\<close>

definition two_users :: server where
  "two_users = (link_user (link_user server_init ''User00000A'') ''User000000'')\<lparr>avail := 1\<rparr>"

lemma neighbour_lost:
  "case removeUser 0 two_users of
     None \<Rightarrow> False
   | Some st \<Rightarrow> getUser two_users ''User000000'' = Some 1 \<and> getUser st ''User000000'' = None \<and>
       r_curr (u_ring st) = Some 1 \<and> ul_num st = 0"
  by code_simp

end
